(* ===== verification/Prelude.thy ===== *)
theory Prelude
  imports Main "HOL-Library.Word"
begin

unbundle bit_operations_syntax

text \<open>
  Shared vocabulary of the development: the machine-integer types of the source, byte order
  conversions, the value of a little-endian limb array, and the generic facts on words and
  lists that the component theories rest on.  \<open>usize\<close> is 64 bits wide wherever its width
  matters; lengths and indices that are bounded by the length of a list are natural numbers.
\<close>

type_synonym u8 = "8 word"
type_synonym u16 = "16 word"
type_synonym u32 = "32 word"
type_synonym u64 = "64 word"
type_synonym u128 = "128 word"
type_synonym bytes = "u8 list"

named_theorems value_simps \<open>values of byte strings and limb arrays as natural numbers\<close>
named_theorems codec_simps \<open>unfolding rules of the wire-format readers and writers\<close>

section \<open>Words\<close>

lemma bit_unat: "bit w n \<longleftrightarrow> odd (unat w div 2 ^ n)"
  by (metis bit_iff_odd bit_unsigned_iff possible_bit_nat)

lemma unat_lt: "unat (w :: 'a::len word) < 2 ^ LENGTH('a)"
  by (rule unsigned_less)

lemma ucast_of_nat: "(ucast w :: 'b::len word) = word_of_nat (unat (w :: 'a::len word))"
  by (metis of_int_of_nat_eq of_nat_unat ucast_eq)

lemma unat_ucast: "unat (ucast w :: 'b::len word) = unat (w :: 'a::len word) mod 2 ^ LENGTH('b)"
  by (simp only: ucast_of_nat unat_of_nat)

lemma unat_drop_bit: "unat (drop_bit n w) = unat w div 2 ^ n"
  by (simp add: unat_drop_bit_eq drop_bit_eq_div [where ?'a = nat])

lemma unat_and_1: "unat (w AND 1) = unat w mod 2"
  using bit_unat [of w 0] by (simp add: and_one_eq mod_2_eq_odd bit_0)

lemma unat_push_bit: "unat (push_bit n w) = unat w * 2 ^ n mod 2 ^ LENGTH('a)"
  for w :: "'a::len word"
  by (simp add: push_bit_eq_mult unat_word_ariths(2)) (metis mod_mult_right_eq unat_of_nat of_nat_numeral
      of_nat_power)

lemma unat_and_mask: "unat (w AND mask n :: 'a::len word) = unat w mod 2 ^ n"
  by (simp only: take_bit_eq_mask [symmetric] unsigned_take_bit_eq) (simp only: take_bit_eq_mod)

lemma word_eq_of_nat: "unat (x :: 'a::len word) = n \<Longrightarrow> x = word_of_nat n"
  by auto

lemma bit_imp_less_pow:
  assumes "unat a < 2 ^ n" and "bit a i"
  shows "i < n"
proof (rule ccontr)
  assume "\<not> i < n"
  then have "(2::nat) ^ n \<le> 2 ^ i" by simp
  with assms(1) have "unat a div 2 ^ i = 0" by (metis div_less order_less_le_trans)
  with assms(2) show False by (simp add: bit_unat)
qed

text \<open>Or-ing in a shifted value above the bits in use is an addition.\<close>

lemma unat_or_shift:
  fixes a b :: "'a::len word"
  assumes "unat a < 2 ^ n" and "unat b * 2 ^ n < 2 ^ LENGTH('a)"
  shows "unat (a OR push_bit n b) = unat a + unat b * 2 ^ n"
proof -
  have sh: "unat (push_bit n b) = unat b * 2 ^ n"
    using assms(2) by (simp add: unat_push_bit)
  have "a + push_bit n b = a OR push_bit n b"
    by (intro disjunctive_add) (auto simp: bit_push_bit_iff dest: bit_imp_less_pow [OF assms(1)])
  moreover have "unat a + unat b * 2 ^ n < 2 ^ LENGTH('a)"
  proof (cases "n < LENGTH('a)")
    case True
    then have p: "(2::nat) ^ LENGTH('a) = 2 ^ (LENGTH('a) - n) * 2 ^ n"
      by (simp flip: power_add)
    with assms(2) have "Suc (unat b) \<le> 2 ^ (LENGTH('a) - n)"
      by simp
    then have "Suc (unat b) * 2 ^ n \<le> 2 ^ LENGTH('a)"
      unfolding p by (rule mult_le_mono1)
    with assms(1) show ?thesis by simp
  next
    case False
    then have "(2::nat) ^ LENGTH('a) \<le> 2 ^ n" by simp
    with assms(2) have "unat b = 0"
      by (metis One_nat_def Suc_leI gr0I mult_1 mult_le_mono1 not_le order_trans)
    then show ?thesis using unat_lt [of a] by simp
  qed
  ultimately show ?thesis
    using sh unat_add_lem [of a "push_bit n b"] by simp
qed

lemma unat_or_bit:
  fixes a b :: "'a::len word"
  assumes "even (unat a)" and "unat b \<le> 1"
  shows "unat (a OR b) = unat a + unat b"
proof (cases "unat b = 0")
  case True
  then show ?thesis by (simp add: unat_eq_zero)
next
  case False
  then have b: "b = 1" using assms(2) by (simp add: word_unat_eq_iff le_Suc_eq)
  have "even a" using assms(1) bit_unat [of a 0] by (simp add: bit_0)
  then have "a OR 1 = a + 1" by (simp add: or_one_eq)
  moreover have "unat (a + 1) = unat a + 1"
  proof -
    have "unat a + 1 \<noteq> 2 ^ LENGTH('a)" using assms(1) by (metis dvd_power even_add len_gt_0 odd_one)
    then have "unat a + 1 < 2 ^ LENGTH('a)" using unat_lt [of a] by linarith
    then show ?thesis by (simp add: unat_word_ariths)
  qed
  ultimately show ?thesis using b by simp
qed

lemma unat_neg:
  fixes x :: "'a::len word"
  assumes "x \<noteq> 0"
  shows "unat (- x) = 2 ^ LENGTH('a) - unat x"
proof -
  have pos: "0 < unat x" using assms by (simp add: unat_gt_0)
  have lt: "unat x < 2 ^ LENGTH('a)" by (rule unat_lt)
  have "- x = word_of_nat (2 ^ LENGTH('a) - unat x)"
    using less_imp_le [OF lt] by simp
  then have "unat (- x) = (2 ^ LENGTH('a) - unat x) mod 2 ^ LENGTH('a)"
    by (simp only: unat_of_nat)
  then show ?thesis
    using pos lt by simp
qed

lemma two_pow_len: "(2::nat) ^ LENGTH('a::len) = 2 * 2 ^ (LENGTH('a) - 1)"
  by (cases "LENGTH('a)") simp_all

lemma word_top_bit_iff:
  fixes w :: "'a::len word"
  shows "bit w (LENGTH('a) - 1) \<longleftrightarrow> 2 ^ (LENGTH('a) - 1) \<le> unat w"
proof -
  have "unat w div 2 ^ (LENGTH('a) - 1) < 2"
    using unat_lt [of w] two_pow_len [where ?'a = 'a] by (simp add: less_mult_imp_div_less)
  moreover have "2 ^ (LENGTH('a) - 1) \<le> unat w \<longleftrightarrow> 0 < unat w div 2 ^ (LENGTH('a) - 1)"
    by (simp add: div_greater_zero_iff)
  ultimately show ?thesis
    unfolding bit_unat by (metis One_nat_def even_zero less_2_cases_iff neq0_conv odd_one)
qed

lemma word_drop_top:
  fixes w :: "'a::len word"
  shows "drop_bit (LENGTH('a) - 1) w = of_bool (bit w (LENGTH('a) - 1))"
proof (rule bit_word_eqI)
  fix n assume "n < LENGTH('a)"
  then show "bit (drop_bit (LENGTH('a) - 1) w) n
      = bit (of_bool (bit w (LENGTH('a) - 1)) :: 'a word) n"
    by (cases n) (auto simp: bit_drop_bit_eq bit_1_iff dest: bit_imp_le_length)
qed

text \<open>The top bit of \<open>x | -x\<close> tells whether \<open>x\<close> is non-zero.\<close>

lemma word_or_neg_top:
  fixes x :: "'a::len word"
  shows "bit (x OR - x) (LENGTH('a) - 1) \<longleftrightarrow> x \<noteq> 0"
proof (cases "x = 0")
  case False
  then have "2 ^ (LENGTH('a) - 1) \<le> unat x \<or> 2 ^ (LENGTH('a) - 1) \<le> unat (- x)"
    using two_pow_len [where ?'a = 'a] unat_neg [OF False] by linarith
  then show ?thesis
    using False by (simp only: bit_or_iff simp_thms flip: word_top_bit_iff)
qed simp

lemma word_or_neg_shift:
  fixes x :: "'a::len word"
  shows "drop_bit (LENGTH('a) - 1) (x OR - x) = of_bool (x \<noteq> 0)"
  by (simp only: word_drop_top word_or_neg_top)

lemma word_xor_eq_0: "a XOR b = 0 \<longleftrightarrow> a = (b :: 'a::len word)"
  by (metis xor.assoc xor.left_neutral xor.right_neutral xor_self_eq)

text \<open>The order on words is decided by the highest position where they differ.\<close>

lemma drop_bit_less_imp_less:
  fixes a b :: "'a::len word"
  assumes "drop_bit n a < drop_bit n b"
  shows "a < b"
proof (rule ccontr)
  assume "\<not> a < b"
  then have "unat b div 2 ^ n \<le> unat a div 2 ^ n"
    by (intro div_le_mono) (simp add: word_less_nat_alt)
  with assms show False
    by (simp add: word_less_nat_alt unat_drop_bit_eq drop_bit_eq_div [where ?'a = nat])
qed

lemma word_less_top_bit:
  fixes a b :: "'a::len word"
  assumes "\<not> bit a i" and "bit b i" and "\<And>j. i < j \<Longrightarrow> bit a j = bit b j"
  shows "a < b"
proof (rule drop_bit_less_imp_less [of i])
  have bits: "bit (drop_bit i b) n = (bit (drop_bit i a) n \<or> n = 0)" for n
    using assms by (cases n) (simp_all add: bit_drop_bit_eq)
  have even: "even (drop_bit i a)" using assms(1) by (simp add: bit_iff_odd_drop_bit)
  have "drop_bit i b = drop_bit i a OR 1"
    by (rule bit_word_eqI) (auto simp: bits bit_or_iff bit_1_iff)
  also have "\<dots> = drop_bit i a + 1"
    using even by (simp add: or_one_eq)
  finally have eq: "drop_bit i b = drop_bit i a + 1" .
  have "drop_bit i b \<noteq> 0" using assms(2) by (metis bit_iff_odd_drop_bit even_zero)
  then have "unat (drop_bit i a + 1) = Suc (unat (drop_bit i a))"
    using eq by (metis add.commute unatSuc)
  then show "drop_bit i a < drop_bit i b"
    by (simp add: eq word_less_nat_alt)
qed

lemma word_diff_top:
  fixes a b :: "'a::len word"
  assumes "a \<noteq> b"
  obtains i where "i < LENGTH('a)" "bit a i \<noteq> bit b i" "\<And>j. i < j \<Longrightarrow> bit a j = bit b j"
proof -
  let ?D = "{i. bit a i \<noteq> bit b i}"
  have fin: "finite ?D"
    by (rule finite_subset [of _ "{..<LENGTH('a)}"]) (auto dest: bit_imp_le_length)
  have ne: "?D \<noteq> {}" using assms by (auto simp: bit_eq_iff)
  have mem: "Max ?D \<in> ?D" using fin ne by (rule Max_in)
  show thesis
  proof (rule that [of "Max ?D"])
    show "Max ?D < LENGTH('a)" using mem by (auto dest: bit_imp_le_length)
    show "bit a (Max ?D) \<noteq> bit b (Max ?D)" using mem by simp
    show "bit a j = bit b j" if "Max ?D < j" for j
      using that Max_ge [OF fin, of j] by (auto simp: not_le)
  qed
qed

lemma mod_mult_div: "(a::nat) mod (m * n) div m = a div m mod n"
  by (cases "m = 0") (simp_all add: mod_mult2_eq)

section \<open>Little-endian digit lists\<close>

text \<open>
  The value of a list of words read as base-\<open>2 ^ w\<close> digits, least significant first: at
  type \<open>u8\<close> it is the little-endian reading of a byte string, at type \<open>u64\<close> the value of
  a limb array.
\<close>

primrec wval :: "'a::len word list \<Rightarrow> nat" where
  "wval [] = 0"
| "wval (x # xs) = unat x + 2 ^ LENGTH('a) * wval xs"

lemma wval_lt: "wval (xs :: 'a::len word list) < 2 ^ (LENGTH('a) * length xs)"
proof (induction xs)
  case (Cons x xs)
  have "wval xs + 1 \<le> 2 ^ (LENGTH('a) * length xs)"
    using Cons.IH by simp
  then have "2 ^ LENGTH('a) * (wval xs + 1) \<le> 2 ^ LENGTH('a) * 2 ^ (LENGTH('a) * length xs)"
    by (rule mult_le_mono2)
  moreover have "unat x + 2 ^ LENGTH('a) * wval xs < 2 ^ LENGTH('a) * (wval xs + 1)"
    using unat_lt [of x] by (simp only: distrib_left mult_1_right)
  ultimately have "unat x + 2 ^ LENGTH('a) * wval xs
      < 2 ^ LENGTH('a) * 2 ^ (LENGTH('a) * length xs)"
    by linarith
  then show ?case
    by (simp add: power_add)
qed simp

lemma wval_append [value_simps]:
  "wval (xs @ ys) = wval xs + 2 ^ (LENGTH('a) * length xs) * wval (ys :: 'a::len word list)"
  by (induction xs) (simp_all add: algebra_simps power_add)

lemma wval_replicate_0 [value_simps, simp]: "wval (replicate n (0::'a::len word)) = 0"
  by (induction n) simp_all

lemma wval_take_drop:
  "wval (xs :: 'a::len word list) =
     wval (take n xs) + 2 ^ (LENGTH('a) * length (take n xs)) * wval (drop n xs)"
  by (metis append_take_drop_id wval_append)

lemma wval_inject:
  "length xs = length ys \<Longrightarrow> wval xs = wval (ys :: 'a::len word list) \<Longrightarrow> xs = ys"
proof (induction xs ys rule: list_induct2)
  case (Cons x xs y ys)
  have eq: "unat x + 2 ^ LENGTH('a) * wval xs = unat y + 2 ^ LENGTH('a) * wval ys"
    using Cons.prems by simp
  have "unat x = (unat x + 2 ^ LENGTH('a) * wval xs) mod 2 ^ LENGTH('a)" by simp
  also have "\<dots> = unat y" by (simp add: eq)
  finally have "unat x = unat y" .
  with eq Cons.IH show ?case by (simp add: word_unat_eq_iff)
qed simp

lemma wval_eq_0_iff: "wval (xs :: 'a::len word list) = 0 \<longleftrightarrow> (\<forall>x \<in> set xs. x = 0)"
  by (induction xs) (auto simp: unat_eq_zero)

lemma wval_list_update:
  assumes "i < length xs"
  shows "wval (xs[i := v]) + 2 ^ (LENGTH('a) * i) * unat (xs ! i)
       = wval xs + 2 ^ (LENGTH('a) * i) * unat (v :: 'a::len word)"
  using assms
proof (induction xs arbitrary: i)
  case (Cons x xs)
  show ?case
  proof (cases i)
    case (Suc j)
    then have "wval (xs[j := v]) + 2 ^ (LENGTH('a) * j) * unat (xs ! j)
        = wval xs + 2 ^ (LENGTH('a) * j) * unat v"
      using Cons by simp
    then have "2 ^ LENGTH('a) * (wval (xs[j := v]) + 2 ^ (LENGTH('a) * j) * unat (xs ! j))
        = 2 ^ LENGTH('a) * (wval xs + 2 ^ (LENGTH('a) * j) * unat v)"
      by simp
    then show ?thesis
      using Suc by (simp add: algebra_simps power_add)
  qed simp
qed simp

text \<open>The digits of a number, and that they have its value.\<close>

definition wdigits :: "nat \<Rightarrow> nat \<Rightarrow> 'a::len word list" where
  "wdigits n x = map (\<lambda>i. word_of_nat (x div 2 ^ (LENGTH('a) * i))) [0..<n]"

lemma length_wdigits [simp]: "length (wdigits n x) = n"
  by (simp add: wdigits_def)

lemma wdigits_Suc:
  "wdigits (Suc n) x = (word_of_nat x :: 'a::len word) # wdigits n (x div 2 ^ LENGTH('a))"
  by (simp add: wdigits_def upt_conv_Cons map_Suc_upt [symmetric] power_add div_mult2_eq
      del: upt_Suc)

lemma wval_wdigits [value_simps]:
  "wval (wdigits n x :: 'a::len word list) = x mod 2 ^ (LENGTH('a) * n)"
proof (induction n arbitrary: x)
  case (Suc n)
  have "x mod (2 ^ LENGTH('a) * 2 ^ (LENGTH('a) * n))
      = 2 ^ LENGTH('a) * (x div 2 ^ LENGTH('a) mod 2 ^ (LENGTH('a) * n)) + x mod 2 ^ LENGTH('a)"
    by (rule mod_mult2_eq)
  then show ?case
    by (simp add: wdigits_Suc Suc.IH unat_of_nat power_add)
qed (simp add: wdigits_def)

lemma wdigits_wval [simp]: "wdigits (length xs) (wval xs) = (xs :: 'a::len word list)"
  by (rule wval_inject) (simp_all add: wval_wdigits wval_lt)

section \<open>Byte order\<close>

text \<open>\<open>to_le_bytes\<close> and \<open>to_be_bytes\<close> of the unsigned integer types, and their inverses.\<close>

definition to_le_bytes :: "'a::len word \<Rightarrow> bytes" where
  "to_le_bytes w = map (\<lambda>i. ucast (drop_bit (8 * i) w)) [0..<LENGTH('a) div 8]"

definition to_be_bytes :: "'a::len word \<Rightarrow> bytes" where
  "to_be_bytes w = rev (to_le_bytes w)"

definition be_val :: "bytes \<Rightarrow> nat" where
  "be_val bs = wval (rev bs)"

definition from_le_bytes :: "bytes \<Rightarrow> 'a::len word" where
  "from_le_bytes bs = word_of_nat (wval bs)"

definition from_be_bytes :: "bytes \<Rightarrow> 'a::len word" where
  "from_be_bytes bs = word_of_nat (be_val bs)"

lemma to_le_bytes_wdigits: "to_le_bytes w = wdigits (LENGTH('a) div 8) (unat (w :: 'a::len word))"
proof -
  have "(ucast (drop_bit (8 * i) w) :: u8) = word_of_nat (unat w div 2 ^ (8 * i))" for i
    by (simp only: ucast_of_nat unat_drop_bit_eq drop_bit_eq_div [where ?'a = nat])
  then show ?thesis
    by (simp add: to_le_bytes_def wdigits_def)
qed

lemma length_to_le_bytes [simp]: "length (to_le_bytes (w :: 'a::len word)) = LENGTH('a) div 8"
  by (simp add: to_le_bytes_def)

lemma length_to_be_bytes [simp]: "length (to_be_bytes (w :: 'a::len word)) = LENGTH('a) div 8"
  by (simp add: to_be_bytes_def)

lemma wval_to_le_bytes [value_simps]:
  "8 dvd LENGTH('a) \<Longrightarrow> wval (to_le_bytes (w :: 'a::len word)) = unat w"
  by (simp add: to_le_bytes_wdigits wval_wdigits)

lemma be_val_to_be_bytes [value_simps]:
  "8 dvd LENGTH('a) \<Longrightarrow> be_val (to_be_bytes (w :: 'a::len word)) = unat w"
  by (simp add: be_val_def to_be_bytes_def wval_to_le_bytes)

lemma from_to_le_bytes [simp]:
  "8 dvd LENGTH('a) \<Longrightarrow> from_le_bytes (to_le_bytes (w :: 'a::len word)) = w"
  by (simp add: from_le_bytes_def wval_to_le_bytes)

lemma from_to_be_bytes [simp]:
  "8 dvd LENGTH('a) \<Longrightarrow> from_be_bytes (to_be_bytes (w :: 'a::len word)) = w"
  by (simp add: from_be_bytes_def be_val_to_be_bytes)

lemma be_val_lt: "be_val bs < 256 ^ length bs"
  using wval_lt [of "rev bs"] by (simp add: be_val_def power_mult)

lemma be_val_Nil [simp]: "be_val [] = 0"
  by (simp add: be_val_def)

lemma be_val_append [value_simps]:
  "be_val (xs @ ys) = be_val xs * 256 ^ length ys + be_val ys"
  by (simp add: be_val_def wval_append power_mult)

lemma be_val_singleton [simp]: "be_val [b] = unat b"
  by (simp add: be_val_def)

lemma be_val_Cons [value_simps]:
  "be_val (b # bs) = unat b * 256 ^ length bs + be_val bs"
  using be_val_append [of "[b]" bs] by simp

lemma be_val_inject: "length xs = length ys \<Longrightarrow> be_val xs = be_val ys \<Longrightarrow> xs = ys"
  unfolding be_val_def by (metis length_rev rev_rev_ident wval_inject)

text \<open>Shifting in byte after byte reads them in big-endian order.\<close>

lemma be_fold_val:
  "unat v * 256 ^ length bs + be_val bs < 2 ^ 64 \<Longrightarrow>
   unat (fold (\<lambda>b value. push_bit 8 value OR ucast b) bs (v :: u64)) = unat v * 256 ^ length bs + be_val bs"
proof (induction bs arbitrary: v)
  case (Cons b bs)
  let ?v = "push_bit 8 v OR ucast b :: u64"
  have "unat v * 256 \<le> unat v * 256 ^ length (b # bs)" by simp
  then have lt: "unat v * 256 < 2 ^ 64" using Cons.prems by linarith
  have "unat (ucast b OR push_bit 8 v :: u64) = unat (ucast b :: u64) + unat v * 2 ^ 8"
    using lt unat_lt [of b] by (intro unat_or_shift) (simp_all add: unat_ucast)
  moreover have "unat (ucast b :: u64) = unat b" using unat_lt [of b] by (simp add: unat_ucast)
  ultimately have v: "unat ?v = unat v * 256 + unat b" by (simp add: or.commute)
  have "unat ?v * 256 ^ length bs + be_val bs = unat v * 256 ^ length (b # bs) + be_val (b # bs)"
    by (simp only: v be_val_Cons) (simp add: algebra_simps)
  then show ?case using Cons.IH [of ?v] Cons.prems by simp
qed simp

section \<open>Fallible code\<close>

text \<open>The \<open>?\<close> operator on results, which are sums with the error on the left.\<close>

fun and_then :: "'e + 'a \<Rightarrow> ('a \<Rightarrow> 'e + 'b) \<Rightarrow> 'e + 'b" where
  "and_then (Inl e) f = Inl e"
| "and_then (Inr x) f = f x"

lemma and_then_Inr_iff: "and_then r f = Inr y \<longleftrightarrow> (\<exists>x. r = Inr x \<and> f x = Inr y)"
  by (cases r) simp_all

lemma and_then_cong [fundef_cong]:
  "r = r' \<Longrightarrow> (\<And>x. r' = Inr x \<Longrightarrow> f x = g x) \<Longrightarrow> and_then r f = and_then r' g"
  by (cases r') simp_all

end
