(* ===== verification/Ct.thy ===== *)
theory Ct
  imports Prelude
begin

unbundle bit_operations_syntax

text \<open>
  The constant-time layer, \<open>src/ct/\<close>: the flag type \<open>Choice\<close> and its operators
  (\<open>mod.rs\<close>), branch-free equality (\<open>eq.rs\<close>), ordering (\<open>ord.rs\<close>), selection
  (\<open>select.rs\<close>) and negation (\<open>negate.rs\<close>), and the presence-flag option
  \<open>CtOption\<close>.  The integer implementations are macros over all widths and are modelled
  once, at an arbitrary word length.  \<open>core::hint::black_box\<close> is the identity; the
  \<open>debug_assert\<close> of \<open>Choice::from\<close> is absent, as in a release build.  The traits
  \<open>ConstantTimeEq\<close>, \<open>ConstantTimeGreater\<close> and \<open>ConditionallySelectable\<close> are
  locales: their provided methods are functions of the required one, proved correct once
  from its contract and instantiated for every implementing type.
\<close>

section \<open>Choice\<close>

datatype choice = Choice (unwrap_u8: u8)

definition choice_from_u8 :: "u8 \<Rightarrow> choice" where
  "choice_from_u8 value = Choice (drop_bit 7 (value OR - value) AND 1)"

definition bool_from_choice :: "choice \<Rightarrow> bool" where
  "bool_from_choice c = (unwrap_u8 c \<noteq> 0)"

definition choice_and :: "choice \<Rightarrow> choice \<Rightarrow> choice" where
  "choice_and a b = Choice (unwrap_u8 a AND unwrap_u8 b)"

definition choice_or :: "choice \<Rightarrow> choice \<Rightarrow> choice" where
  "choice_or a b = Choice (unwrap_u8 a OR unwrap_u8 b)"

definition choice_xor :: "choice \<Rightarrow> choice \<Rightarrow> choice" where
  "choice_xor a b = Choice (unwrap_u8 a XOR unwrap_u8 b)"

definition choice_not :: "choice \<Rightarrow> choice" where
  "choice_not a = Choice (unwrap_u8 a XOR 1)"

definition ct_eq_choice :: "choice \<Rightarrow> choice \<Rightarrow> choice" where
  "ct_eq_choice a b = Choice ((unwrap_u8 a XOR unwrap_u8 b) XOR 1)"

text \<open>The documented range of the flag byte: \<open>0\<close> or \<open>1\<close>.\<close>

definition choice_ok :: "choice \<Rightarrow> bool" where
  "choice_ok c \<longleftrightarrow> unwrap_u8 c = 0 \<or> unwrap_u8 c = 1"

definition choice_of_bool :: "bool \<Rightarrow> choice" where
  "choice_of_bool b = Choice (of_bool b)"

section \<open>Equality\<close>

definition ct_eq_uint :: "'a::len word \<Rightarrow> 'a word \<Rightarrow> choice" where
  "ct_eq_uint self other =
     (let x = self XOR other;
          differ = drop_bit (LENGTH('a) - 1) (x OR - x)
      in choice_from_u8 (((ucast differ :: u8) XOR 1) AND 1))"

definition ct_eq_bool :: "bool \<Rightarrow> bool \<Rightarrow> choice" where
  "ct_eq_bool self other = ct_eq_uint (of_bool self :: u8) (of_bool other)"

definition ct_ne :: "('a \<Rightarrow> 'a \<Rightarrow> choice) \<Rightarrow> 'a \<Rightarrow> 'a \<Rightarrow> choice" where
  "ct_ne ct_eq self other = choice_not (ct_eq self other)"

definition ct_eq_slice :: "('a \<Rightarrow> 'a \<Rightarrow> choice) \<Rightarrow> 'a list \<Rightarrow> 'a list \<Rightarrow> choice" where
  "ct_eq_slice ct_eq self other =
     (if length self \<noteq> length other then choice_from_u8 0
      else foldl (\<lambda>acc (a, b). choice_and acc (ct_eq a b)) (choice_from_u8 1)
             (zip self other))"

section \<open>Ordering\<close>

text \<open>
  The loop \<open>while pow < bits { x |= x >> pow; pow <<= 1 }\<close>; it is entered with
  \<open>pow = 1\<close>, and the guard \<open>0 < pow\<close> only makes the recursion total.
\<close>

function smear :: "nat \<Rightarrow> 'a::len word \<Rightarrow> 'a word" where
  "smear pow x =
     (if 0 < pow \<and> pow < LENGTH('a) then smear (2 * pow) (x OR drop_bit pow x) else x)"
  by pat_completeness auto
termination
  by (relation "measure (\<lambda>(pow, x :: 'a word). LENGTH('a) - pow)") auto

declare smear.simps [simp del]

definition ct_gt_uint :: "'a::len word \<Rightarrow> 'a word \<Rightarrow> choice" where
  "ct_gt_uint self other =
     (let gtb = self AND NOT other;
          ltb = smear 1 (NOT self AND other);
          b = smear 1 (gtb AND NOT ltb)
      in choice_from_u8 (ucast (b AND 1)))"

definition ct_lt :: "('a \<Rightarrow> 'a \<Rightarrow> choice) \<Rightarrow> 'a \<Rightarrow> 'a \<Rightarrow> choice" where
  "ct_lt ct_gt self other = ct_gt other self"

section \<open>Selection and negation\<close>

definition conditional_select_uint :: "'a::len word \<Rightarrow> 'a word \<Rightarrow> choice \<Rightarrow> 'a word" where
  "conditional_select_uint a b c =
     (let mask = - (ucast (unwrap_u8 c) :: 'a word) in b XOR (mask AND (a XOR b)))"

definition conditional_select_choice :: "choice \<Rightarrow> choice \<Rightarrow> choice \<Rightarrow> choice" where
  "conditional_select_choice a b c =
     Choice (conditional_select_uint (unwrap_u8 a) (unwrap_u8 b) c)"

definition conditional_select_array ::
    "('a \<Rightarrow> 'a \<Rightarrow> choice \<Rightarrow> 'a) \<Rightarrow> 'a list \<Rightarrow> 'a list \<Rightarrow> choice \<Rightarrow> 'a list" where
  "conditional_select_array sel a b c = map (\<lambda>i. sel (a ! i) (b ! i) c) [0..<length a]"

definition conditional_select_b_if_true ::
    "('a \<Rightarrow> 'a \<Rightarrow> choice \<Rightarrow> 'a) \<Rightarrow> 'a \<Rightarrow> 'a \<Rightarrow> choice \<Rightarrow> 'a" where
  "conditional_select_b_if_true sel a b c = sel b a c"

definition conditional_assign :: "('a \<Rightarrow> 'a \<Rightarrow> choice \<Rightarrow> 'a) \<Rightarrow> 'a \<Rightarrow> 'a \<Rightarrow> choice \<Rightarrow> 'a" where
  "conditional_assign sel self other c = sel other self c"

definition conditional_swap ::
    "('a \<Rightarrow> 'a \<Rightarrow> choice \<Rightarrow> 'a) \<Rightarrow> 'a \<Rightarrow> 'a \<Rightarrow> choice \<Rightarrow> 'a \<times> 'a" where
  "conditional_swap sel a b c =
     (let t = a;
          a' = conditional_assign sel a b c;
          b' = conditional_assign sel b t c
      in (a', b'))"

text \<open>Signed integers select and negate on their two's-complement bit pattern.\<close>

definition conditional_negate_int :: "'a::len word \<Rightarrow> choice \<Rightarrow> 'a word" where
  "conditional_negate_int self c =
     (let negated = - self in conditional_assign conditional_select_uint self negated c)"

definition limb_mask :: "choice \<Rightarrow> u64" where
  "limb_mask c = - ucast (unwrap_u8 c)"

definition select_limbs_into :: "u64 list \<Rightarrow> u64 list \<Rightarrow> choice \<Rightarrow> u64 list \<Rightarrow> u64 list" where
  "select_limbs_into a b c out =
     (let mask = limb_mask c;
          n = min (length out) (min (length a) (length b))
      in map (\<lambda>i. b ! i XOR (mask AND (a ! i XOR b ! i))) [0..<n] @ drop n out)"

definition assign_limbs :: "u64 list \<Rightarrow> u64 list \<Rightarrow> choice \<Rightarrow> u64 list" where
  "assign_limbs dst src c =
     (let mask = limb_mask c;
          n = min (length dst) (length src)
      in map (\<lambda>i. dst ! i XOR (mask AND (dst ! i XOR src ! i))) [0..<n] @ drop n dst)"

section \<open>CtOption\<close>

record 'a ct_option =
  ct_value :: 'a
  is_some :: choice

definition ct_option_new :: "'a \<Rightarrow> choice \<Rightarrow> 'a ct_option" where
  "ct_option_new v c = \<lparr>ct_value = v, is_some = c\<rparr>"

definition ct_is_none :: "'a ct_option \<Rightarrow> choice" where
  "ct_is_none self = choice_not (is_some self)"

definition ct_map :: "'a ct_option \<Rightarrow> ('a \<Rightarrow> 'b) \<Rightarrow> 'b ct_option" where
  "ct_map self f = ct_option_new (f (ct_value self)) (is_some self)"

definition ct_and_then :: "'a ct_option \<Rightarrow> ('a \<Rightarrow> 'b ct_option) \<Rightarrow> 'b ct_option" where
  "ct_and_then self f =
     (let inner = f (ct_value self)
      in ct_option_new (ct_value inner) (choice_and (is_some self) (is_some inner)))"

text \<open>\<open>None\<close> is the panic of \<open>CtOption::unwrap\<close> and \<open>CtOption::expect\<close>.\<close>

definition ct_unwrap :: "'a ct_option \<Rightarrow> 'a option" where
  "ct_unwrap self = (if unwrap_u8 (is_some self) = 1 then Some (ct_value self) else None)"

definition ct_into_option :: "'a ct_option \<Rightarrow> 'a option" where
  "ct_into_option self = (if bool_from_choice (is_some self) then Some (ct_value self) else None)"

definition ct_unwrap_or ::
    "('a \<Rightarrow> 'a \<Rightarrow> choice \<Rightarrow> 'a) \<Rightarrow> 'a ct_option \<Rightarrow> 'a \<Rightarrow> 'a" where
  "ct_unwrap_or sel self d = sel (ct_value self) d (is_some self)"

definition ct_or_else ::
    "('a \<Rightarrow> 'a \<Rightarrow> choice \<Rightarrow> 'a) \<Rightarrow> 'a ct_option \<Rightarrow> 'a ct_option \<Rightarrow> 'a ct_option" where
  "ct_or_else sel self alt =
     ct_option_new (sel (ct_value self) (ct_value alt) (is_some self))
       (choice_or (is_some self) (is_some alt))"

section \<open>Flags behave as booleans\<close>

named_theorems choice_simps \<open>operators on choices that come from booleans\<close>

lemma choice_from_u8_eq: "choice_from_u8 v = choice_of_bool (v \<noteq> 0)"
  using word_or_neg_shift [of v] by (simp add: choice_from_u8_def choice_of_bool_def)

lemma choice_from_bool_byte [choice_simps]: "choice_from_u8 (of_bool b) = choice_of_bool b"
  by (simp add: choice_from_u8_eq)

lemma unwrap_choice_of_bool [choice_simps]: "unwrap_u8 (choice_of_bool b) = of_bool b"
  by (simp add: choice_of_bool_def)

lemma bool_from_choice_of_bool [choice_simps]: "bool_from_choice (choice_of_bool b) = b"
  by (simp add: bool_from_choice_def choice_of_bool_def)

lemma choice_and_of_bool [choice_simps]:
  "choice_and (choice_of_bool a) (choice_of_bool b) = choice_of_bool (a \<and> b)"
  by (simp add: choice_and_def choice_of_bool_def)

lemma choice_or_of_bool [choice_simps]:
  "choice_or (choice_of_bool a) (choice_of_bool b) = choice_of_bool (a \<or> b)"
  by (simp add: choice_or_def choice_of_bool_def)

lemma choice_xor_of_bool [choice_simps]:
  "choice_xor (choice_of_bool a) (choice_of_bool b) = choice_of_bool (a \<noteq> b)"
  by (simp add: choice_xor_def choice_of_bool_def)

lemma choice_not_of_bool [choice_simps]:
  "choice_not (choice_of_bool a) = choice_of_bool (\<not> a)"
  by (simp add: choice_not_def choice_of_bool_def)

lemma choice_ok_of_bool [choice_simps]: "choice_ok (choice_of_bool b)"
  by (simp add: choice_ok_def choice_of_bool_def)

lemma choice_of_bool_inject [choice_simps]: "choice_of_bool a = choice_of_bool b \<longleftrightarrow> a = b"
  by (simp add: choice_of_bool_def)

lemma choice_okE:
  assumes "choice_ok c"
  obtains b where "c = choice_of_bool b"
  using assms by (metis choice.collapse choice_of_bool_def choice_ok_def of_bool_eq(1) of_bool_eq(2))

section \<open>Equality is correct\<close>

lemma ct_eq_uint_eq: "ct_eq_uint a b = choice_of_bool (a = b)"
proof -
  have "ct_eq_uint a b = choice_from_u8 (((ucast (of_bool (a \<noteq> b) :: 'a word) :: u8) XOR 1) AND 1)"
    by (simp only: ct_eq_uint_def Let_def word_or_neg_shift word_xor_eq_0)
  then show ?thesis
    by (cases "a = b") (simp_all add: choice_from_u8_eq)
qed

text \<open>The contract of \<open>ConstantTimeEq\<close>, for the values of the type that are \<open>valid\<close>.\<close>

locale ct_equality =
  fixes ct_eq :: "'a \<Rightarrow> 'a \<Rightarrow> choice" and valid :: "'a \<Rightarrow> bool"
  assumes ct_eq_iff: "valid a \<Longrightarrow> valid b \<Longrightarrow> ct_eq a b = choice_of_bool (a = b)"
begin

lemma ct_ne_iff: "valid a \<Longrightarrow> valid b \<Longrightarrow> ct_ne ct_eq a b = choice_of_bool (a \<noteq> b)"
  by (simp add: ct_ne_def ct_eq_iff choice_simps)

lemma slice_fold:
  assumes "length xs = length ys" "list_all valid xs" "list_all valid ys"
  shows "foldl (\<lambda>acc (a, b). choice_and acc (ct_eq a b)) (choice_of_bool c) (zip xs ys)
       = choice_of_bool (c \<and> xs = ys)"
  using assms
proof (induction xs ys arbitrary: c rule: list_induct2)
  case (Cons x xs y ys)
  then show ?case
    using Cons.IH [of "c \<and> x = y"] by (simp add: ct_eq_iff choice_simps conj_assoc)
qed simp

lemma ct_eq_slice_iff:
  assumes "list_all valid xs" "list_all valid ys"
  shows "ct_eq_slice ct_eq xs ys = choice_of_bool (xs = ys)"
proof (cases "length xs = length ys")
  case True
  then show ?thesis
    using slice_fold [of xs ys True] assms by (simp add: ct_eq_slice_def choice_from_u8_eq)
next
  case False
  then show ?thesis
    by (cases "xs = ys") (simp_all add: ct_eq_slice_def choice_from_u8_eq)
qed

end

interpretation uint_eq: ct_equality ct_eq_uint "\<lambda>_. True"
  by unfold_locales (rule ct_eq_uint_eq)

interpretation bool_eq: ct_equality ct_eq_bool "\<lambda>_. True"
  by unfold_locales (simp add: ct_eq_bool_def ct_eq_uint_eq)

interpretation choice_eq: ct_equality ct_eq_choice choice_ok
  by unfold_locales (auto elim!: choice_okE simp: ct_eq_choice_def choice_of_bool_def)

section \<open>Ordering is correct\<close>

text \<open>After the step with shift \<open>p\<close>, bit \<open>i\<close> collects the bits \<open>i, \<dots>, i + 2 p - 1\<close>.\<close>

lemma bit_smear:
  fixes x y :: "'a::len word"
  assumes "0 < p" and "\<And>i. bit x i \<longleftrightarrow> (\<exists>j. i \<le> j \<and> j < i + p \<and> bit y j)"
  shows "bit (smear p x) i \<longleftrightarrow> (\<exists>j. i \<le> j \<and> bit y j)"
  using assms
proof (induction p x rule: smear.induct)
  case (1 p x)
  show ?case
  proof (cases "p < LENGTH('a)")
    case True
    have step: "bit (x OR drop_bit p x) i \<longleftrightarrow> (\<exists>j. i \<le> j \<and> j < i + 2 * p \<and> bit y j)" for i
    proof
      assume "bit (x OR drop_bit p x) i"
      then obtain j where "i \<le> j \<and> j < i + p \<or> p + i \<le> j \<and> j < p + i + p" "bit y j"
        by (auto simp: bit_or_iff bit_drop_bit_eq "1.prems"(2))
      then show "\<exists>j. i \<le> j \<and> j < i + 2 * p \<and> bit y j"
        by (intro exI [of _ j]) auto
    next
      assume "\<exists>j. i \<le> j \<and> j < i + 2 * p \<and> bit y j"
      then obtain j where j: "i \<le> j" "j < i + 2 * p" "bit y j" by blast
      show "bit (x OR drop_bit p x) i"
      proof (cases "j < i + p")
        case True
        with j show ?thesis by (auto simp: bit_or_iff "1.prems"(2))
      next
        case False
        with j have "p + i \<le> j" "j < p + i + p" by auto
        with j show ?thesis by (auto simp: bit_or_iff bit_drop_bit_eq "1.prems"(2))
      qed
    qed
    have "bit (smear (2 * p) (x OR drop_bit p x)) i \<longleftrightarrow> (\<exists>j. i \<le> j \<and> bit y j)"
      using True "1.prems"(1) step by (intro "1.IH") auto
    then show ?thesis
      using True "1.prems"(1) by (simp add: smear.simps [of p x])
  next
    case False
    then have "smear p x = x" by (simp add: smear.simps [of p x])
    moreover have "j < i + p" if "bit y j" for j
      using that False bit_imp_le_length [of y j] by simp
    ultimately show ?thesis
      using "1.prems"(2) by auto
  qed
qed

lemma bit_smear_1:
  "bit (smear 1 x) i \<longleftrightarrow> (\<exists>j. i \<le> j \<and> bit (x :: 'a::len word) j)"
  by (rule bit_smear) (auto simp: le_less_Suc_eq)

lemma ct_gt_uint_eq: "ct_gt_uint a b = choice_of_bool (b < (a :: 'a::len word))"
proof -
  let ?ltb = "smear 1 (NOT a AND b)"
  let ?g = "smear 1 ((a AND NOT b) AND NOT ?ltb)"
  have "odd ?g \<longleftrightarrow> (\<exists>i. bit a i \<and> \<not> bit b i \<and> (\<forall>j\<ge>i. bit a j \<or> \<not> bit b j))"
    unfolding bit_0 [symmetric] bit_smear_1 bit_and_iff bit_not_iff
    by (auto simp: bit_smear_1 bit_and_iff bit_not_iff possible_bit_word dest: bit_imp_le_length)
  also have "\<dots> \<longleftrightarrow> b < a"
  proof
    assume "b < a"
    then obtain i where i: "bit b i \<noteq> bit a i" "\<And>j. i < j \<Longrightarrow> bit b j = bit a j"
      by (metis order_less_irrefl word_diff_top)
    with \<open>b < a\<close> word_less_top_bit [of a i b] have "bit a i" "\<not> bit b i"
      by (metis order_less_asym)+
    with i(2) show "\<exists>i. bit a i \<and> \<not> bit b i \<and> (\<forall>j\<ge>i. bit a j \<or> \<not> bit b j)"
      by (metis le_neq_implies_less)
  next
    assume "\<exists>i. bit a i \<and> \<not> bit b i \<and> (\<forall>j\<ge>i. bit a j \<or> \<not> bit b j)"
    then obtain i where i: "bit a i" "\<not> bit b i" "\<forall>j\<ge>i. bit a j \<or> \<not> bit b j" by blast
    then have "a \<noteq> b" by auto
    then obtain k where k: "bit a k \<noteq> bit b k" "\<And>j. k < j \<Longrightarrow> bit a j = bit b j"
      by (metis word_diff_top)
    have "i \<le> k" using i k by (metis not_le)
    with i k have "bit a k" "\<not> bit b k" by blast+
    with k(2) show "b < a" by (intro word_less_top_bit [of b k a]) auto
  qed
  finally have "?g AND 1 = of_bool (b < a)" by (simp add: and_one_eq mod_2_eq_odd)
  then show ?thesis
    by (simp add: ct_gt_uint_def Let_def choice_from_u8_eq)
qed

text \<open>
  The contract of \<open>ConstantTimeGreater\<close>: the order of the values' \<open>key\<close>s, for operands
  of the same shape.
\<close>

locale ct_ordering =
  fixes ct_gt :: "'a \<Rightarrow> 'a \<Rightarrow> choice" and key :: "'a \<Rightarrow> nat" and same :: "'a \<Rightarrow> 'a \<Rightarrow> bool"
  assumes ct_gt_iff: "same a b \<Longrightarrow> ct_gt a b = choice_of_bool (key b < key a)"
begin

lemma ct_lt_iff: "same b a \<Longrightarrow> ct_lt ct_gt a b = choice_of_bool (key a < key b)"
  by (simp add: ct_lt_def ct_gt_iff)

end

interpretation uint_ord: ct_ordering ct_gt_uint unat "\<lambda>_ _. True"
  by unfold_locales (simp add: ct_gt_uint_eq word_less_nat_alt)

section \<open>Selection is correct\<close>

lemma word_mask_select:
  "(b :: 'a::len word) XOR (- of_bool c AND (a XOR b)) = (if c then a else b)"
  by (cases c) (simp_all add: xor.left_commute xor.commute [of a])

lemma conditional_select_uint_eq:
  "conditional_select_uint a b (choice_of_bool c) = (if c then a else b)"
  by (cases c) (simp_all add: conditional_select_uint_def choice_simps xor.left_commute xor.commute [of a])

text \<open>The contract of \<open>ConditionallySelectable\<close>, for operands of the same shape.\<close>

locale ct_selection =
  fixes sel :: "'a \<Rightarrow> 'a \<Rightarrow> choice \<Rightarrow> 'a" and same :: "'a \<Rightarrow> 'a \<Rightarrow> bool"
  assumes sel_iff: "same a b \<Longrightarrow> sel a b (choice_of_bool c) = (if c then a else b)"
    and same_sym: "same a b \<Longrightarrow> same b a"
begin

lemma select_b_if_true_iff:
  "same a b \<Longrightarrow> conditional_select_b_if_true sel a b (choice_of_bool c) = (if c then b else a)"
  by (simp add: conditional_select_b_if_true_def sel_iff same_sym)

lemma assign_iff:
  "same a b \<Longrightarrow> conditional_assign sel a b (choice_of_bool c) = (if c then b else a)"
  by (simp add: conditional_assign_def sel_iff same_sym)

lemma swap_iff:
  assumes "same a b"
  shows "conditional_swap sel a b (choice_of_bool c) = (if c then (b, a) else (a, b))"
  using assms by (simp add: conditional_swap_def Let_def assign_iff same_sym)

lemma array_iff:
  assumes "list_all2 same xs ys"
  shows "conditional_select_array sel xs ys (choice_of_bool c) = (if c then xs else ys)"
proof -
  have "same (xs ! i) (ys ! i)" if "i < length xs" for i
    using assms that by (simp add: list_all2_conv_all_nth)
  then show ?thesis
    using assms by (auto simp: conditional_select_array_def sel_iff list_all2_lengthD
        intro!: nth_equalityI)
qed

lemma unwrap_or_iff:
  assumes "same (ct_value x) d" "is_some x = choice_of_bool c"
  shows "ct_unwrap_or sel x d = (case ct_into_option x of Some v \<Rightarrow> v | None \<Rightarrow> d)"
  using assms by (simp add: ct_unwrap_or_def ct_into_option_def sel_iff choice_simps)

lemma or_else_iff:
  assumes "same (ct_value x) (ct_value y)" "is_some x = choice_of_bool c"
    "is_some y = choice_of_bool d"
  shows "ct_into_option (ct_or_else sel x y)
       = (case ct_into_option x of Some v \<Rightarrow> Some v | None \<Rightarrow> ct_into_option y)"
  using assms
  by (simp add: ct_or_else_def ct_into_option_def ct_option_new_def sel_iff choice_simps)

end

interpretation uint_sel: ct_selection conditional_select_uint "\<lambda>_ _. True"
  by unfold_locales (simp_all add: conditional_select_uint_eq)

interpretation choice_sel: ct_selection conditional_select_choice "\<lambda>_ _. True"
  by unfold_locales
    (simp_all add: conditional_select_choice_def conditional_select_uint_eq split: if_splits)

interpretation array_sel:
  ct_selection "conditional_select_array conditional_select_uint" "\<lambda>a b. length a = length b"
  by unfold_locales (simp_all add: uint_sel.array_iff list_all2_conv_all_nth)

lemma limb_mask_of_bool: "limb_mask (choice_of_bool c) = - of_bool c"
  by (cases c) (simp_all add: limb_mask_def choice_simps)

lemma select_limbs_into_eq:
  assumes "length a = length b" "length out = length a"
  shows "select_limbs_into a b (choice_of_bool c) out = (if c then a else b)"
proof (rule nth_equalityI)
  show "length (select_limbs_into a b (choice_of_bool c) out) = length (if c then a else b)"
    using assms by (simp add: select_limbs_into_def Let_def)
  show "select_limbs_into a b (choice_of_bool c) out ! i = (if c then a else b) ! i"
    if "i < length (select_limbs_into a b (choice_of_bool c) out)" for i
    using that assms
    by (simp add: select_limbs_into_def Let_def limb_mask_of_bool word_mask_select nth_append
        del: of_bool_eq_iff)
qed

lemma assign_limbs_eq:
  "assign_limbs dst src (choice_of_bool c)
     = (if c then take (length dst) src @ drop (length src) dst else dst)"
proof (rule nth_equalityI)
  let ?n = "min (length dst) (length src)"
  show len: "length (assign_limbs dst src (choice_of_bool c))
      = length (if c then take (length dst) src @ drop (length src) dst else dst)"
    by (simp add: assign_limbs_def Let_def min_def)
  show "assign_limbs dst src (choice_of_bool c) ! i
      = (if c then take (length dst) src @ drop (length src) dst else dst) ! i"
    if "i < length (assign_limbs dst src (choice_of_bool c))" for i
  proof -
    have "x XOR (- of_bool c AND (x XOR y)) = (if c then y else x)" for x y :: u64
      using word_mask_select [of x c y] by (simp add: xor.commute)
    then show ?thesis
      using that by (auto simp: assign_limbs_def Let_def limb_mask_of_bool nth_append min_def)
  qed
qed

section \<open>The contract of the module\<close>

text \<open>
  C24.  Comparing two slices of unsigned integers in constant time gives the flag \<open>1\<close> exactly when they are
  equal as lists, length included, at every integer width.
\<close>

theorem ct_eq_slice_words: "ct_eq_slice ct_eq_uint (xs :: 'a::len word list) ys = choice_of_bool (xs = ys)"
  by (rule uint_eq.ct_eq_slice_iff) (simp_all add: list_all_iff)

text \<open>
  C23.  The branch-free comparison of \<open>ConstantTimeGreater\<close> is the unsigned order at every width, and
  \<open>ct_lt\<close>, derived from it, is its converse: the flag byte is \<open>1\<close> exactly when the order holds.
\<close>

theorem ct_gt_lt_words:
  "ct_gt_uint a b = choice_of_bool (b < (a :: 'a::len word))
   \<and> ct_lt ct_gt_uint a b = choice_of_bool (a < b)"
  by (simp add: ct_gt_uint_eq ct_lt_def)

text \<open>
  C25.  \<open>CtOption\<close> refines \<open>Option\<close>: with flags that are \<open>0\<close> or \<open>1\<close>, converting the result of \<open>map\<close>,
  \<open>and_then\<close> and \<open>or_else\<close> gives what the operations of \<open>Option\<close> give on the converted arguments, and
  \<open>unwrap\<close> panics exactly where \<open>Option\<close> is empty.
\<close>

theorem ct_option_refines_option:
  assumes "choice_ok (is_some x)" and "choice_ok (is_some y)" and "choice_ok (is_some (f (ct_value x)))"
  shows "ct_into_option (ct_map x g) = map_option g (ct_into_option x)
    \<and> ct_into_option (ct_and_then x f)
        = Option.bind (ct_into_option x) (\<lambda>v. ct_into_option (f v))
    \<and> ct_into_option (ct_or_else conditional_select_uint x y)
        = (case ct_into_option x of Some v \<Rightarrow> Some v | None \<Rightarrow> ct_into_option y)
    \<and> ct_unwrap x = ct_into_option x"
proof -
  obtain a b c where f: "is_some x = choice_of_bool a" "is_some y = choice_of_bool b"
      "is_some (f (ct_value x)) = choice_of_bool c"
    using assms by (elim choice_okE)
  show ?thesis
    using uint_sel.or_else_iff [OF _ f(1,2)] f
    by (auto simp: ct_map_def ct_and_then_def ct_into_option_def ct_option_new_def ct_unwrap_def
        choice_simps)
qed

theorem ct_option_refines_option_witness:
  "ct_into_option (ct_and_then (ct_option_new (5 :: u64) (choice_of_bool True))
       (\<lambda>v. ct_option_new (v + 1) (choice_of_bool False))) = None
   \<and> ct_into_option (ct_or_else conditional_select_uint (ct_option_new (5 :: u64) (choice_of_bool False))
       (ct_option_new 9 (choice_of_bool True))) = Some 9"
  using ct_option_refines_option [of "ct_option_new (5 :: u64) (choice_of_bool True)"
      "ct_option_new 9 (choice_of_bool True)" "\<lambda>v. ct_option_new (v + 1) (choice_of_bool False)" id]
    ct_option_refines_option [of "ct_option_new (5 :: u64) (choice_of_bool False)"
      "ct_option_new 9 (choice_of_bool True)" "\<lambda>v. ct_option_new (v + 1) (choice_of_bool False)" id]
  by (simp add: ct_into_option_def ct_option_new_def choice_simps)

end
