(* ===== verification/Uint.thy ===== *)
theory Uint
  imports Ct
begin

unbundle bit_operations_syntax

text \<open>
  Fixed-width big integers, \<open>src/bignum/uint.rs\<close> and \<open>src/bignum/mul.rs\<close>.
  \<open>Uint<LIMBS>\<close> is a transparent wrapper of \<open>[u64; LIMBS]\<close>, least significant limb
  first, and is modelled as a list of 64-bit words whose length is the const parameter;
  operations on two values take lists of the same length.  \<open>wval\<close> (theory
  \<open>Prelude\<close>) is the abstraction to natural numbers, and the lemmas show that every
  operation refines the arithmetic one.  Loops over limbs are structural recursions,
  loops that index several arrays keep the source's index.
\<close>

type_synonym uint = "u64 list"

section \<open>Limb arithmetic\<close>

definition adc :: "u64 \<Rightarrow> u64 \<Rightarrow> u64 \<Rightarrow> u64 \<times> u64" where
  "adc a b carry =
     (let ret = (ucast a :: u128) + ucast b + ucast carry
      in (ucast ret, ucast (drop_bit 64 ret)))"

definition sbb :: "u64 \<Rightarrow> u64 \<Rightarrow> u64 \<Rightarrow> u64 \<times> u64" where
  "sbb a b borrow =
     (let ret = (ucast a :: u128) - (ucast b + ucast borrow)
      in (ucast ret, ucast (drop_bit 64 ret) AND 1))"

definition mac :: "u64 \<Rightarrow> u64 \<Rightarrow> u64 \<Rightarrow> u64 \<Rightarrow> u64 \<times> u64" where
  "mac a b c carry =
     (let ret = (ucast a :: u128) + ucast b * ucast c + ucast carry
      in (ucast ret, ucast (drop_bit 64 ret)))"

definition leading_zeros :: "'a::len word \<Rightarrow> nat" where
  "leading_zeros w = length (takeWhile (\<lambda>i. \<not> bit w i) (rev [0..<LENGTH('a)]))"

section \<open>Construction and byte conversions\<close>

definition uint_zero :: "nat \<Rightarrow> uint" where
  "uint_zero n = replicate n 0"

definition uint_from_u64 :: "nat \<Rightarrow> u64 \<Rightarrow> uint" where
  "uint_from_u64 n v = (replicate n 0)[0 := v]"

definition uint_one :: "nat \<Rightarrow> uint" where
  "uint_one n = uint_from_u64 n 1"

text \<open>\<open>None\<close> is the failed assertion on the input length.\<close>

definition uint_from_be_bytes :: "nat \<Rightarrow> bytes \<Rightarrow> uint option" where
  "uint_from_be_bytes n bs =
     (if length bs \<le> n * 8
      then Some (foldl (\<lambda>limbs j. limbs[j div 8 :=
               limbs ! (j div 8) OR push_bit (8 * (j mod 8)) (ucast (bs ! (length bs - 1 - j)))])
             (replicate n 0) [0..<length bs])
      else None)"

definition uint_write_be_bytes :: "uint \<Rightarrow> nat \<Rightarrow> bytes option" where
  "uint_write_be_bytes self out_len =
     (if out_len = length self * 8
      then Some (concat (map (\<lambda>i. to_be_bytes (self ! (length self - 1 - i))) [0..<length self]))
      else None)"

fun le_chunks :: "bytes \<Rightarrow> uint" where
  "le_chunks [] = []"
| "le_chunks bs = from_le_bytes (take 8 bs @ replicate (8 - length bs) 0) # le_chunks (drop 8 bs)"

definition uint_from_le_bytes :: "nat \<Rightarrow> bytes \<Rightarrow> uint option" where
  "uint_from_le_bytes n bs =
     (if length bs \<le> n * 8
      then Some (le_chunks bs @ replicate (n - length (le_chunks bs)) 0)
      else None)"

definition uint_write_le_bytes :: "uint \<Rightarrow> nat \<Rightarrow> bytes option" where
  "uint_write_le_bytes self out_len =
     (if out_len = length self * 8 then Some (concat (map to_le_bytes self)) else None)"

section \<open>Addition, subtraction, comparison\<close>

fun uint_adc :: "uint \<Rightarrow> uint \<Rightarrow> u64 \<Rightarrow> uint \<times> u64" where
  "uint_adc (a # self) (b # rhs) c =
     (let (s, co) = adc a b c; (limbs, c') = uint_adc self rhs co in (s # limbs, c'))"
| "uint_adc _ _ c = ([], c)"

fun uint_sbb :: "uint \<Rightarrow> uint \<Rightarrow> u64 \<Rightarrow> uint \<times> u64" where
  "uint_sbb (a # self) (b # rhs) br =
     (let (d, bo) = sbb a b br; (limbs, br') = uint_sbb self rhs bo in (d # limbs, br'))"
| "uint_sbb _ _ br = ([], br)"

definition uint_wrapping_add :: "uint \<Rightarrow> uint \<Rightarrow> uint" where
  "uint_wrapping_add self rhs = fst (uint_adc self rhs 0)"

definition uint_wrapping_sub :: "uint \<Rightarrow> uint \<Rightarrow> uint" where
  "uint_wrapping_sub self rhs = fst (uint_sbb self rhs 0)"

definition uint_ct_eq :: "uint \<Rightarrow> uint \<Rightarrow> choice" where
  "uint_ct_eq self other = ct_eq_slice ct_eq_uint self other"

definition uint_ct_gt :: "uint \<Rightarrow> uint \<Rightarrow> choice" where
  "uint_ct_gt self other = choice_from_u8 (ucast (snd (uint_sbb other self 0)))"

definition uint_conditional_select :: "uint \<Rightarrow> uint \<Rightarrow> choice \<Rightarrow> uint" where
  "uint_conditional_select a b c =
     (let mask = limb_mask c in map2 (\<lambda>x y. y XOR (mask AND (x XOR y))) a b)"

definition uint_is_zero :: "uint \<Rightarrow> choice" where
  "uint_is_zero self = uint_ct_eq self (uint_zero (length self))"

definition uint_is_odd :: "uint \<Rightarrow> choice" where
  "uint_is_odd self = choice_from_u8 (ucast (self ! 0 AND 1))"

section \<open>Shifts and bit length\<close>

fun bit_len_loop :: "uint \<Rightarrow> nat \<Rightarrow> nat" where
  "bit_len_loop limbs 0 = 0"
| "bit_len_loop limbs (Suc i) =
     (if limbs ! i \<noteq> 0 then i * 64 + (64 - leading_zeros (limbs ! i)) else bit_len_loop limbs i)"

definition uint_bit_len :: "uint \<Rightarrow> nat" where
  "uint_bit_len self = bit_len_loop self (length self)"

definition uint_shr_bits :: "uint \<Rightarrow> nat \<Rightarrow> uint" where
  "uint_shr_bits self shift =
     (let limb_shift = shift div 64; bit_shift = shift mod 64
      in map (\<lambda>i. let src = i + limb_shift in
             if src < length self then
               (let v = drop_bit bit_shift (self ! src) in
                if bit_shift > 0 \<and> src + 1 < length self
                then v OR push_bit (64 - bit_shift) (self ! (src + 1)) else v)
             else 0) [0..<length self])"

text \<open>The loop of \<open>shr1\<close> runs from the top limb down: here the carry into a limb is the low
  bit of the limb above it.\<close>

fun shr1_limbs :: "uint \<Rightarrow> uint \<times> u64" where
  "shr1_limbs [] = ([], 0)"
| "shr1_limbs (x # xs) =
     (let (ys, carry) = shr1_limbs xs
      in (drop_bit 1 x OR push_bit 63 carry) # ys, x AND 1)"

definition uint_shr1 :: "uint \<Rightarrow> uint" where
  "uint_shr1 self = fst (shr1_limbs self)"

section \<open>Bit-serial division\<close>

text \<open>One iteration of the inner loop of \<open>reduce\<close>: shift in one bit of the dividend and
  subtract the modulus if it fits.\<close>

definition reduce_step :: "uint \<Rightarrow> u64 \<Rightarrow> uint \<Rightarrow> uint \<times> choice" where
  "reduce_step modulus b r =
     (let (shifted, carry) = uint_adc r r 0;
          shifted = shifted[0 := shifted ! 0 OR b];
          (diff, borrow) = uint_sbb shifted modulus 0;
          ge = choice_from_u8 (ucast (carry OR (borrow XOR 1)))
      in (uint_conditional_select diff shifted ge, ge))"

fun reduce_bits :: "uint \<Rightarrow> u64 \<Rightarrow> nat \<Rightarrow> uint \<Rightarrow> uint" where
  "reduce_bits modulus limb 0 r = r"
| "reduce_bits modulus limb (Suc b) r =
     reduce_bits modulus limb b (fst (reduce_step modulus (drop_bit b limb AND 1) r))"

fun reduce_limbs :: "uint \<Rightarrow> uint \<Rightarrow> nat \<Rightarrow> uint \<Rightarrow> uint" where
  "reduce_limbs modulus limbs 0 r = r"
| "reduce_limbs modulus limbs (Suc i) r =
     reduce_limbs modulus limbs i (reduce_bits modulus (limbs ! i) 64 r)"

text \<open>\<open>None\<close> is the panic on a zero modulus.\<close>

definition uint_reduce :: "uint \<Rightarrow> uint \<Rightarrow> uint option" where
  "uint_reduce self modulus =
     (if bool_from_choice (uint_is_zero modulus) then None
      else Some (reduce_limbs modulus self (length self) (uint_zero (length self))))"

fun divrem_bits :: "uint \<Rightarrow> u64 \<Rightarrow> nat \<Rightarrow> uint \<times> uint \<Rightarrow> uint \<times> uint" where
  "divrem_bits divisor limb 0 qr = qr"
| "divrem_bits divisor limb (Suc b) (q, r) =
     (let (r', ge) = reduce_step divisor (drop_bit b limb AND 1) r;
          (q_shifted, _) = uint_adc q q 0;
          q' = q_shifted[0 := q_shifted ! 0 OR ucast (unwrap_u8 ge)]
      in divrem_bits divisor limb b (q', r'))"

fun divrem_limbs :: "uint \<Rightarrow> uint \<Rightarrow> nat \<Rightarrow> uint \<times> uint \<Rightarrow> uint \<times> uint" where
  "divrem_limbs divisor limbs 0 qr = qr"
| "divrem_limbs divisor limbs (Suc i) qr =
     divrem_limbs divisor limbs i (divrem_bits divisor (limbs ! i) 64 qr)"

definition uint_divrem :: "uint \<Rightarrow> uint \<Rightarrow> (uint \<times> uint) option" where
  "uint_divrem self divisor =
     (if bool_from_choice (uint_is_zero divisor) then None
      else Some (divrem_limbs divisor self (length self)
        (uint_zero (length self), uint_zero (length self))))"

section \<open>Multiplication\<close>

text \<open>The inner loop of \<open>mul_wide\<close> over column \<open>j\<close> of row \<open>i\<close>; the product array is
  split into \<open>lo\<close> and \<open>hi\<close>.\<close>

function mul_row :: "u64 \<Rightarrow> uint \<Rightarrow> nat \<Rightarrow> nat \<Rightarrow> uint \<times> uint \<Rightarrow> u64 \<Rightarrow> (uint \<times> uint) \<times> u64" where
  "mul_row ai b i j (lo, hi) carry =
     (if j < length b then
        (let p = i + j in
         if p < length b then
           (let (v, c) = mac (lo ! p) ai (b ! j) carry
            in mul_row ai b i (j + 1) (lo[p := v], hi) c)
         else
           (let idx = p - length b; (v, c) = mac (hi ! idx) ai (b ! j) carry
            in mul_row ai b i (j + 1) (lo, hi[idx := v]) c))
      else ((lo, hi), carry))"
  by pat_completeness auto
termination
  by (relation "measure (\<lambda>(ai, b, i, j, lh, c). length b - j)") auto

declare mul_row.simps [simp del]

function mul_rows :: "uint \<Rightarrow> uint \<Rightarrow> nat \<Rightarrow> uint \<times> uint \<Rightarrow> uint \<times> uint" where
  "mul_rows a b i acc =
     (if i < length a then
        (let ((lo, hi), carry) = mul_row (a ! i) b i 0 acc 0
         in mul_rows a b (i + 1) (lo, hi[i := carry]))
      else acc)"
  by pat_completeness auto
termination
  by (relation "measure (\<lambda>(a, b, i, acc). length a - i)") auto

declare mul_rows.simps [simp del]

definition uint_mul_wide :: "uint \<Rightarrow> uint \<Rightarrow> uint \<times> uint" where
  "uint_mul_wide self rhs =
     mul_rows self rhs 0 (uint_zero (length self), uint_zero (length self))"

definition uint_wrapping_mul :: "uint \<Rightarrow> uint \<Rightarrow> uint" where
  "uint_wrapping_mul self rhs = fst (uint_mul_wide self rhs)"

definition uint_square_wide :: "uint \<Rightarrow> uint \<times> uint" where
  "uint_square_wide self = uint_mul_wide self self"

section \<open>Limb arithmetic is exact\<close>

text \<open>The base of the limb representation, kept folded so that arithmetic stays symbolic.\<close>

definition \<beta> :: nat where
  "\<beta> = 2 ^ 64"

lemma unat_ucast_u128 [simp]: "unat (ucast (x :: u64) :: u128) = unat x"
  using unat_lt [of x] by (simp add: unat_ucast)

text \<open>A double-width value is the sum of its two halves.\<close>

lemma u128_split:
  "unat (ucast (r :: u128) :: u64) + 2 ^ 64 * unat (ucast (drop_bit 64 r) :: u64) = unat r"
proof -
  have lt: "unat r < 2 ^ 128" using unat_lt [of r] by simp
  have "unat (ucast (drop_bit 64 r) :: u64) = unat r div 2 ^ 64 mod 2 ^ 64"
    by (simp add: unat_ucast unat_drop_bit)
  also have "\<dots> = unat r div 2 ^ 64"
    using lt by (simp add: less_mult_imp_div_less)
  finally have "unat (ucast (drop_bit 64 r) :: u64) = unat r div 2 ^ 64" .
  moreover have "unat (ucast r :: u64) = unat r mod 2 ^ 64"
    by (simp add: unat_ucast)
  ultimately show ?thesis
    by (simp add: mod_mult_div_eq)
qed

lemma u64_lt: "unat (x :: u64) < 18446744073709551616"
  using unat_lt [of x] by simp

lemma adc_exact:
  "adc a b c = (s, co) \<Longrightarrow> unat s + 2 ^ 64 * unat co = unat a + unat b + unat c"
proof -
  assume h: "adc a b c = (s, co)"
  have "unat ((ucast a :: u128) + ucast b + ucast c) = unat a + unat b + unat c"
    using u64_lt [of a] u64_lt [of b] u64_lt [of c] by (simp add: unat_word_ariths)
  with h u128_split [of "(ucast a :: u128) + ucast b + ucast c"] show ?thesis
    by (simp add: adc_def Let_def)
qed

lemma mac_exact:
  "mac a b c k = (s, co) \<Longrightarrow> unat s + 2 ^ 64 * unat co = unat a + unat b * unat c + unat k"
proof -
  assume h: "mac a b c k = (s, co)"
  have "unat b * unat c \<le> 18446744073709551615 * 18446744073709551615"
    using u64_lt [of b] u64_lt [of c] by (intro mult_le_mono) simp_all
  then have "unat a + unat b * unat c + unat k < 2 ^ 128"
    using u64_lt [of a] u64_lt [of k] by simp
  then have "unat ((ucast a :: u128) + ucast b * ucast c + ucast k) = unat a + unat b * unat c + unat k"
    by (simp add: unat_word_ariths mod_add_left_eq mod_simps)
  with h u128_split [of "(ucast a :: u128) + ucast b * ucast c + ucast k"] show ?thesis
    by (simp add: mac_def Let_def)
qed

lemma sbb_exact:
  assumes "sbb a b br = (d, bo)" and "br \<le> 1"
  shows "unat d + unat b + unat br = unat a + 2 ^ 64 * unat bo \<and> unat bo \<le> 1"
proof -
  let ?y = "(ucast b :: u128) + ucast br"
  let ?r = "(ucast a :: u128) - ?y"
  have br: "unat br \<le> 1" using assms(2) by (simp add: word_le_nat_alt)
  have y: "unat ?y = unat b + unat br"
    using br u64_lt [of b] by (simp add: unat_word_ariths)
  have d: "unat d = unat ?r mod 2 ^ 64" and bo: "unat bo = unat ?r div 2 ^ 64 mod 2"
    using assms(1) by (auto simp: sbb_def Let_def unat_ucast unat_drop_bit unat_and_1 mod_mod_cancel)
  show ?thesis
  proof (cases "?y \<le> ucast a")
    case True
    then have "unat ?r = unat a - (unat b + unat br)" "unat b + unat br \<le> unat a"
      using y by (simp_all add: unat_sub word_le_nat_alt)
    then show ?thesis
      using d bo u64_lt [of a] by simp
  next
    case False
    then have le: "ucast a \<le> ?y" and lt: "unat a < unat b + unat br"
      using y by (simp_all add: word_le_nat_alt word_less_nat_alt)
    have "unat (?y - ucast a) = unat b + unat br - unat a"
      using y le by (simp only: unat_sub unat_ucast_u128)
    moreover have "unat (- (?y - ucast a)) = 2 ^ 128 - unat (?y - ucast a)"
      using False by (subst unat_neg) auto
    ultimately have r: "unat ?r = 2 ^ 128 - (unat b + unat br - unat a)"
      by simp
    let ?e = "unat b + unat br - unat a"
    have e: "0 < ?e" "?e \<le> 2 ^ 64"
      using lt br u64_lt [of b] by simp_all
    have q: "unat ?r = (2 ^ 64 - ?e) + 2 ^ 64 * (2 ^ 64 - 1)"
      using r e by simp
    have "unat ?r mod 2 ^ 64 = 2 ^ 64 - ?e" "unat ?r div 2 ^ 64 = 2 ^ 64 - 1"
      unfolding q using e by (simp_all only: mod_mult_self2 div_mult_self2) simp_all
    then show ?thesis
      using d bo e lt by simp
  qed
qed

declare wval.simps(2) [simp del]

lemma beta_pos [simp]: "0 < \<beta>"
  by (simp add: \<beta>_def)

lemma beta_gt_1 [simp]: "1 < \<beta>" "Suc 0 < \<beta>"
  by (simp_all add: \<beta>_def)

lemma beta_pow: "\<beta> ^ n = 2 ^ (64 * n)"
  by (simp add: \<beta>_def power_mult)

lemma limb_lt: "unat (x :: u64) < \<beta>"
  using unat_lt [of x] by (simp add: \<beta>_def)

lemma lval_Cons [simp]: "wval (x # xs) = unat (x :: u64) + \<beta> * wval xs"
  by (simp add: wval.simps(2) \<beta>_def)

lemma lval_append: "wval (xs @ ys) = wval xs + \<beta> ^ length xs * wval (ys :: u64 list)"
  by (simp add: wval_append beta_pow)

lemma lval_lt: "wval (xs :: u64 list) < \<beta> ^ length xs"
  using wval_lt [of xs] by (simp add: beta_pow)

lemma lval_list_update:
  assumes "i < length xs"
  shows "wval (xs[i := v]) + \<beta> ^ i * unat (xs ! i) = wval xs + \<beta> ^ i * unat (v :: u64)"
  using wval_list_update [OF assms, of v] by (simp add: beta_pow)

lemma lval_nth:
  assumes "i < length xs"
  shows "unat (xs ! i :: u64) = wval xs div \<beta> ^ i mod \<beta>"
proof -
  have "wval xs = wval (take i xs) + \<beta> ^ i * (unat (xs ! i) + \<beta> * wval (drop (Suc i) xs))"
    using lval_append [of "take i xs" "xs ! i # drop (Suc i) xs"] assms
    by (simp flip: id_take_nth_drop)
  moreover have "wval (take i xs) < \<beta> ^ i"
    using lval_lt [of "take i xs"] assms by simp
  ultimately have "wval xs div \<beta> ^ i = unat (xs ! i) + \<beta> * wval (drop (Suc i) xs)"
    by simp
  then show ?thesis
    using limb_lt [of "xs ! i"] by simp
qed

lemma adc_beta: "adc a b c = (s, co) \<Longrightarrow> unat s + \<beta> * unat co = unat a + unat b + unat c"
  using adc_exact [of a b c s co] by (simp add: \<beta>_def)

lemma mac_beta: "mac a b c k = (s, co) \<Longrightarrow> unat s + \<beta> * unat co = unat a + unat b * unat c + unat k"
  using mac_exact [of a b c k s co] by (simp add: \<beta>_def)

lemma sbb_beta:
  "sbb a b br = (d, bo) \<Longrightarrow> br \<le> 1 \<Longrightarrow> unat d + unat b + unat br = unat a + \<beta> * unat bo \<and> unat bo \<le> 1"
  using sbb_exact [of a b br d bo] by (simp add: \<beta>_def)

lemma limb_le_1_iff: "(x :: u64) \<le> 1 \<longleftrightarrow> unat x \<le> 1"
  by (simp add: word_le_nat_alt)

lemma limb_bit_cases:
  assumes "unat (x :: u64) \<le> 1"
  shows "x = of_bool (unat x = 1)"
  using assms by (auto simp: word_unat_eq_iff le_Suc_eq)

section \<open>Addition and subtraction refine arithmetic on values\<close>

lemma uint_adc_exact:
  assumes "uint_adc xs ys c = (r, co)" and "length xs = length ys"
  shows "wval r + \<beta> ^ length xs * unat co = wval xs + wval ys + unat c \<and> length r = length xs"
  using assms(2,1)
proof (induction xs ys arbitrary: c r co rule: list_induct2)
  case (Cons x xs y ys)
  obtain s c1 where s: "adc x y c = (s, c1)" by fastforce
  obtain r' c2 where r': "uint_adc xs ys c1 = (r', c2)" by fastforce
  have r: "r = s # r'" "co = c2" using Cons.prems s r' by simp_all
  have "wval r + \<beta> ^ Suc (length xs) * unat co
      = unat s + \<beta> * (wval r' + \<beta> ^ length xs * unat c2)"
    by (simp add: r algebra_simps)
  also have "\<dots> = unat s + \<beta> * unat c1 + \<beta> * wval xs + \<beta> * wval ys"
    using Cons.IH [OF r'] by (simp add: algebra_simps)
  also have "\<dots> = wval (x # xs) + wval (y # ys) + unat c"
    using adc_beta [OF s] by simp
  finally show ?case
    using Cons.IH [OF r'] by (simp add: r)
qed simp

lemma uint_sbb_exact:
  assumes "uint_sbb xs ys b = (r, bo)" and "length xs = length ys" and "b \<le> 1"
  shows "wval r + wval ys + unat b = wval xs + \<beta> ^ length xs * unat bo
       \<and> unat bo \<le> 1 \<and> length r = length xs"
  using assms(2,1,3)
proof (induction xs ys arbitrary: b r bo rule: list_induct2)
  case Nil
  then show ?case by (simp add: limb_le_1_iff)
next
  case (Cons x xs y ys)
  obtain d b1 where d: "sbb x y b = (d, b1)" by fastforce
  obtain r' b2 where r': "uint_sbb xs ys b1 = (r', b2)" by fastforce
  have r: "r = d # r'" "bo = b2" using Cons.prems d r' by simp_all
  have d': "unat d + unat y + unat b = unat x + \<beta> * unat b1" "b1 \<le> 1"
    using sbb_beta [OF d Cons.prems(2)] by (simp_all add: limb_le_1_iff)
  note IH = Cons.IH [OF r' d'(2)]
  have "wval r + wval (y # ys) + unat b = unat d + unat y + unat b + \<beta> * (wval r' + wval ys)"
    by (simp add: r algebra_simps)
  also have "\<dots> = unat x + \<beta> * (wval r' + wval ys + unat b1)"
    using d'(1) by (simp add: algebra_simps)
  also have "\<dots> = wval (x # xs) + \<beta> ^ length (x # xs) * unat bo"
    using IH by (simp add: r algebra_simps)
  finally show ?case
    using IH by (simp add: r)
qed

lemma uint_adc_carry_le:
  assumes "uint_adc xs ys c = (r, co)" "length xs = length ys" "unat c \<le> 1"
  shows "unat co \<le> 1"
proof (rule ccontr)
  assume "\<not> unat co \<le> 1"
  then have "\<beta> ^ length xs * 2 \<le> \<beta> ^ length xs * unat co" by (intro mult_le_mono2) simp
  moreover have "wval xs + wval ys + unat c < \<beta> ^ length xs * 2"
    using lval_lt [of xs] lval_lt [of ys] assms by simp
  ultimately show False
    using uint_adc_exact [OF assms(1,2)] by linarith
qed

text \<open>The borrow out of a subtraction is the comparison of the values.\<close>

lemma uint_sbb_borrow:
  assumes "uint_sbb xs ys 0 = (r, bo)" and "length xs = length ys"
  shows "bo = of_bool (wval xs < wval ys)"
    and "wval r = (if wval xs < wval ys then \<beta> ^ length xs + wval xs - wval ys else wval xs - wval ys)"
    and "length r = length xs"
proof -
  have e: "wval r + wval ys = wval xs + \<beta> ^ length xs * unat bo" "unat bo \<le> 1" "length r = length xs"
    using uint_sbb_exact [OF assms] by simp_all
  have lt: "wval r < \<beta> ^ length xs" "wval ys < \<beta> ^ length xs"
    using lval_lt [of r] lval_lt [of ys] e(3) assms(2) by simp_all
  have "unat bo = of_bool (wval xs < wval ys)"
    using e lt by (cases "unat bo = 0") (auto simp: le_Suc_eq)
  then show "bo = of_bool (wval xs < wval ys)"
    by (simp add: word_unat_eq_iff)
  with e show "wval r = (if wval xs < wval ys then \<beta> ^ length xs + wval xs - wval ys
      else wval xs - wval ys)" "length r = length xs"
    by auto
qed

lemma uint_wrapping_add_val:
  assumes "length xs = length ys"
  shows "wval (uint_wrapping_add xs ys) = (wval xs + wval ys) mod \<beta> ^ length xs"
proof -
  obtain r co where r: "uint_adc xs ys 0 = (r, co)" by fastforce
  have "wval r + \<beta> ^ length xs * unat co = wval xs + wval ys" "length r = length xs"
    using uint_adc_exact [OF r assms] by simp_all
  then have "(wval xs + wval ys) mod \<beta> ^ length xs = wval r mod \<beta> ^ length xs"
    by (metis mod_mult_self2)
  then show ?thesis
    using r lval_lt [of r] \<open>length r = length xs\<close> by (simp add: uint_wrapping_add_def)
qed

lemma length_uint_adc [simp]: "length (fst (uint_adc xs ys c)) = min (length xs) (length ys)"
  by (induction xs ys c rule: uint_adc.induct) (auto split: prod.splits)

lemma length_uint_sbb [simp]: "length (fst (uint_sbb xs ys c)) = min (length xs) (length ys)"
  by (induction xs ys c rule: uint_sbb.induct) (auto split: prod.splits)

lemma length_wrapping [simp]:
  "length (uint_wrapping_add xs ys) = min (length xs) (length ys)"
  "length (uint_wrapping_sub xs ys) = min (length xs) (length ys)"
  by (simp_all add: uint_wrapping_add_def uint_wrapping_sub_def)

lemma uint_wrapping_sub_val:
  assumes "length xs = length ys"
  shows "wval (uint_wrapping_sub xs ys)
       = (if wval xs < wval ys then \<beta> ^ length xs + wval xs - wval ys else wval xs - wval ys)"
  using uint_sbb_borrow(2) [OF _ assms] by (cases "uint_sbb xs ys 0") (simp add: uint_wrapping_sub_def)

section \<open>Flags of big integers\<close>

lemma uint_zero_val [simp]: "wval (uint_zero n) = 0" "length (uint_zero n) = n"
  by (simp_all add: uint_zero_def)

lemma uint_from_u64_val [simp]:
  "0 < n \<Longrightarrow> wval (uint_from_u64 n v) = unat v" "length (uint_from_u64 n v) = n"
  by (cases n; simp add: uint_from_u64_def)+

lemma uint_one_val [simp]: "0 < n \<Longrightarrow> wval (uint_one n) = 1" "length (uint_one n) = n"
  by (simp_all add: uint_one_def)

lemma uint_eq_iff_val: "length xs = length ys \<Longrightarrow> xs = ys \<longleftrightarrow> wval xs = wval (ys :: uint)"
  using wval_inject by blast

lemma uint_ct_eq_eq: "uint_ct_eq xs ys = choice_of_bool (xs = ys)"
  by (simp add: uint_ct_eq_def uint_eq.ct_eq_slice_iff list_all_iff)

lemma uint_is_zero_eq: "uint_is_zero xs = choice_of_bool (wval xs = 0)"
  using uint_eq_iff_val [of xs "uint_zero (length xs)"] by (simp add: uint_is_zero_def uint_ct_eq_eq)

lemma unat_mod_beta: "xs \<noteq> [] \<Longrightarrow> unat (xs ! 0 :: u64) = wval xs mod \<beta>"
  using lval_nth [of 0 xs] by simp

lemma even_beta [simp]: "even \<beta>"
  by (simp add: \<beta>_def)

lemma uint_is_odd_eq: "xs \<noteq> [] \<Longrightarrow> uint_is_odd xs = choice_of_bool (odd (wval xs))"
proof -
  assume "xs \<noteq> []"
  then have "unat (ucast (xs ! 0 AND 1) :: u8) = wval xs mod 2"
    by (simp add: unat_ucast unat_and_1 unat_mod_beta mod_mod_cancel)
  then have "(ucast (xs ! 0 AND 1) :: u8) = of_bool (odd (wval xs))"
    by (simp add: word_unat_eq_iff mod_2_eq_odd)
  then show ?thesis
    by (simp add: uint_is_odd_def choice_from_bool_byte)
qed

lemma ucast_of_bool [simp]: "(ucast (of_bool b :: 'a::len word) :: 'b::len word) = of_bool b"
  by (cases b) simp_all

lemma uint_ct_gt_eq:
  assumes "length xs = length ys"
  shows "uint_ct_gt xs ys = choice_of_bool (wval ys < wval xs)"
proof -
  obtain r bo where r: "uint_sbb ys xs 0 = (r, bo)" by fastforce
  show ?thesis
    using uint_sbb_borrow(1) [OF r] assms
    by (simp add: uint_ct_gt_def r choice_from_bool_byte)
qed

interpretation big_eq: ct_equality uint_ct_eq "\<lambda>_. True"
  by unfold_locales (rule uint_ct_eq_eq)

interpretation big_ord: ct_ordering uint_ct_gt wval "\<lambda>a b. length a = length b"
  by unfold_locales (rule uint_ct_gt_eq)

lemma uint_conditional_select_eq:
  assumes "length a = length b"
  shows "uint_conditional_select a b (choice_of_bool c) = (if c then a else b)"
proof (rule nth_equalityI)
  show "length (uint_conditional_select a b (choice_of_bool c)) = length (if c then a else b)"
    using assms by (simp add: uint_conditional_select_def Let_def)
  show "uint_conditional_select a b (choice_of_bool c) ! i = (if c then a else b) ! i"
    if "i < length (uint_conditional_select a b (choice_of_bool c))" for i
    using that assms
    by (simp add: uint_conditional_select_def Let_def limb_mask_of_bool word_mask_select)
qed

interpretation big_sel: ct_selection uint_conditional_select "\<lambda>a b. length a = length b"
  by unfold_locales (simp_all add: uint_conditional_select_eq)

section \<open>Bit-serial division\<close>

lemma uint_or_low_bit:
  assumes "xs \<noteq> []" and "even (wval xs)" and "unat b \<le> 1"
  shows "wval (xs[0 := xs ! 0 OR b]) = wval xs + unat (b :: u64)"
proof -
  have "even (unat (xs ! 0))"
    using assms(1,2) by (simp add: unat_mod_beta dvd_mod_iff)
  then have "unat (xs ! 0 OR b) = unat (xs ! 0) + unat b"
    using assms(3) by (rule unat_or_bit)
  then show ?thesis
    using lval_list_update [of 0 xs "xs ! 0 OR b"] assms(1) by simp
qed


lemma reduce_step_val:
  assumes len: "length r = length m" and ne: "m \<noteq> []" and r: "wval r < wval m"
    and b: "unat b \<le> 1" and step: "reduce_step m b r = (r', ge)"
  shows "wval r' = (2 * wval r + unat b) mod wval m"
    and "ge = choice_of_bool (wval m \<le> 2 * wval r + unat b)"
    and "length r' = length m"
proof -
  let ?V = "2 * wval r + unat b" and ?R = "\<beta> ^ length m"
  obtain sh c where sh: "uint_adc r r 0 = (sh, c)" by fastforce
  let ?s = "sh[0 := sh ! 0 OR b]"
  obtain diff bo where diff: "uint_sbb ?s m 0 = (diff, bo)" by fastforce
  have sum: "wval sh + ?R * unat c = 2 * wval r" and lsh: "length sh = length m"
    using uint_adc_exact [OF sh] len by simp_all
  have c1: "unat c \<le> 1" using uint_adc_carry_le [OF sh] by simp
  have evR: "even ?R" using ne by simp
  then have "even (wval sh)" using sum by (metis dvd_add_left_iff dvd_mult2 dvd_triv_left)
  then have s: "wval ?s = wval sh + unat b"
    using ne lsh b by (intro uint_or_low_bit) auto
  have V: "?V = wval ?s + ?R * unat c" using s sum by simp
  have lt: "wval m < ?R" "wval ?s < ?R" "wval diff < ?R" "?V < 2 * wval m"
    using lval_lt [of m] lval_lt [of ?s] lval_lt [of diff] uint_sbb_borrow(3) [OF diff] lsh r b by simp_all
  have bo: "bo = of_bool (wval ?s < wval m)" "length diff = length m"
    and dv: "wval diff = (if wval ?s < wval m then ?R + wval ?s - wval m else wval ?s - wval m)"
    using uint_sbb_borrow [OF diff] lsh by simp_all
  have cb: "c = of_bool (unat c = 1)" using c1 by (rule limb_bit_cases)
  have "(c OR (bo XOR 1)) = of_bool (unat c = 1 \<or> wval m \<le> wval ?s)"
    by (subst cb) (simp add: bo(1) not_less)
  moreover have "(unat c = 1 \<or> wval m \<le> wval ?s) \<longleftrightarrow> wval m \<le> ?V"
    using V lt c1 by (cases "unat c = 0") (auto simp: le_Suc_eq)
  ultimately have ge: "choice_from_u8 (ucast (c OR (bo XOR 1))) = choice_of_bool (wval m \<le> ?V)"
    by (simp add: choice_from_bool_byte)
  have r': "r' = (if wval m \<le> ?V then diff else ?s)"
    using step by (simp add: reduce_step_def Let_def sh diff ge uint_conditional_select_eq bo(2) lsh)
  show "ge = choice_of_bool (wval m \<le> ?V)"
    using step ge by (simp add: reduce_step_def Let_def sh diff)
  show "length r' = length m" using r' bo(2) lsh by simp
  show "wval r' = ?V mod wval m"
  proof (cases "wval m \<le> ?V")
    case True
    have "wval diff = ?V - wval m"
      using V lt c1 dv True by (cases "unat c = 0") (auto simp: le_Suc_eq)
    moreover have "?V mod wval m = ?V - wval m"
      using True lt(4) by (simp add: le_mod_geq)
    ultimately show ?thesis using r' True by simp
  next
    case False
    then have "unat c = 0"
      using V lt c1 by (cases "unat c = 0") (auto simp: le_Suc_eq)
    then show ?thesis using r' False V by simp
  qed
qed

text \<open>Bit \<open>b\<close> of limb \<open>i\<close> is bit \<open>64 i + b\<close> of the value.\<close>

lemma limb_bit_val:
  assumes "i < length xs" "b < 64"
  shows "unat (drop_bit b (xs ! i) AND (1 :: u64)) = wval xs div 2 ^ (64 * i + b) mod 2"
proof -
  have "unat (drop_bit b (xs ! i) AND 1) = wval xs div \<beta> ^ i mod \<beta> div 2 ^ b mod 2"
    using assms by (simp add: unat_and_1 unat_drop_bit lval_nth)
  also have "\<dots> = wval xs div \<beta> ^ i div 2 ^ b mod 2"
  proof -
    have "\<beta> = 2 ^ b * (2 * 2 ^ (63 - b))"
      using assms(2) by (simp add: \<beta>_def flip: power_add power_Suc)
    then have "x mod \<beta> div 2 ^ b = x div 2 ^ b mod (2 * 2 ^ (63 - b))" for x
      by (metis mod_mult_div)
    then show ?thesis
      by (simp add: mod_mod_cancel)
  qed
  also have "\<dots> = wval xs div 2 ^ (64 * i + b) mod 2"
    by (simp add: beta_pow power_add div_mult2_eq)
  finally show ?thesis .
qed

lemma limb_bit_le_1: "unat (x AND (1 :: u64)) \<le> 1"
  by (simp add: unat_and_1)

lemma div_pow_double: "(d::nat) div 2 ^ k = 2 * (d div 2 ^ Suc k) + d div 2 ^ k mod 2"
  by (simp add: power_Suc2 div_mult2_eq del: power_Suc)

lemma reduce_bits_val:
  assumes "i < length xs" and "k \<le> 64" and "length m = length r" and "m \<noteq> []" and "0 < wval m"
    and "wval r = wval xs div 2 ^ (64 * i + k) mod wval m"
  shows "wval (reduce_bits m (xs ! i) k r) = wval xs div 2 ^ (64 * i) mod wval m
       \<and> length (reduce_bits m (xs ! i) k r) = length m"
  using assms(2-)
proof (induction k arbitrary: r)
  case (Suc k)
  let ?b = "drop_bit k (xs ! i) AND 1"
  obtain r' ge where step: "reduce_step m ?b r = (r', ge)" by fastforce
  have lt: "wval r < wval m" using Suc.prems by simp
  have b: "unat ?b = wval xs div 2 ^ (64 * i + k) mod 2"
    using Suc.prems(1) assms(1) by (intro limb_bit_val) auto
  have "wval r' = (2 * (wval xs div 2 ^ Suc (64 * i + k) mod wval m) + unat ?b) mod wval m"
    using reduce_step_val(1) [OF _ _ lt limb_bit_le_1 step] Suc.prems by simp
  also have "\<dots> = (2 * (wval xs div 2 ^ Suc (64 * i + k)) + unat ?b) mod wval m"
    by (metis mod_add_left_eq mod_mult_right_eq)
  also have "\<dots> = wval xs div 2 ^ (64 * i + k) mod wval m"
    unfolding b using div_pow_double [of "wval xs" "64 * i + k"] by simp
  finally have "wval r' = wval xs div 2 ^ (64 * i + k) mod wval m" .
  moreover have "length m = length r'"
    using reduce_step_val(3) [OF _ _ lt limb_bit_le_1 step] Suc.prems by simp
  ultimately show ?case
    using Suc.IH [of r'] Suc.prems by (simp add: step)
qed simp

lemma reduce_limbs_val:
  assumes "i \<le> length xs" and "length m = length r" and "m \<noteq> []" and "0 < wval m"
    and "wval r = wval xs div 2 ^ (64 * i) mod wval m"
  shows "wval (reduce_limbs m xs i r) = wval xs mod wval m
       \<and> length (reduce_limbs m xs i r) = length m"
  using assms
proof (induction i arbitrary: r)
  case (Suc i)
  have "wval (reduce_bits m (xs ! i) 64 r) = wval xs div 2 ^ (64 * i) mod wval m
      \<and> length (reduce_bits m (xs ! i) 64 r) = length m"
    using Suc.prems by (intro reduce_bits_val) (auto simp: add.commute)
  then show ?case
    using Suc by simp
qed simp

lemma lval_div_top: "wval xs div 2 ^ (64 * length xs) = 0" for xs :: uint
  using lval_lt [of xs] by (simp add: beta_pow)

lemma uint_reduce_val:
  assumes "length m = length xs" and "0 < wval m"
  shows "\<exists>r. uint_reduce xs m = Some r \<and> wval r = wval xs mod wval m \<and> length r = length xs"
proof -
  have "m \<noteq> []" using assms(2) by auto
  then have "wval (reduce_limbs m xs (length xs) (uint_zero (length xs))) = wval xs mod wval m
      \<and> length (reduce_limbs m xs (length xs) (uint_zero (length xs))) = length m"
    using assms by (intro reduce_limbs_val) (simp_all add: lval_div_top)
  then show ?thesis
    using assms by (simp add: uint_reduce_def uint_is_zero_eq choice_simps)
qed

text \<open>The quotient never overflows its width: it is at most the dividend's prefix.\<close>

lemma divrem_bits_val:
  assumes "i < length xs" and "k \<le> 64" and "length m = length xs"
    and "length q = length xs" and "length r = length xs" and "0 < wval m"
    and "wval r < wval m" and "wval q * wval m + wval r = wval xs div 2 ^ (64 * i + k)"
    and "divrem_bits m (xs ! i) k (q, r) = (q', r')"
  shows "wval q' * wval m + wval r' = wval xs div 2 ^ (64 * i) \<and> wval r' < wval m
       \<and> length q' = length xs \<and> length r' = length xs"
  using assms(2-)
proof (induction k arbitrary: q r)
  case (Suc k)
  let ?b = "drop_bit k (xs ! i) AND 1" and ?P = "wval xs div 2 ^ (64 * i + k)"
  have ne: "m \<noteq> []" "xs \<noteq> []" using Suc.prems(5) assms(1) by auto
  obtain r1 ge where step: "reduce_step m ?b r = (r1, ge)" by fastforce
  obtain qs c where qs: "uint_adc q q 0 = (qs, c)" by fastforce
  let ?q1 = "qs[0 := qs ! 0 OR ucast (unwrap_u8 ge)]"
  let ?V = "2 * wval r + unat ?b"
  have b: "unat ?b = ?P mod 2"
    using Suc.prems(1) assms(1) by (intro limb_bit_val) auto
  have P: "?P = 2 * (wval q * wval m + wval r) + unat ?b"
    unfolding b using div_pow_double [of "wval xs" "64 * i + k"] Suc.prems(7) by simp
  have Plt: "?P < \<beta> ^ length xs"
    using lval_lt [of xs] div_le_dividend [of "wval xs" "2 ^ (64 * i + k)"] by linarith
  have r1: "wval r1 = ?V mod wval m" "ge = choice_of_bool (wval m \<le> ?V)" "length r1 = length m"
    using reduce_step_val [OF _ ne(1) Suc.prems(6) limb_bit_le_1 step] Suc.prems by simp_all
  have aux: "x \<le> y \<Longrightarrow> 2 * x \<le> 2 * (y + z) + u" for x y z u :: nat by simp
  have "2 * wval q \<le> ?P" unfolding P using Suc.prems(5) by (intro aux) simp
  then have "2 * wval q < \<beta> ^ length xs" using Plt by (rule order_le_less_trans)
  moreover have sum: "wval qs + \<beta> ^ length xs * unat c = 2 * wval q" and lqs: "length qs = length xs"
    using uint_adc_exact [OF qs] Suc.prems by simp_all
  ultimately have "unat c = 0" by (cases "unat c") simp_all
  then have q2: "wval qs = 2 * wval q" using sum by simp
  have q1: "wval ?q1 = 2 * wval q + of_bool (wval m \<le> ?V)"
  proof -
    have "wval ?q1 = wval qs + unat (ucast (unwrap_u8 ge) :: u64)"
      using lqs ne q2 by (intro uint_or_low_bit) (auto simp: r1(2) choice_simps)
    then show ?thesis by (simp add: r1(2) choice_simps q2)
  qed
  have V2: "?V < 2 * wval m" using Suc.prems(6) limb_bit_le_1 [of "drop_bit k (xs ! i)"] by simp
  have "wval ?q1 * wval m + wval r1 = ?P"
  proof (cases "wval m \<le> ?V")
    case True
    then have "?V mod wval m = ?V - wval m" using V2 by (simp add: le_mod_geq)
    then show ?thesis using True q1 r1(1) P by (simp add: algebra_simps)
  next
    case False
    then show ?thesis using q1 r1(1) P by (simp add: algebra_simps)
  qed
  moreover have "wval r1 < wval m" using r1(1) Suc.prems(5) by simp
  moreover have "divrem_bits m (xs ! i) k (?q1, r1) = (q', r')"
    using Suc.prems(8) by (simp add: step qs)
  ultimately show ?case
    using Suc.prems lqs r1(3) by (intro Suc.IH [of ?q1 r1]) auto
qed simp

lemma divrem_limbs_val:
  assumes "i \<le> length xs" and "length m = length xs"
    and "length q = length xs" and "length r = length xs" and "0 < wval m"
    and "wval r < wval m" and "wval q * wval m + wval r = wval xs div 2 ^ (64 * i)"
    and "divrem_limbs m xs i (q, r) = (q', r')"
  shows "wval q' * wval m + wval r' = wval xs \<and> wval r' < wval m
       \<and> length q' = length xs \<and> length r' = length xs"
  using assms
proof (induction i arbitrary: q r)
  case (Suc i)
  obtain q1 r1 where s: "divrem_bits m (xs ! i) 64 (q, r) = (q1, r1)" by fastforce
  have "wval q1 * wval m + wval r1 = wval xs div 2 ^ (64 * i) \<and> wval r1 < wval m
      \<and> length q1 = length xs \<and> length r1 = length xs"
    using Suc.prems by (intro divrem_bits_val [OF _ _ _ _ _ _ _ _ s]) (auto simp: add.commute)
  then show ?case
    using Suc.prems by (intro Suc.IH [of q1 r1]) (auto simp: s)
qed simp

lemma uint_divrem_exact:
  assumes "length m = length xs" and "0 < wval m"
  shows "\<exists>q r. uint_divrem xs m = Some (q, r) \<and> wval q = wval xs div wval m
       \<and> wval r = wval xs mod wval m \<and> length q = length xs \<and> length r = length xs"
proof -
  obtain q r where qr: "divrem_limbs m xs (length xs)
      (uint_zero (length xs), uint_zero (length xs)) = (q, r)" by fastforce
  have v: "wval q * wval m + wval r = wval xs" "wval r < wval m" "length q = length xs" "length r = length xs"
    using divrem_limbs_val [OF order_refl _ _ _ _ _ _ qr] assms by (simp_all add: lval_div_top)
  then have "wval q = wval xs div wval m" "wval r = wval xs mod wval m"
    using assms(2) by (metis add.commute add.left_neutral div_less div_mult_self3 not_less_zero,
        metis add.commute mod_less mod_mult_self3)
  with v show ?thesis
    using assms qr by (simp add: uint_divrem_def uint_is_zero_eq choice_simps)
qed

text \<open>
  C20.  \<open>Uint::divrem\<close> by a nonzero divisor returns the quotient and the remainder of the values, both at
  the width of the operands, so the bit-serial loop neither panics nor loses the carry out of its shift.
\<close>

theorem uint_divrem_correct:
  assumes "length m = length xs" and "0 < wval m"
  shows "\<exists>q r. uint_divrem xs m = Some (q, r) \<and> wval q = wval xs div wval m
       \<and> wval r = wval xs mod wval m \<and> length q = length xs \<and> length r = length xs"
  using assms by (rule uint_divrem_exact)

theorem uint_divrem_correct_witness:
  "\<exists>q r. uint_divrem [7, 5] [0xFFFFFFFFFFFFFFFF, 1] = Some (q, r)
     \<and> wval q = wval [7, 5 :: u64] div wval [0xFFFFFFFFFFFFFFFF, 1 :: u64]
     \<and> wval r = wval [7, 5 :: u64] mod wval [0xFFFFFFFFFFFFFFFF, 1 :: u64]
     \<and> length q = length [7, 5 :: u64] \<and> length r = length [7, 5 :: u64]"
  using uint_divrem_correct [of "[0xFFFFFFFFFFFFFFFF, 1]" "[7, 5]"] by simp

section \<open>Multiplication refines arithmetic on values\<close>

text \<open>One row of the schoolbook product, on the concatenation of the two halves.\<close>

lemma mul_row_val:
  assumes "length lo = length b" and "length hi = length b" and "i < length b" and "j \<le> length b"
    and "mul_row ai b i j (lo, hi) carry = ((lo', hi'), carry')"
  shows "wval (lo' @ hi') + \<beta> ^ (i + length b) * unat carry'
       = wval (lo @ hi) + \<beta> ^ (i + j) * (unat ai * wval (drop j b) + unat carry)
     \<and> length lo' = length b \<and> length hi' = length b
     \<and> drop i hi' = drop i hi"
  using assms
proof (induction "length b - j" arbitrary: j lo hi carry)
  case 0
  then show ?case by (simp add: mul_row.simps)
next
  case (Suc n)
  then have j: "j < length b" by simp
  let ?p = "i + j"
  obtain v c where vc: "mac ((lo @ hi) ! ?p) ai (b ! j) carry = (v, c)" by fastforce
  define lo1 hi1 where "lo1 = (if ?p < length b then lo[?p := v] else lo)"
    and "hi1 = (if ?p < length b then hi else hi[?p - length b := v])"
  have l1: "length lo1 = length b" "length hi1 = length b"
    using Suc.prems by (simp_all add: lo1_def hi1_def)
  have cat: "lo1 @ hi1 = (lo @ hi)[?p := v]"
    using Suc.prems by (simp add: lo1_def hi1_def list_update_append)
  have step: "mul_row ai b i (j + 1) (lo1, hi1) c = ((lo', hi'), carry')"
    using Suc.prems j vc by (simp add: mul_row.simps [of ai b i j] nth_append lo1_def hi1_def Let_def
        split: if_splits)
  have IH: "wval (lo' @ hi') + \<beta> ^ (i + length b) * unat carry'
       = wval (lo1 @ hi1) + \<beta> ^ (i + (j + 1)) * (unat ai * wval (drop (j + 1) b) + unat c)
     \<and> length lo' = length b \<and> length hi' = length b \<and> drop i hi' = drop i hi1"
    using Suc.hyps(2) j l1 Suc.prems(3) step by (intro Suc.hyps(1)) auto
  have upd: "wval (lo1 @ hi1) + \<beta> ^ ?p * unat ((lo @ hi) ! ?p) = wval (lo @ hi) + \<beta> ^ ?p * unat v"
    unfolding cat using Suc.prems j by (intro lval_list_update) simp
  have m: "unat v + \<beta> * unat c = unat ((lo @ hi) ! ?p) + unat ai * unat (b ! j) + unat carry"
    using mac_beta [OF vc] .
  have d: "wval (drop j b) = unat (b ! j) + \<beta> * wval (drop (j + 1) b)"
    using j by (simp add: Cons_nth_drop_Suc [symmetric])
  have "wval (lo1 @ hi1) + \<beta> ^ (i + (j + 1)) * (unat ai * wval (drop (j + 1) b) + unat c)
        + \<beta> ^ ?p * unat ((lo @ hi) ! ?p)
      = wval (lo @ hi) + \<beta> ^ ?p * (unat v + \<beta> * unat c + \<beta> * (unat ai * wval (drop (j + 1) b)))"
    using upd by (simp add: algebra_simps)
  also have "\<dots> = wval (lo @ hi) + \<beta> ^ ?p * (unat ai * wval (drop j b) + unat carry)
        + \<beta> ^ ?p * unat ((lo @ hi) ! ?p)"
    unfolding m d by (simp add: algebra_simps)
  finally have "wval (lo1 @ hi1) + \<beta> ^ (i + (j + 1)) * (unat ai * wval (drop (j + 1) b) + unat c)
      = wval (lo @ hi) + \<beta> ^ ?p * (unat ai * wval (drop j b) + unat carry)"
    by simp
  moreover have "drop i hi1 = drop i hi"
    using Suc.prems j by (auto simp: hi1_def drop_update_cancel)
  ultimately show ?case using IH by simp
qed

lemma mul_rows_val:
  assumes "length a = length b" and "length lo = length b" and "length hi = length b"
    and "i \<le> length b" and "drop i hi = replicate (length b - i) 0"
    and "wval (lo @ hi) = wval (take i a) * wval b"
    and "mul_rows a b i (lo, hi) = (lo', hi')"
  shows "wval (lo' @ hi') = wval a * wval b \<and> length lo' = length b \<and> length hi' = length b"
  using assms
proof (induction "length a - i" arbitrary: i lo hi)
  case 0
  then show ?case by (simp add: mul_rows.simps)
next
  case (Suc n)
  then have i: "i < length b" by simp
  obtain lo1 hi1 c where row: "mul_row (a ! i) b i 0 (lo, hi) 0 = ((lo1, hi1), c)"
    by (metis surj_pair)
  have r: "wval (lo1 @ hi1) + \<beta> ^ (i + length b) * unat c
       = wval (lo @ hi) + \<beta> ^ i * (unat (a ! i) * wval b)"
    and l1: "length lo1 = length b" "length hi1 = length b" and dh: "drop i hi1 = drop i hi"
    using mul_row_val [OF Suc.prems(2,3) i _ row] by simp_all
  have z: "hi1 ! i = 0" using dh Suc.prems(5) i l1(2)
    by (metis Cons_nth_drop_Suc Suc_diff_Suc list.inject replicate_Suc)
  have "wval ((lo1 @ hi1)[i + length b := c]) = wval (lo1 @ hi1) + \<beta> ^ (i + length b) * unat c"
    using lval_list_update [of "i + length b" "lo1 @ hi1" c] i l1 z by (simp add: nth_append)
  then have w: "wval (lo1 @ hi1[i := c]) = wval (lo @ hi) + \<beta> ^ i * (unat (a ! i) * wval b)"
    using r l1 by (simp add: list_update_append)
  have t: "wval (take (Suc i) a) = wval (take i a) + \<beta> ^ i * unat (a ! i)"
    using i Suc.prems(1) by (simp add: take_Suc_conv_app_nth lval_append)
  have "wval (lo1 @ hi1[i := c]) = wval (take (Suc i) a) * wval b"
    unfolding w t Suc.prems(6) by (simp add: algebra_simps)
  moreover have "drop (Suc i) (hi1[i := c]) = replicate (length b - Suc i) 0"
  proof -
    have "drop (Suc i) (hi1[i := c]) = tl (drop i hi1)"
      by (simp add: drop_update_cancel drop_Suc [of i hi1] tl_drop)
    then show ?thesis using dh Suc.prems(5) by simp
  qed
  moreover have "mul_rows a b (Suc i) (lo1, hi1[i := c]) = (lo', hi')"
    using Suc.prems i by (simp add: mul_rows.simps [of a b i] row)
  ultimately show ?case
    using Suc.hyps(2) Suc.prems(1) i l1 by (intro Suc.hyps(1) [of "Suc i" lo1 "hi1[i := c]"]) auto
qed

lemma uint_mul_wide_val:
  assumes "length a = length b" and "uint_mul_wide a b = (lo, hi)"
  shows "wval lo + \<beta> ^ length a * wval hi = wval a * wval b \<and> length lo = length a \<and> length hi = length a"
  using mul_rows_val [of a b "uint_zero (length a)" "uint_zero (length a)" 0 lo hi] assms
  by (auto simp: uint_mul_wide_def lval_append uint_zero_def)

lemma uint_wrapping_mul_val:
  assumes "length a = length b"
  shows "wval (uint_wrapping_mul a b) = wval a * wval b mod \<beta> ^ length a
       \<and> length (uint_wrapping_mul a b) = length a"
proof -
  obtain lo hi where m: "uint_mul_wide a b = (lo, hi)" by fastforce
  have v: "wval lo + \<beta> ^ length a * wval hi = wval a * wval b" "length lo = length a"
    using uint_mul_wide_val [OF assms m] by simp_all
  have "wval a * wval b mod \<beta> ^ length a = wval lo mod \<beta> ^ length a"
    by (simp flip: v(1))
  then show ?thesis
    using m v(2) lval_lt [of lo] by (simp add: uint_wrapping_mul_def)
qed

section \<open>Shifts and bit length\<close>

lemma shr1_limbs_val:
  "shr1_limbs xs = (ys, c) \<Longrightarrow>
     wval ys = wval xs div 2 \<and> unat c = wval xs mod 2 \<and> length ys = length xs"
proof (induction xs arbitrary: ys c)
  case (Cons x xs)
  obtain zs k where z: "shr1_limbs xs = (zs, k)" by fastforce
  note IH = Cons.IH [OF z]
  have ys: "ys = (drop_bit 1 x OR push_bit 63 k) # zs" "c = x AND 1"
    using Cons.prems z by simp_all
  have half: "unat (drop_bit 1 x) = unat x div 2" by (simp add: unat_drop_bit)
  have k: "unat k \<le> 1" using IH by simp
  have "unat (drop_bit 1 x OR push_bit 63 k) = unat (drop_bit 1 x) + unat k * 2 ^ 63"
    using u64_lt [of x] k by (intro unat_or_shift) (simp_all add: unat_drop_bit)
  then have "wval ys = unat x div 2 + unat k * 2 ^ 63 + \<beta> * (wval xs div 2)"
    using IH half by (simp add: ys)
  also have "\<dots> = unat x div 2 + (wval xs mod 2 * 2 ^ 63 + \<beta> * (wval xs div 2))"
    using IH by simp
  also have "\<dots> = unat x div 2 + 2 ^ 63 * (wval xs mod 2 + 2 * (wval xs div 2))"
  proof -
    have "m * 2 ^ 63 + \<beta> * q = 2 ^ 63 * (m + 2 * q)" for m q by (simp add: \<beta>_def)
    then show ?thesis by (simp only:)
  qed
  also have "\<dots> = (unat x + \<beta> * wval xs) div 2"
  proof -
    have "(unat x + \<beta> * wval xs) div 2 = unat x div 2 + 2 ^ 63 * wval xs"
      by (simp add: \<beta>_def)
    then show ?thesis by (simp add: mod_mult_div_eq)
  qed
  finally show ?case
    using IH by (simp add: ys unat_and_1 mod_add_right_eq [symmetric] mult_mod_right [symmetric])
qed simp

lemma uint_shr1_val: "wval (uint_shr1 xs) = wval xs div 2 \<and> length (uint_shr1 xs) = length xs"
  using shr1_limbs_val [of xs] by (cases "shr1_limbs xs") (simp add: uint_shr1_def)

text \<open>
  C21.  Limb arithmetic is exact: the full product of two \<open>l\<close>-limb values is returned in its two halves,
  and \<open>adc\<close>/\<open>sbb\<close> return the sum and the difference with their carry or borrow out of limb \<open>l\<close>.
\<close>

theorem uint_arith_exact:
  assumes "length a = length b" and "c \<le> 1"
  shows "(case uint_mul_wide a b of (lo, hi) \<Rightarrow> wval lo + \<beta> ^ length a * wval hi = wval a * wval b)
    \<and> (case uint_adc a b c of (s, co) \<Rightarrow>
         wval s + \<beta> ^ length a * unat co = wval a + wval b + unat c \<and> unat co \<le> 1)
    \<and> (case uint_sbb a b c of (d, bo) \<Rightarrow>
         wval d + wval b + unat c = wval a + \<beta> ^ length a * unat bo \<and> unat bo \<le> 1)"
proof -
  obtain lo hi where m: "uint_mul_wide a b = (lo, hi)" by fastforce
  obtain s co where s: "uint_adc a b c = (s, co)" by fastforce
  obtain d bo where d: "uint_sbb a b c = (d, bo)" by fastforce
  show ?thesis
    using uint_mul_wide_val [OF assms(1) m] uint_adc_exact [OF s assms(1)]
      uint_adc_carry_le [OF s assms(1)] uint_sbb_exact [OF d assms] assms(2)
    by (simp add: m s d limb_le_1_iff)
qed

theorem uint_arith_exact_witness:
  "case uint_mul_wide [0xFFFFFFFFFFFFFFFF, 0xFFFFFFFFFFFFFFFF] [0xFFFFFFFFFFFFFFFF, 2] of (lo, hi) \<Rightarrow>
     wval lo + \<beta> ^ length [0xFFFFFFFFFFFFFFFF, 0xFFFFFFFFFFFFFFFF :: u64] * wval hi
       = wval [0xFFFFFFFFFFFFFFFF, 0xFFFFFFFFFFFFFFFF :: u64] * wval [0xFFFFFFFFFFFFFFFF, 2 :: u64]"
  using uint_arith_exact [of "[0xFFFFFFFFFFFFFFFF, 0xFFFFFFFFFFFFFFFF]" "[0xFFFFFFFFFFFFFFFF, 2]" 1]
  by (simp only: length_Cons length_0_conv order_refl simp_thms)

end
