(* ===== verification/UintBits.thy ===== *)
theory UintBits
imports Uint
begin

text \<open>
  The byte conversions, the shifts and the bit length of \<open>bignum::uint\<close>, whose definitions are in
  \<open>Uint\<close>, seen bit by bit: bit \<open>k\<close> of a value is bit \<open>k mod w\<close> of its digit \<open>k div w\<close>.
\<close>

section \<open>Bits of a value\<close>

lemma bit_digit_sum:
  fixes a b :: nat
  assumes "a < 2 ^ w"
  shows "bit (a + 2 ^ w * b) k \<longleftrightarrow> (if k < w then bit a k else bit b (k - w))"
proof (cases "k < w")
  case True
  then have "2 ^ w = 2 ^ k * (2 :: nat) ^ (w - k)" by (simp flip: power_add)
  then have "(a + 2 ^ w * b) div 2 ^ k = a div 2 ^ k + 2 ^ (w - k) * b" by (simp add: mult.assoc)
  then show ?thesis using True by (simp add: bit_iff_odd)
next
  case False
  then have "2 ^ k = (2 :: nat) ^ w * 2 ^ (k - w)" by (simp flip: power_add)
  then have "(a + 2 ^ w * b) div 2 ^ k = ((a + 2 ^ w * b) div 2 ^ w) div 2 ^ (k - w)"
    by (simp add: div_mult2_eq)
  then show ?thesis using False assms by (simp add: bit_iff_odd)
qed

lemma bit_wval:
  fixes xs :: "'a::len word list"
  shows "bit (wval xs) k \<longleftrightarrow> k div LENGTH('a) < length xs
    \<and> bit (xs ! (k div LENGTH('a))) (k mod LENGTH('a))"
proof (induction xs arbitrary: k)
  case (Cons x xs)
  show ?case
  proof (cases "k < LENGTH('a)")
    case True
    then show ?thesis
      using bit_digit_sum [OF unat_lt [of x], of "wval xs" k]
      by (simp add: wval.simps(2) bit_unat bit_iff_odd [where ?'a = nat])
  next
    case False
    then have "k div LENGTH('a) = Suc ((k - LENGTH('a)) div LENGTH('a))"
        "k mod LENGTH('a) = (k - LENGTH('a)) mod LENGTH('a)"
      by (simp_all add: le_div_geq le_mod_geq)
    then show ?thesis
      using bit_digit_sum [OF unat_lt [of x], of "wval xs" k] Cons.IH [of "k - LENGTH('a)"] False
      by (simp add: wval.simps(2))
  qed
qed simp

lemma bit_lval: "bit (wval (xs :: uint)) k \<longleftrightarrow> k div 64 < length xs \<and> bit (xs ! (k div 64)) (k mod 64)"
  using bit_wval [of xs k] by simp

lemma bit_byte_val: "bit (wval (bs :: bytes)) k \<longleftrightarrow> k div 8 < length bs \<and> bit (bs ! (k div 8)) (k mod 8)"
  using bit_wval [of bs k] by simp

section \<open>Byte conversions\<close>

lemma byte_in_limb_bit:
  fixes b :: u8
  assumes "k < 64"
  shows "bit (push_bit (8 * r) (ucast b) :: u64) k \<longleftrightarrow> k div 8 = r \<and> bit b (k mod 8)"
proof
  assume "bit (push_bit (8 * r) (ucast b) :: u64) k"
  then have b: "8 * r \<le> k" "bit b (k - 8 * r)" by (auto simp: bit_push_bit_iff bit_ucast_iff)
  then have "k - 8 * r < 8" using bit_imp_le_length [of b] by simp
  moreover have k: "k = (k - 8 * r) + 8 * r" using b(1) by simp
  ultimately have "k div 8 = r" by (subst k) simp
  then have "k div 8 = r" "k mod 8 = k - 8 * r" by (auto simp: minus_mult_div_eq_mod)
  then show "k div 8 = r \<and> bit b (k mod 8)" using b by simp
next
  assume k: "k div 8 = r \<and> bit b (k mod 8)"
  then have "8 * r \<le> k" "k - 8 * r = k mod 8" by (auto simp: minus_mult_div_eq_mod)
  then show "bit (push_bit (8 * r) (ucast b) :: u64) k"
    using k assms by (simp add: bit_push_bit_iff bit_ucast_iff)
qed

lemma from_be_limb_bits:
  fixes bs :: bytes
  assumes "length bs \<le> n * 8" and "j \<le> length bs"
    and "limbs = foldl (\<lambda>limbs j. limbs[j div 8 :=
               limbs ! (j div 8) OR push_bit (8 * (j mod 8)) (ucast (bs ! (length bs - 1 - j)))])
             (replicate n 0) [0..<j]"
  shows "length (limbs :: uint) = n \<and> (\<forall>i < n. \<forall>k < 64. bit (limbs ! i) k \<longleftrightarrow>
      8 * i + k div 8 < j \<and> bit (rev bs ! (8 * i + k div 8)) (k mod 8))"
  using assms(2,3)
proof (induction j arbitrary: limbs)
  case (Suc j)
  define l0 where "l0 = foldl (\<lambda>limbs j. limbs[j div 8 :=
               limbs ! (j div 8) OR push_bit (8 * (j mod 8)) (ucast (bs ! (length bs - 1 - j)))])
             (replicate n 0 :: uint) [0..<j]"
  have IH: "length l0 = n" "\<forall>i < n. \<forall>k < 64. bit (l0 ! i) k \<longleftrightarrow>
      8 * i + k div 8 < j \<and> bit (rev bs ! (8 * i + k div 8)) (k mod 8)"
    using Suc.IH [OF _ l0_def] Suc.prems by simp_all
  have l: "limbs = l0[j div 8 := l0 ! (j div 8) OR push_bit (8 * (j mod 8)) (ucast (rev bs ! j))]"
    using Suc.prems by (simp add: l0_def rev_nth)
  have "bit (limbs ! i) k \<longleftrightarrow> 8 * i + k div 8 < Suc j \<and> bit (rev bs ! (8 * i + k div 8)) (k mod 8)"
    if "i < n" "k < 64" for i k
  proof (cases "i = j div 8")
    case False
    then have "8 * i + k div 8 \<noteq> j" using that(2) by (auto simp: less_mult_imp_div_less)
    then show ?thesis using False IH that by (auto simp: l less_Suc_eq)
  next
    case True
    have "bit (push_bit (8 * (j mod 8)) (ucast (rev bs ! j)) :: u64) k
        \<longleftrightarrow> 8 * i + k div 8 = j \<and> bit (rev bs ! j) (k mod 8)"
    proof -
      have "8 * i + k div 8 = j \<longleftrightarrow> k div 8 = j mod 8"
        unfolding True using mult_div_mod_eq [of 8 j] by linarith
      then show ?thesis by (simp only: byte_in_limb_bit [OF that(2)])
    qed
    then show ?thesis using True IH that by (auto simp: l bit_or_iff less_Suc_eq)
  qed
  then show ?case using IH(1) by (simp add: l)
qed simp

lemma uint_from_be_bytes_val:
  assumes "length bs \<le> n * 8"
  shows "\<exists>x. uint_from_be_bytes n bs = Some x \<and> length x = n \<and> wval x = be_val bs"
proof -
  obtain x where x: "uint_from_be_bytes n bs = Some x" using assms by (simp add: uint_from_be_bytes_def)
  have b: "length x = n" "\<And>i k. i < n \<Longrightarrow> k < 64 \<Longrightarrow> bit (x ! i) k \<longleftrightarrow>
      8 * i + k div 8 < length bs \<and> bit (rev bs ! (8 * i + k div 8)) (k mod 8)"
    using from_be_limb_bits [OF assms order_refl, of x] x by (auto simp: uint_from_be_bytes_def split: if_splits)
  have "wval x = wval (rev bs)"
  proof (rule bit_eqI)
    fix k :: nat
    have e: "8 * (k div 64) + k mod 64 div 8 = k div 8" "k mod 64 mod 8 = k mod 8"
      using div_mult2_eq [of k 8 8] mod_mult2_eq [of k 8 8] by simp_all
    show "bit (wval x) k = bit (wval (rev bs)) k"
    proof (cases "k div 64 < n")
      case True
      then show ?thesis using b(2) [of "k div 64" "k mod 64"] by (simp add: bit_lval bit_byte_val b(1) e)
    next
      case False
      then have "\<not> k div 8 < length bs" using assms e(1) by linarith
      then show ?thesis using False by (simp add: bit_lval bit_byte_val b(1))
    qed
  qed
  then show ?thesis using x b(1) by (simp add: be_val_def)
qed

lemma write_be_map:
  "map (\<lambda>i. to_be_bytes (self ! (length self - 1 - i))) [0..<length self] = map to_be_bytes (rev self)"
  by (intro nth_equalityI) (simp_all add: rev_nth)

lemma be_val_limbs: "be_val (concat (map to_be_bytes (rev (x :: uint)))) = wval x
    \<and> length (concat (map to_be_bytes (rev x))) = 8 * length x"
proof (induction x)
  case (Cons a x)
  have "length (to_be_bytes a) = 8" "be_val (to_be_bytes a) = unat a"
    by (simp_all add: to_be_bytes_def be_val_def wval_to_le_bytes length_to_le_bytes)
  then show ?case
    using Cons by (simp add: be_val_append \<beta>_def)
qed simp

lemma uint_write_be_bytes_val:
  "\<exists>bs. uint_write_be_bytes x (8 * length x) = Some bs \<and> length bs = 8 * length x \<and> be_val bs = wval x"
  using be_val_limbs [of x] unfolding uint_write_be_bytes_def write_be_map by (simp add: mult.commute)

text \<open>
  C22.  Big-endian bytes round trip through \<open>Uint\<close>: writing a value and reading it back gives the value,
  and reading any byte string that fits gives its big-endian value; reading a longer string or writing
  to a buffer of another length is the failed assertion.
\<close>

theorem uint_be_bytes_roundtrip:
  "(case uint_write_be_bytes x k of
      Some bs \<Rightarrow> k = 8 * length x \<and> length bs = k \<and> uint_from_be_bytes (length x) bs = Some x
    | None \<Rightarrow> k \<noteq> 8 * length x)
   \<and> (case uint_from_be_bytes n bs of
      Some y \<Rightarrow> length bs \<le> n * 8 \<and> length y = n \<and> wval y = be_val bs
    | None \<Rightarrow> n * 8 < length bs)"
proof
  show "case uint_write_be_bytes x k of
      Some bs \<Rightarrow> k = 8 * length x \<and> length bs = k \<and> uint_from_be_bytes (length x) bs = Some x
    | None \<Rightarrow> k \<noteq> 8 * length x"
  proof (cases "k = 8 * length x")
    case True
    obtain bs where bs: "uint_write_be_bytes x k = Some bs" "length bs = 8 * length x" "be_val bs = wval x"
      using uint_write_be_bytes_val [of x] True by auto
    then obtain y where "uint_from_be_bytes (length x) bs = Some y" "length y = length x" "wval y = wval x"
      using uint_from_be_bytes_val [of bs "length x"] by auto
    then show ?thesis using bs True by (auto intro: wval_inject)
  qed (simp add: uint_write_be_bytes_def)
  show "case uint_from_be_bytes n bs of
      Some y \<Rightarrow> length bs \<le> n * 8 \<and> length y = n \<and> wval y = be_val bs
    | None \<Rightarrow> n * 8 < length bs"
    using uint_from_be_bytes_val [of bs n]
    by (cases "length bs \<le> n * 8") (auto simp: uint_from_be_bytes_def)
qed

section \<open>Little-endian bytes\<close>

lemma lval_zeros: "list_all (\<lambda>x. x = 0) (xs :: uint) \<Longrightarrow> wval xs = 0"
  by (induction xs) simp_all

lemma wval_le_pad: "wval (bs @ replicate k (0 :: u8)) = wval bs"
  by (simp add: wval_append wval_replicate_0)

lemma le_chunks_val:
  "wval (le_chunks bs) = wval bs \<and> length (le_chunks bs) = (length bs + 7) div 8"
proof (induction bs rule: le_chunks.induct)
  case (2 b bs)
  let ?bs = "b # bs"
  have l: "length (take 8 ?bs @ replicate (8 - length ?bs) 0) = 8" by simp
  have "wval (take 8 ?bs @ replicate (8 - length ?bs) (0 :: u8)) < 2 ^ LENGTH(64)"
    using wval_lt [of "take 8 ?bs @ replicate (8 - length ?bs) (0 :: u8)"] unfolding l by simp
  then have "unat (from_le_bytes (take 8 ?bs @ replicate (8 - length ?bs) 0) :: u64) = wval (take 8 ?bs)"
    unfolding from_le_bytes_def unat_of_nat wval_le_pad by (rule mod_less)
  moreover have "wval ?bs = wval (take 8 ?bs) + \<beta> * wval (drop 8 ?bs)"
  proof (cases "8 \<le> length ?bs")
    case True
    then show ?thesis
      using wval_append [of "take 8 ?bs" "drop 8 ?bs"] unfolding append_take_drop_id
      by (simp add: \<beta>_def min_absorb2 del: take_Cons_numeral drop_Cons_numeral)
  next
    case False
    then show ?thesis by (simp del: take_Cons_numeral drop_Cons_numeral)
  qed
  moreover have "(length ?bs + 7) div 8 = Suc ((length (drop 8 ?bs) + 7) div 8)"
    by (cases "8 \<le> length ?bs") (simp_all add: div_eq_0_iff le_div_geq)
  ultimately show ?case
    using 2 by (simp del: take_Cons_numeral drop_Cons_numeral)
qed simp

lemma uint_from_le_bytes_val:
  assumes "length bs \<le> n * 8"
  shows "\<exists>x. uint_from_le_bytes n bs = Some x \<and> length x = n \<and> wval x = wval bs"
  using assms le_chunks_val [of bs]
  by (simp add: uint_from_le_bytes_def lval_append lval_zeros list_all_iff)

lemma uint_write_le_bytes_val:
  "\<exists>bs. uint_write_le_bytes x (8 * length x) = Some bs \<and> length bs = 8 * length x \<and> wval bs = wval x"
proof -
  have "wval (concat (map to_le_bytes x)) = wval x \<and> length (concat (map to_le_bytes x)) = 8 * length x"
  proof (induction x)
    case (Cons a x)
    have "wval (to_le_bytes a) = unat a" by (simp add: wval_to_le_bytes)
    then show ?case using Cons by (simp add: wval_append \<beta>_def)
  qed simp
  then show ?thesis by (simp add: uint_write_le_bytes_def mult.commute)
qed

section \<open>Shifts\<close>

lemma bit_div_pow: "bit ((n :: nat) div 2 ^ s) k \<longleftrightarrow> bit n (k + s)"
  by (simp add: bit_iff_odd add.commute [of k] power_add div_mult2_eq)

lemma shr_limb_bit:
  assumes "i < length x" and "k < 64"
  shows "bit (uint_shr_bits x shift ! i) k \<longleftrightarrow> bit (wval x) (64 * i + k + shift)"
proof -
  define a r where "a = shift div 64" and "r = shift mod 64"
  define q where "q = i + a"
  have r: "r < 64" by (simp add: r_def)
  have "shift = 64 * a + r" by (simp add: a_def r_def)
  then have e: "64 * i + k + shift = (k + r) + q * 64" by (simp add: q_def)
  let ?v = "drop_bit r (x ! q)"
  have l: "uint_shr_bits x shift ! i = (if q < length x then
      if 0 < r \<and> q + 1 < length x then ?v OR push_bit (64 - r) (x ! (q + 1)) else ?v else 0)"
    using assms(1) by (simp add: uint_shr_bits_def Let_def q_def a_def r_def)
  have v: "bit ?v k \<longleftrightarrow> k + r < 64 \<and> bit (x ! q) (k + r)"
    using bit_imp_le_length [of "x ! q" "k + r"] by (auto simp: bit_drop_bit_eq add.commute)
  have w: "bit (push_bit (64 - r) (x ! (q + 1))) k \<longleftrightarrow> 64 \<le> k + r \<and> bit (x ! (q + 1)) (k + r - 64)"
    using r assms(2) by (auto simp: bit_push_bit_iff)
  have d: "(k + r + q * 64) div 64 = q + (k + r) div 64" "(k + r + q * 64) mod 64 = (k + r) mod 64"
    by simp_all
  show ?thesis
  proof (cases "k + r < 64")
    case True
    then show ?thesis unfolding e bit_lval d l using v w by (auto simp: bit_or_iff)
  next
    case False
    then have "(k + r) div 64 = 1" "(k + r) mod 64 = k + r - 64" "0 < r"
      using r assms(2) by (simp_all add: le_div_geq le_mod_geq)
    then show ?thesis unfolding e bit_lval d l using v w False by (auto simp: bit_or_iff)
  qed
qed

lemma uint_shr_bits_val:
  "length (uint_shr_bits x shift) = length x \<and> wval (uint_shr_bits x shift) = wval x div 2 ^ shift"
proof
  show l: "length (uint_shr_bits x shift) = length x" by (simp add: uint_shr_bits_def Let_def)
  show "wval (uint_shr_bits x shift) = wval x div 2 ^ shift"
  proof (rule bit_eqI)
    fix k :: nat
    show "bit (wval (uint_shr_bits x shift)) k = bit (wval x div 2 ^ shift) k"
    proof (cases "k div 64 < length x")
      case True
      then show ?thesis
        using shr_limb_bit [OF True, of "k mod 64" shift] by (simp add: bit_lval bit_div_pow l add.commute)
    next
      case False
      then have "\<not> (k + shift) div 64 < length x" by (meson div_le_mono le_add1 le_less_trans)
      then show ?thesis using False by (simp add: bit_lval bit_div_pow l)
    qed
  qed
qed

section \<open>Bit length\<close>

text \<open>A word with \<open>z\<close> leading zeros lies between the powers of two around its top bit.\<close>

lemma takeWhile_rev_upt:
  assumes "\<forall>j. i < j \<longrightarrow> j < n \<longrightarrow> P j" and "i < n" and "\<not> P i"
  shows "length (takeWhile P (rev [0..<n])) = n - 1 - i"
  using assms
proof (induction n)
  case (Suc n)
  then show ?case by (cases "i = n") (auto simp: Suc_diff_Suc)
qed simp

lemma leading_zeros_bounds:
  assumes "w \<noteq> (0 :: u64)"
  shows "leading_zeros w < 64" and "2 ^ (63 - leading_zeros w) \<le> unat w"
    and "unat w < 2 ^ (64 - leading_zeros w)"
proof -
  define i where "i = (GREATEST i. bit w i)"
  have ex: "\<exists>i. bit w i" using assms by (metis bit_0_eq bit_eqI bot_apply bot_bool_def)
  have bd: "j < 64" if "bit w j" for j using bit_imp_le_length [OF that] by simp
  have i: "bit w i" unfolding i_def by (rule GreatestI_ex_nat [OF ex, of 64]) (auto dest: bd)
  have top: "\<not> bit w j" if "i < j" for j
    using that Greatest_le_nat [of "bit w" j 64] bd unfolding i_def by (metis less_imp_le not_less)
  have lz: "leading_zeros w = 63 - i"
    unfolding leading_zeros_def using bd [OF i] i top by (subst takeWhile_rev_upt [of i]) auto
  have "i < 64" by (rule bd [OF i])
  then show "leading_zeros w < 64" unfolding lz by simp
  have "unat w div 2 ^ i \<noteq> 0" using i unfolding bit_unat by (metis even_zero)
  then have "2 ^ i \<le> unat w" by (meson div_less leI)
  then show "2 ^ (63 - leading_zeros w) \<le> unat w" unfolding lz using \<open>i < 64\<close> by simp
  have "drop_bit (Suc i) w = 0" by (rule bit_eqI) (simp add: bit_drop_bit_eq top)
  then have "unat w div 2 ^ Suc i = 0" by (metis unat_drop_bit unsigned_0)
  then have "unat w < 2 ^ Suc i" by (simp only: div_eq_0_iff) simp
  then show "unat w < 2 ^ (64 - leading_zeros w)"     using \<open>i < 64\<close> by (simp add: lz)
qed


lemma bit_len_loop_val:
  assumes "j \<le> length x"
  shows "wval (take j x) < 2 ^ bit_len_loop x j
    \<and> (bit_len_loop x j \<noteq> 0 \<longrightarrow> 2 ^ (bit_len_loop x j - 1) \<le> wval (take j x))"
  using assms
proof (induction j)
  case (Suc j)
  have t: "wval (take (Suc j) x) = wval (take j x) + \<beta> ^ j * unat (x ! j)"
    using Suc.prems by (simp add: take_Suc_conv_app_nth lval_append min_absorb2)
  show ?case
  proof (cases "x ! j = 0")
    case False
    define z where "z = leading_zeros (x ! j)"
    note b = leading_zeros_bounds [OF False, folded z_def]
    have B: "\<beta> ^ j = 2 ^ (64 * j)" by (simp only: \<beta>_def power_mult)
    have "wval (take j x) < \<beta> ^ j" using lval_lt [of "take j x"] Suc.prems by simp
    then have "wval (take (Suc j) x) < \<beta> ^ j * Suc (unat (x ! j))" unfolding t by simp
    also have "\<dots> \<le> \<beta> ^ j * 2 ^ (64 - z)" using b(3) by (intro mult_le_mono2) simp
    also have "\<dots> = 2 ^ (j * 64 + (64 - z))" by (simp only: B power_add mult.commute)
    finally have u: "wval (take (Suc j) x) < 2 ^ (j * 64 + (64 - z))" .
    have "\<beta> ^ j * 2 ^ (63 - z) \<le> wval (take (Suc j) x)"
      unfolding t using mult_le_mono2 [OF b(2), of "\<beta> ^ j"] by linarith
    moreover have "\<beta> ^ j * 2 ^ (63 - z) = 2 ^ (j * 64 + (63 - z))" by (simp only: B power_add mult.commute)
    ultimately have "2 ^ (j * 64 + (63 - z)) \<le> wval (take (Suc j) x)" by simp
    moreover have "j * 64 + (64 - z) - 1 = j * 64 + (63 - z)" using b(1) by simp
    moreover have "bit_len_loop x (Suc j) = j * 64 + (64 - z)" using False by (simp add: z_def)
    ultimately show ?thesis using u by (simp only: simp_thms)
  qed (use Suc t in simp)
qed simp

lemma uint_bit_len_bounds:
  "wval x < 2 ^ uint_bit_len x"
  "uint_bit_len x \<noteq> 0 \<Longrightarrow> 2 ^ (uint_bit_len x - 1) \<le> wval x"
  using bit_len_loop_val [of "length x" x] by (simp_all add: uint_bit_len_def)

end
