(* ===== verification/Mont.thy ===== *)
theory Mont
  imports UintBits
begin

unbundle bit_operations_syntax

text \<open>
  Montgomery multiplication, \<open>src/bignum/montgomery.rs\<close>: the word inverse, the
  constant-time final subtraction, the two-rows-per-pass multiplication kernel, modular
  addition and subtraction, and the modulus context with its precomputed \<open>R\<^sup>2\<close>.
  The accumulator of the kernel is the pair of the limb array \<open>t\<close> and the extra limb
  \<open>ts\<close>; \<open>u128\<close> sums of three limbs are \<open>adc\<close>.
\<close>

section \<open>The kernels\<close>

fun newton_steps :: "nat \<Rightarrow> u64 \<Rightarrow> u64 \<Rightarrow> u64" where
  "newton_steps 0 n x = x"
| "newton_steps (Suc i) n x = newton_steps i n (x * (2 - n * x))"

definition inv_mod_2_64 :: "u64 \<Rightarrow> u64" where
  "inv_mod_2_64 n = newton_steps 6 n 1"

definition mont_select :: "uint \<Rightarrow> uint \<Rightarrow> u64 \<Rightarrow> uint" where
  "mont_select a b bt = (let mask = - bt in map2 (\<lambda>x y. y XOR (mask AND (x XOR y))) a b)"

definition mont_final_sub :: "uint \<Rightarrow> uint \<Rightarrow> u64 \<Rightarrow> uint \<Rightarrow> uint" where
  "mont_final_sub n t ts out =
     (let l = length n;
          t = take l t;
          (d, bo) = uint_sbb t n 0;
          (_, borrow) = sbb ts 0 bo;
          mask = - (borrow XOR 1)
      in map2 (\<lambda>tj dj. tj XOR (mask AND (dj XOR tj))) t d @ drop l out)"

text \<open>The merged loop over the columns \<open>j\<close> of two rows.\<close>

function mont_pair_cols :: "uint \<Rightarrow> uint \<Rightarrow> u64 \<Rightarrow> u64 \<Rightarrow> u64 \<Rightarrow> u64 \<Rightarrow> nat \<Rightarrow>
    uint \<times> u64 \<times> u64 \<times> u64 \<times> u64 \<Rightarrow> uint \<times> u64 \<times> u64 \<times> u64 \<times> u64" where
  "mont_pair_cols n a b0 b1 m0 m1 j (t, c1, c2, d1, d2) =
     (if j < length n then
        (let (s, cc1) = mac (t ! j) (a ! j) b0 c1;
             (tpj1, cc2) = mac s m0 (n ! j) c2;
             (u, dd1) = mac tpj1 (a ! (j - 1)) b1 d1;
             (u2, dd2) = mac u m1 (n ! (j - 1)) d2
         in mont_pair_cols n a b0 b1 m0 m1 (j + 1) (t[j - 2 := u2], cc1, cc2, dd1, dd2))
      else (t, c1, c2, d1, d2))"
  by pat_completeness auto
termination
  by (relation "measure (\<lambda>(n, a, b0, b1, m0, m1, j, st). length n - j)") auto

declare mont_pair_cols.simps [simp del]

definition mont_pair :: "uint \<Rightarrow> u64 \<Rightarrow> uint \<Rightarrow> u64 \<Rightarrow> u64 \<Rightarrow> uint \<times> u64 \<Rightarrow> uint \<times> u64" where
  "mont_pair n np a b0 b1 acc =
     (let (t, ts) = acc; l = length n;
          (s0, c1) = mac (t ! 0) (a ! 0) b0 0;
          m0 = s0 * np;
          (_, c2) = mac s0 m0 (n ! 0) 0;
          (s, c1) = mac (t ! 1) (a ! 1) b0 c1;
          (tp0, c2) = mac s m0 (n ! 1) c2;
          (u0, d1) = mac tp0 (a ! 0) b1 0;
          m1 = u0 * np;
          (_, d2) = mac u0 m1 (n ! 0) 0;
          (t, c1, c2, d1, d2) = mont_pair_cols n a b0 b1 m0 m1 2 (t, c1, c2, d1, d2);
          (tpl1, tpl) = adc ts c1 c2;
          (u, d1) = mac tpl1 (a ! (l - 1)) b1 d1;
          (u2, d2) = mac u m1 (n ! (l - 1)) d2;
          t = t[l - 2 := u2];
          (top, ts) = adc tpl d1 d2
      in (t[l - 1 := top], ts))"

function mont_row_cols :: "uint \<Rightarrow> uint \<Rightarrow> u64 \<Rightarrow> u64 \<Rightarrow> nat \<Rightarrow> uint \<times> u64 \<times> u64 \<Rightarrow> uint \<times> u64 \<times> u64" where
  "mont_row_cols n a bi m j (t, c1, c2) =
     (if j < length n then
        (let (s, cc1) = mac (t ! j) (a ! j) bi c1;
             (s2, cc2) = mac s m (n ! j) c2
         in mont_row_cols n a bi m (j + 1) (t[j - 1 := s2], cc1, cc2))
      else (t, c1, c2))"
  by pat_completeness auto
termination
  by (relation "measure (\<lambda>(n, a, bi, m, j, st). length n - j)") auto

declare mont_row_cols.simps [simp del]

definition mont_row :: "uint \<Rightarrow> u64 \<Rightarrow> uint \<Rightarrow> u64 \<Rightarrow> uint \<times> u64 \<Rightarrow> uint \<times> u64" where
  "mont_row n np a bi acc =
     (let (t, ts) = acc; l = length n;
          (s0, c1) = mac (t ! 0) (a ! 0) bi 0;
          m = s0 * np;
          (_, c2) = mac s0 m (n ! 0) 0;
          (t, c1, c2) = mont_row_cols n a bi m 1 (t, c1, c2);
          (top, ts) = adc ts c1 c2
      in (t[l - 1 := top], ts))"

function mont_rows :: "uint \<Rightarrow> u64 \<Rightarrow> uint \<Rightarrow> uint \<Rightarrow> nat \<Rightarrow> uint \<times> u64 \<Rightarrow> uint \<times> u64" where
  "mont_rows n np a b i acc =
     (if i + 1 < length n then mont_rows n np a b (i + 2) (mont_pair n np a (b ! i) (b ! (i + 1)) acc)
      else if i < length n then mont_row n np a (b ! i) acc
      else acc)"
  by pat_completeness auto
termination
  by (relation "measure (\<lambda>(n, np, a, b, i, acc). length n - i)") auto

declare mont_rows.simps [simp del]

text \<open>The operands are read in their low \<open>l\<close> limbs; the scratch array is cleared first.\<close>

definition mont_mul_kernel :: "uint \<Rightarrow> u64 \<Rightarrow> uint \<Rightarrow> uint \<Rightarrow> uint \<Rightarrow> uint" where
  "mont_mul_kernel n np a b out =
     (let l = length n;
          (t, ts) = mont_rows n np (take l a) (take l b) 0 (replicate l 0, 0)
      in mont_final_sub n t ts out)"

definition add_mod :: "uint \<Rightarrow> uint \<Rightarrow> uint \<Rightarrow> uint" where
  "add_mod n a b =
     (let (sum, carry) = uint_adc a b 0;
          (diff, borrow) = uint_sbb sum n 0;
          subtract = carry OR (borrow XOR 1)
      in mont_select diff sum subtract)"

definition sub_mod :: "uint \<Rightarrow> uint \<Rightarrow> uint \<Rightarrow> uint" where
  "sub_mod n a b =
     (let (diff, borrow) = uint_sbb a b 0;
          (wrapped, _) = uint_adc diff n 0
      in mont_select wrapped diff borrow)"

section \<open>The modulus context\<close>

record mont_modulus =
  mm_modulus :: uint
  mm_n_prime :: u64
  mm_r2 :: uint
  mm_limbs :: nat

definition mont_mul :: "mont_modulus \<Rightarrow> uint \<Rightarrow> uint \<Rightarrow> uint" where
  "mont_mul self a b =
     mont_mul_kernel (take (mm_limbs self) (mm_modulus self)) (mm_n_prime self) a b
       (replicate (length (mm_modulus self)) 0)"

fun add_mod_times :: "nat \<Rightarrow> uint \<Rightarrow> uint \<Rightarrow> uint" where
  "add_mod_times 0 n x = x"
| "add_mod_times (Suc i) n x = add_mod_times i n (add_mod n x x)"

fun mont_sqr_times :: "nat \<Rightarrow> mont_modulus \<Rightarrow> uint \<Rightarrow> uint" where
  "mont_sqr_times 0 m x = x"
| "mont_sqr_times (Suc i) m x = mont_sqr_times i m (mont_mul m x x)"

definition with_shape :: "uint \<Rightarrow> nat \<Rightarrow> nat \<Rightarrow> mont_modulus" where
  "with_shape modulus s bits =
     (let n_prime = - inv_mod_2_64 (modulus ! 0);
          m = \<lparr>mm_modulus = modulus, mm_n_prime = n_prime, mm_r2 = uint_zero (length modulus),
               mm_limbs = s\<rparr>;
          start = (replicate (length modulus) 0)[(bits - 1) div 64 := push_bit ((bits - 1) mod 64) 1];
          x = add_mod_times (64 * s - bits + 1 + s) modulus start;
          x = mont_sqr_times 6 m x
      in m\<lparr>mm_r2 := x\<rparr>)"

fun significant_limbs :: "uint \<Rightarrow> nat \<Rightarrow> nat" where
  "significant_limbs n 0 = 0"
| "significant_limbs n (Suc s) = (if 0 < s \<and> n ! s = 0 then significant_limbs n s else Suc s)"

text \<open>\<open>None\<close> is the failed assertion that the modulus is odd.\<close>

definition mont_new :: "uint \<Rightarrow> mont_modulus option" where
  "mont_new modulus =
     (if modulus ! 0 AND 1 = 1 then
        (let s = significant_limbs modulus (length modulus);
             bits = 64 * s - leading_zeros (modulus ! (s - 1))
         in Some (with_shape modulus s bits))
      else None)"

definition to_mont :: "mont_modulus \<Rightarrow> uint \<Rightarrow> uint" where
  "to_mont self x = mont_mul self x (mm_r2 self)"

definition from_mont :: "mont_modulus \<Rightarrow> uint \<Rightarrow> uint" where
  "from_mont self x = mont_mul self x (uint_one (length (mm_modulus self)))"

definition mm_add_mod :: "mont_modulus \<Rightarrow> uint \<Rightarrow> uint \<Rightarrow> uint" where
  "mm_add_mod self a b = add_mod (mm_modulus self) a b"

definition mm_sub_mod :: "mont_modulus \<Rightarrow> uint \<Rightarrow> uint \<Rightarrow> uint" where
  "mm_sub_mod self a b = sub_mod (mm_modulus self) a b"

definition mul_mod :: "mont_modulus \<Rightarrow> uint \<Rightarrow> uint \<Rightarrow> uint" where
  "mul_mod self a b = (let t = mont_mul self a b in mont_mul self t (mm_r2 self))"

section \<open>The word inverse\<close>

lemma pow2_64_word: "(2 :: u64) ^ 64 = 0"
proof -
  have "LENGTH(64) = 64" by simp
  then show ?thesis using word_exp_length_eq_0 [where ?'a = 64] by (simp only:)
qed

lemma word_of_nat_beta: "word_of_nat \<beta> = (0 :: u64)"
  by (simp only: \<beta>_def of_nat_power of_nat_numeral pow2_64_word)

lemma newton_residual: "1 - n * newton_steps k n x = (1 - n * x) ^ (2 ^ k)"
proof (induction k arbitrary: x)
  case (Suc k)
  have "1 - n * (x * (2 - n * x)) = (1 - n * x) ^ 2"
    by (simp add: power2_eq_square algebra_simps)
  then show ?case
    by (simp add: Suc.IH flip: power_mult)
qed simp

lemma inv_mod_2_64_correct:
  assumes "odd n"
  shows "n * inv_mod_2_64 n = 1"
proof -
  have "even (1 - n)" using assms by simp
  then obtain m where m: "1 - n = 2 * m" by (elim evenE)
  have "1 - n * inv_mod_2_64 n = (2 * m) ^ 64"
    using newton_residual [of n 6 1] m by (simp add: inv_mod_2_64_def)
  also have "\<dots> = 0" by (simp only: power_mult_distrib pow2_64_word mult_zero_left)
  finally show ?thesis by simp
qed

lemma n_prime_cancels:
  assumes "odd n0"
  shows "s + s * (- inv_mod_2_64 n0) * n0 = (0 :: u64)"
proof -
  have "s + s * (- inv_mod_2_64 n0) * n0 = s * (1 - n0 * inv_mod_2_64 n0)"
    by (simp add: algebra_simps)
  then show ?thesis using inv_mod_2_64_correct [OF assms] by simp
qed

section \<open>One row, two rows\<close>

text \<open>The low limb of a row cancels, so the whole of it goes into the carry.\<close>

lemma mac_low_cancel:
  assumes "np * n0 = - 1" and "mac s (s * np) n0 0 = (lo, c)"
  shows "\<beta> * unat c = unat s + unat (s * np) * unat n0"
proof -
  have e: "unat lo + \<beta> * unat c = unat s + unat (s * np) * unat n0"
    using mac_beta [OF assms(2)] by simp
  have "word_of_nat (unat lo + \<beta> * unat c) = (lo :: u64)"
    by (simp add: word_of_nat_beta)
  moreover have "word_of_nat (unat s + unat (s * np) * unat n0) = s + s * (np * n0)"
    by (simp add: algebra_simps)
  ultimately have "lo = 0" using e assms(1) by (metis add.right_inverse mult_minus1_right)
  then show ?thesis using e by simp
qed

lemma mont_pair_cols_val:
  assumes "length t = length n" and "length a = length n" and "2 \<le> j" and "j \<le> length n"
    and "mont_pair_cols n a b0 b1 m0 m1 j (t, c1, c2, d1, d2) = (t', c1', c2', d1', d2')"
    and "drop j t = drop j t0" and "length t0 = length n"
    and "wval (take j t0) + wval (take j a) * unat b0 + wval (take j n) * unat m0
        + \<beta> * (wval (take (j - 1) a) * unat b1 + wval (take (j - 1) n) * unat m1)
      = \<beta> ^ 2 * wval (take (j - 2) t) + \<beta> ^ j * (unat c1 + unat c2 + unat d1 + unat d2)"
  shows "length t' = length n \<and>
      wval t0 + wval a * unat b0 + wval n * unat m0
        + \<beta> * (wval (take (length n - 1) a) * unat b1 + wval (take (length n - 1) n) * unat m1)
      = \<beta> ^ 2 * wval (take (length n - 2) t') + \<beta> ^ length n * (unat c1' + unat c2' + unat d1' + unat d2')"
  using assms
proof (induction "length n - j" arbitrary: j t c1 c2 d1 d2)
  case 0
  then show ?case by (simp add: mont_pair_cols.simps)
next
  case (Suc k)
  then have j: "j < length n" by simp
  obtain s e1 where s: "mac (t ! j) (a ! j) b0 c1 = (s, e1)" by fastforce
  obtain p e2 where p: "mac s m0 (n ! j) c2 = (p, e2)" by fastforce
  obtain u f1 where u: "mac p (a ! (j - Suc 0)) b1 d1 = (u, f1)" by fastforce
  obtain v f2 where v: "mac u m1 (n ! (j - Suc 0)) d2 = (v, f2)" by fastforce
  have tj: "t ! j = t0 ! j"
    using Suc.prems(1,6,7) j by (metis Cons_nth_drop_Suc list.inject)
  have sum: "unat v + \<beta> * (unat e1 + unat e2 + unat f1 + unat f2)
      = unat (t0 ! j) + unat (a ! j) * unat b0 + unat (n ! j) * unat m0
        + unat (a ! (j - 1)) * unat b1 + unat (n ! (j - 1)) * unat m1
        + (unat c1 + unat c2 + unat d1 + unat d2)"
    using mac_beta [OF s] mac_beta [OF p] mac_beta [OF u] mac_beta [OF v] tj
    by (simp add: algebra_simps)
  obtain i where i: "j = Suc (Suc i)" using Suc.prems(3) by (metis add_2_eq_Suc le_Suc_ex)
  have tk: "wval (take (Suc m) xs) = wval (take m xs) + \<beta> ^ m * unat (xs ! m)"
    if "m < length xs" for m and xs :: uint
    using that by (simp add: take_Suc_conv_app_nth lval_append)
  have out: "wval (take (j + 1 - 2) (t[j - 2 := v])) = wval (take (j - 2) t) + \<beta> ^ (j - 2) * unat v"
    using j Suc.prems(1,3) by (simp add: i take_Suc_conv_app_nth lval_append)
  have "wval (take (j + 1) t0) + wval (take (j + 1) a) * unat b0 + wval (take (j + 1) n) * unat m0
        + \<beta> * (wval (take (j + 1 - 1) a) * unat b1 + wval (take (j + 1 - 1) n) * unat m1)
      = (wval (take j t0) + wval (take j a) * unat b0 + wval (take j n) * unat m0
        + \<beta> * (wval (take (j - 1) a) * unat b1 + wval (take (j - 1) n) * unat m1))
        + \<beta> ^ j * (unat (t0 ! j) + unat (a ! j) * unat b0 + unat (n ! j) * unat m0
        + unat (a ! (j - 1)) * unat b1 + unat (n ! (j - 1)) * unat m1)"
    using j Suc.prems(1,2,7) by (simp add: i tk algebra_simps)
  also have "\<dots> = \<beta> ^ 2 * wval (take (j - 2) t)
        + \<beta> ^ j * (unat v + \<beta> * (unat e1 + unat e2 + unat f1 + unat f2))"
    unfolding Suc.prems(8) sum by (simp add: algebra_simps)
  also have "\<dots> = \<beta> ^ 2 * wval (take (j + 1 - 2) (t[j - 2 := v]))
        + \<beta> ^ (j + 1) * (unat e1 + unat e2 + unat f1 + unat f2)"
    unfolding out by (simp add: i algebra_simps power2_eq_square)
  finally have inv: "wval (take (j + 1) t0) + wval (take (j + 1) a) * unat b0
        + wval (take (j + 1) n) * unat m0
        + \<beta> * (wval (take (j + 1 - 1) a) * unat b1 + wval (take (j + 1 - 1) n) * unat m1)
      = \<beta> ^ 2 * wval (take (j + 1 - 2) (t[j - 2 := v]))
        + \<beta> ^ (j + 1) * (unat e1 + unat e2 + unat f1 + unat f2)" .
  have rest: "drop (j + 1) (t[j - 2 := v]) = drop (j + 1) t0"
  proof -
    have "drop (j + 1) (t[j - 2 := v]) = drop (j + 1) t" by (simp add: drop_update_cancel)
    also have "\<dots> = drop 1 (drop j t)" by simp
    also have "\<dots> = drop (j + 1) t0" by (simp add: Suc.prems(6))
    finally show ?thesis .
  qed
  show ?case
  proof (rule Suc.hyps(1) [of "j + 1" "t[j - 2 := v]" e1 e2 f1 f2])
    show "mont_pair_cols n a b0 b1 m0 m1 (j + 1) (t[j - 2 := v], e1, e2, f1, f2)
        = (t', c1', c2', d1', d2')"
      using Suc.prems(5) j by (simp add: mont_pair_cols.simps [of n a b0 b1 m0 m1 j] s p u v)
  qed (use Suc.hyps(2) Suc.prems j inv rest in simp_all)
qed

lemma lval_take_Suc:
  "m < length xs \<Longrightarrow> wval (take (Suc m) xs) = wval (take m xs) + \<beta> ^ m * unat (xs ! m)" for xs :: uint
  by (simp add: take_Suc_conv_app_nth lval_append)

lemma lval_take_last:
  "length xs = Suc m \<Longrightarrow> wval xs = wval (take m xs) + \<beta> ^ m * unat (xs ! m)" for xs :: uint
  using lval_take_Suc [of m xs] by simp

lemma lval_take_2:
  "2 \<le> length xs \<Longrightarrow> wval (take (Suc 0) xs) = unat (xs ! 0)
     \<and> wval (take 2 xs) = unat (xs ! 0) + \<beta> * unat (xs ! Suc 0)" for xs :: uint
  by (cases xs; cases "tl xs") auto

text \<open>The value of the accumulator: limb array plus the extra top limb.\<close>

definition acc_val :: "uint \<times> u64 \<Rightarrow> nat" where
  "acc_val acc = wval (fst acc) + \<beta> ^ length (fst acc) * unat (snd acc)"

lemma mont_pair_val:
  assumes "length t = length n" and "length a = length n" and "2 \<le> length n"
    and "np * (n ! 0) = - 1" and "mont_pair n np a b0 b1 (t, ts) = acc"
  shows "length (fst acc) = length n \<and> (\<exists>(m0 :: u64) (m1 :: u64). \<beta> ^ 2 * acc_val acc =
      acc_val (t, ts) + wval a * (unat b0 + \<beta> * unat b1) + wval n * (unat m0 + \<beta> * unat m1))"
proof -
  obtain l where l: "length n = Suc (Suc l)" using assms(3) by (metis add_2_eq_Suc le_Suc_ex)
  obtain s0 c1 where s0: "mac (t ! 0) (a ! 0) b0 0 = (s0, c1)" by fastforce
  define m0 where "m0 = s0 * np"
  obtain z c2 where z: "mac s0 m0 (n ! 0) 0 = (z, c2)" by fastforce
  obtain s e1 where s: "mac (t ! Suc 0) (a ! Suc 0) b0 c1 = (s, e1)" by fastforce
  obtain p e2 where p: "mac s m0 (n ! Suc 0) c2 = (p, e2)" by fastforce
  obtain u0 d1 where u0: "mac p (a ! 0) b1 0 = (u0, d1)" by fastforce
  define m1 where "m1 = u0 * np"
  obtain y d2 where y: "mac u0 m1 (n ! 0) 0 = (y, d2)" by fastforce
  obtain t' c1' c2' d1' d2' where
    cols: "mont_pair_cols n a b0 b1 m0 m1 2 (t, e1, e2, d1, d2) = (t', c1', c2', d1', d2')"
    by (metis surj_pair)
  obtain q r where q: "adc ts c1' c2' = (q, r)" by fastforce
  obtain u f1 where u: "mac q (a ! (length n - Suc 0)) b1 d1' = (u, f1)" by fastforce
  obtain v f2 where v: "mac u m1 (n ! (length n - Suc 0)) d2' = (v, f2)" by fastforce
  obtain w ts' where w: "adc r f1 f2 = (w, ts')" by fastforce
  have acc: "acc = (t'[length n - 2 := v, length n - Suc 0 := w], ts')"
    using assms(5) s0 z s p u0 y cols q u v w
    by (simp add: mont_pair_def Let_def flip: m0_def m1_def)
  have low: "\<beta> * unat c2 = unat s0 + unat m0 * unat (n ! 0)" "\<beta> * unat d2 = unat u0 + unat m1 * unat (n ! 0)"
    using mac_low_cancel [OF assms(4)] z y unfolding m0_def m1_def by blast+
  have "\<beta> ^ 2 * (unat e1 + unat e2 + unat d1 + unat d2)
      = \<beta> * (\<beta> * unat e1 + \<beta> * unat e2 + \<beta> * unat d1 + \<beta> * unat d2)"
    by (simp add: power2_eq_square algebra_simps)
  also have "\<dots> = \<beta> * (unat (t ! Suc 0) + unat (a ! Suc 0) * unat b0 + unat (n ! Suc 0) * unat m0
      + unat (a ! 0) * unat b1 + unat (n ! 0) * unat m1) + (\<beta> * unat c1 + \<beta> * unat c2)"
  proof -
    have "\<beta> * unat e1 + \<beta> * unat e2 + \<beta> * unat d1 + \<beta> * unat d2
      = unat (t ! Suc 0) + unat (a ! Suc 0) * unat b0 + unat (n ! Suc 0) * unat m0
      + unat (a ! 0) * unat b1 + unat (n ! 0) * unat m1 + (unat c1 + unat c2)"
      using mac_beta [OF s] mac_beta [OF p] mac_beta [OF u0] low(2) by (simp add: algebra_simps)
    then show ?thesis by (simp add: algebra_simps)
  qed
  also have "\<beta> * unat c1 + \<beta> * unat c2 = unat (t ! 0) + unat (a ! 0) * unat b0 + unat (n ! 0) * unat m0"
    using mac_beta [OF s0] low(1) by (simp add: algebra_simps)
  finally have start: "\<beta> ^ 2 * (unat e1 + unat e2 + unat d1 + unat d2) =
      wval (take 2 t) + wval (take 2 a) * unat b0 + wval (take 2 n) * unat m0
        + \<beta> * (wval (take (2 - 1) a) * unat b1 + wval (take (2 - 1) n) * unat m1)"
    using assms(1-3) by (simp add: lval_take_2 algebra_simps)
  have fin: "length t' = length n \<and>
      wval t + wval a * unat b0 + wval n * unat m0
        + \<beta> * (wval (take (length n - 1) a) * unat b1 + wval (take (length n - 1) n) * unat m1)
      = \<beta> ^ 2 * wval (take (length n - 2) t') + \<beta> ^ length n * (unat c1' + unat c2' + unat d1' + unat d2')"
    by (rule mont_pair_cols_val [OF assms(1,2) order_refl assms(3) cols refl assms(1)])
      (use start in simp)
  have top: "unat v + \<beta> * (unat w + \<beta> * unat ts') = unat ts + (unat c1' + unat c2' + unat d1' + unat d2')
      + unat (a ! Suc l) * unat b1 + unat (n ! Suc l) * unat m1"
    using adc_beta [OF q] mac_beta [OF u] mac_beta [OF v] adc_beta [OF w]
    by (simp add: l algebra_simps)
  have out: "wval (t'[length n - 2 := v, length n - Suc 0 := w])
      = wval (take l t') + \<beta> ^ l * unat v + \<beta> ^ Suc l * unat w"
  proof -
    have "t'[l := v, Suc l := w] = take l t' @ [v, w]"
      using fin l by (intro nth_equalityI) (auto simp: nth_append nth_list_update less_Suc_eq)
    then show ?thesis using fin l by (simp add: lval_append algebra_simps)
  qed
  have a: "wval a = wval (take (Suc l) a) + \<beta> ^ Suc l * unat (a ! Suc l)"
    and n: "wval n = wval (take (Suc l) n) + \<beta> ^ Suc l * unat (n ! Suc l)"
    using l assms(2) by (simp_all only: lval_take_last [of _ "Suc l"])
  have "\<beta> ^ 2 * acc_val acc = \<beta> ^ 2 * wval (take l t')
      + \<beta> ^ Suc (Suc l) * (unat v + \<beta> * (unat w + \<beta> * unat ts'))"
    using fin out unfolding acc acc_val_def by (simp add: l algebra_simps power2_eq_square)
  also have "\<dots> = (\<beta> ^ 2 * wval (take l t') + \<beta> ^ Suc (Suc l) * (unat c1' + unat c2' + unat d1' + unat d2'))
      + \<beta> ^ Suc (Suc l) * unat ts
      + \<beta> * (\<beta> ^ Suc l * unat (a ! Suc l) * unat b1 + \<beta> ^ Suc l * unat (n ! Suc l) * unat m1)"
    unfolding top by (simp add: algebra_simps)
  also have "\<beta> ^ 2 * wval (take l t') + \<beta> ^ Suc (Suc l) * (unat c1' + unat c2' + unat d1' + unat d2')
      = wval t + wval a * unat b0 + wval n * unat m0
        + \<beta> * (wval (take (Suc l) a) * unat b1 + wval (take (Suc l) n) * unat m1)"
    using fin l by simp
  finally have "\<beta> ^ 2 * acc_val acc = acc_val (t, ts) + (wval a * unat b0 + wval n * unat m0)
      + \<beta> * ((wval (take (Suc l) a) + \<beta> ^ Suc l * unat (a ! Suc l)) * unat b1
        + (wval (take (Suc l) n) + \<beta> ^ Suc l * unat (n ! Suc l)) * unat m1)"
    using assms(1) l by (simp add: acc_val_def algebra_simps)
  also have "\<dots> = acc_val (t, ts) + wval a * (unat b0 + \<beta> * unat b1) + wval n * (unat m0 + \<beta> * unat m1)"
    unfolding a [symmetric] n [symmetric] by (simp add: algebra_simps)
  finally have "\<exists>(m0 :: u64) (m1 :: u64). \<beta> ^ 2 * acc_val acc
      = acc_val (t, ts) + wval a * (unat b0 + \<beta> * unat b1) + wval n * (unat m0 + \<beta> * unat m1)"
    by blast
  then show ?thesis
    using fin by (simp add: acc)
qed

lemma mont_row_cols_val:
  assumes "length t = length n" and "length a = length n" and "1 \<le> j" and "j \<le> length n"
    and "mont_row_cols n a bi m j (t, c1, c2) = (t', c1', c2')"
    and "drop j t = drop j t0" and "length t0 = length n"
    and "wval (take j t0) + wval (take j a) * unat bi + wval (take j n) * unat m
      = \<beta> * wval (take (j - 1) t) + \<beta> ^ j * (unat c1 + unat c2)"
  shows "length t' = length n \<and>
      wval t0 + wval a * unat bi + wval n * unat m
      = \<beta> * wval (take (length n - 1) t') + \<beta> ^ length n * (unat c1' + unat c2')"
  using assms
proof (induction "length n - j" arbitrary: j t c1 c2)
  case 0
  then show ?case by (simp add: mont_row_cols.simps)
next
  case (Suc k)
  then have j: "j < length n" by simp
  obtain s e1 where s: "mac (t ! j) (a ! j) bi c1 = (s, e1)" by fastforce
  obtain p e2 where p: "mac s m (n ! j) c2 = (p, e2)" by fastforce
  obtain i where i: "j = Suc i" using Suc.prems(3) by (metis Suc_le_D One_nat_def)
  have tj: "t ! j = t0 ! j"
    using Suc.prems(1,6,7) j by (metis Cons_nth_drop_Suc list.inject)
  have sum: "unat p + \<beta> * (unat e1 + unat e2)
      = unat (t0 ! j) + unat (a ! j) * unat bi + unat (n ! j) * unat m + (unat c1 + unat c2)"
    using mac_beta [OF s] mac_beta [OF p] tj by (simp add: algebra_simps)
  have out: "wval (take (j + 1 - 1) (t[j - 1 := p])) = wval (take (j - 1) t) + \<beta> ^ (j - 1) * unat p"
    using j Suc.prems(1,3) by (simp add: i take_Suc_conv_app_nth lval_append)
  have "wval (take (j + 1) t0) + wval (take (j + 1) a) * unat bi + wval (take (j + 1) n) * unat m
      = (wval (take j t0) + wval (take j a) * unat bi + wval (take j n) * unat m)
        + \<beta> ^ j * (unat (t0 ! j) + unat (a ! j) * unat bi + unat (n ! j) * unat m)"
    using j Suc.prems(1,2,7) by (simp add: lval_take_Suc algebra_simps)
  also have "\<dots> = \<beta> * wval (take (j - 1) t) + \<beta> ^ j * (unat p + \<beta> * (unat e1 + unat e2))"
    unfolding Suc.prems(8) sum by (simp add: algebra_simps)
  also have "\<dots> = \<beta> * wval (take (j + 1 - 1) (t[j - 1 := p])) + \<beta> ^ (j + 1) * (unat e1 + unat e2)"
    unfolding out by (simp add: i algebra_simps)
  finally have inv: "wval (take (j + 1) t0) + wval (take (j + 1) a) * unat bi
        + wval (take (j + 1) n) * unat m
      = \<beta> * wval (take (j + 1 - 1) (t[j - 1 := p])) + \<beta> ^ (j + 1) * (unat e1 + unat e2)" .
  have rest: "drop (j + 1) (t[j - 1 := p]) = drop (j + 1) t0"
  proof -
    have "drop (j + 1) (t[j - 1 := p]) = drop (j + 1) t" by (simp add: drop_update_cancel)
    also have "\<dots> = drop 1 (drop j t)" by simp
    also have "\<dots> = drop (j + 1) t0" by (simp add: Suc.prems(6))
    finally show ?thesis .
  qed
  show ?case
  proof (rule Suc.hyps(1) [of "j + 1" "t[j - 1 := p]" e1 e2])
    show "mont_row_cols n a bi m (j + 1) (t[j - 1 := p], e1, e2) = (t', c1', c2')"
      using Suc.prems(5) j by (simp add: mont_row_cols.simps [of n a bi m j] s p)
  qed (use Suc.hyps(2) Suc.prems j inv rest in simp_all)
qed

lemma mont_row_val:
  assumes "length t = length n" and "length a = length n" and "n \<noteq> []"
    and "np * (n ! 0) = - 1" and "mont_row n np a bi (t, ts) = acc"
  shows "length (fst acc) = length n \<and> (\<exists>m :: u64. \<beta> * acc_val acc =
      acc_val (t, ts) + wval a * unat bi + wval n * unat m)"
proof -
  obtain l where l: "length n = Suc l" using assms(3) by (cases n) auto
  obtain s0 c1 where s0: "mac (t ! 0) (a ! 0) bi 0 = (s0, c1)" by fastforce
  define m where "m = s0 * np"
  obtain z c2 where z: "mac s0 m (n ! 0) 0 = (z, c2)" by fastforce
  obtain t' c1' c2' where cols: "mont_row_cols n a bi m 1 (t, c1, c2) = (t', c1', c2')"
    by (metis surj_pair)
  obtain w ts' where w: "adc ts c1' c2' = (w, ts')" by fastforce
  have acc: "acc = (t'[length n - Suc 0 := w], ts')"
    using assms(5) s0 z cols w by (simp add: mont_row_def Let_def flip: m_def)
  have low: "\<beta> * unat c2 = unat s0 + unat m * unat (n ! 0)"
    using mac_low_cancel [OF assms(4)] z unfolding m_def by blast
  have hd: "wval (take 1 xs) = unat (xs ! 0)" if "length xs = Suc l" for xs :: uint
    using that lval_take_Suc [of 0 xs] by simp
  have start: "wval (take 1 t) + wval (take 1 a) * unat bi + wval (take 1 n) * unat m
      = \<beta> * wval (take (1 - 1) t) + \<beta> ^ 1 * (unat c1 + unat c2)"
    using mac_beta [OF s0] low l assms(1,2) by (simp only: hd) (simp add: algebra_simps)
  have fin: "length t' = length n \<and> wval t + wval a * unat bi + wval n * unat m
      = \<beta> * wval (take (length n - 1) t') + \<beta> ^ length n * (unat c1' + unat c2')"
    by (rule mont_row_cols_val [OF assms(1,2) order_refl _ cols refl assms(1) start])
      (simp add: l)
  have "t'[l := w] = take l t' @ [w]"
    using fin l by (intro nth_equalityI) (auto simp: nth_append nth_list_update less_Suc_eq)
  then have "\<beta> * acc_val acc = \<beta> * wval (take l t') + \<beta> ^ Suc l * (unat w + \<beta> * unat ts')"
    using fin l by (simp add: acc acc_val_def lval_append algebra_simps)
  also have "\<dots> = \<beta> * wval (take l t') + \<beta> ^ Suc l * (unat c1' + unat c2') + \<beta> ^ Suc l * unat ts"
    using adc_beta [OF w] by (simp add: algebra_simps)
  also have "\<dots> = wval t + wval a * unat bi + wval n * unat m + \<beta> ^ Suc l * unat ts"
    using fin l by simp
  finally have "\<beta> * acc_val acc = acc_val (t, ts) + wval a * unat bi + wval n * unat m"
    using assms(1) l by (simp add: acc_val_def)
  then show ?thesis
    using fin by (auto simp: acc)
qed

section \<open>The kernel computes a Montgomery product\<close>

lemma digit_step_bound:
  assumes "M < B" and "m < K"
  shows "M + B * m < B * (K :: nat)"
proof -
  have "M + B * m < B * Suc m" using assms(1) by simp
  also have "\<dots> \<le> B * K" using assms(2) by (intro mult_le_mono2) simp
  finally show ?thesis .
qed

lemma pair_digit_lt: "unat (x :: u64) + \<beta> * unat (y :: u64) < \<beta> ^ 2"
  using lval_lt [of "[x, y]"] by (simp add: power2_eq_square)

text \<open>After \<open>i\<close> rows the accumulator is \<open>(a b\<^sub>i + n M) / \<beta>\<^sup>i\<close>, with \<open>b\<^sub>i\<close> the low \<open>i\<close> limbs.\<close>

lemma mont_rows_val:
  assumes "length a = length n" and "length b = length n" and "n \<noteq> []" and "np * (n ! 0) = - 1"
    and "mont_rows n np a b i acc = acc'" and "i \<le> length n"
    and "length (fst acc) = length n" and "M < \<beta> ^ i"
    and "\<beta> ^ i * acc_val acc = wval a * wval (take i b) + wval n * M"
  shows "length (fst acc') = length n
    \<and> (\<exists>M < \<beta> ^ length n. \<beta> ^ length n * acc_val acc' = wval a * wval b + wval n * M)"
  using assms
proof (induction n np a b i acc arbitrary: M rule: mont_rows.induct)
  case (1 n np a b i acc)
  obtain t ts where acc: "acc = (t, ts)" by fastforce
  have lt: "length t = length n" using 1 acc by simp
  consider (pair) "i + 1 < length n" | (row) "i + 1 = length n" | (full) "i = length n"
    using "1.prems"(6) by linarith
  then show ?case
  proof cases
    case pair
    let ?x = "unat (b ! i) + \<beta> * unat (b ! (i + 1))"
    obtain acc1 where acc1: "mont_pair n np a (b ! i) (b ! (i + 1)) (t, ts) = acc1" by simp
    obtain m0 :: u64 and m1 :: u64 where l1: "length (fst acc1) = length n"
      and v: "\<beta> ^ 2 * acc_val acc1 = acc_val acc + wval a * ?x + wval n * (unat m0 + \<beta> * unat m1)"
      using mont_pair_val [OF lt "1.prems"(1) _ "1.prems"(4) acc1] pair acc by auto
    have b: "M + \<beta> ^ i * (unat m0 + \<beta> * unat m1) < \<beta> ^ (i + 2)"
      using digit_step_bound [OF "1.prems"(8) pair_digit_lt [of m0 m1]]
      by (simp add: power_add power2_eq_square ac_simps)
    have tk: "wval (take (i + 2) b) = wval (take i b) + \<beta> ^ i * ?x"
      using pair "1.prems"(2) lval_take_Suc [of i b] lval_take_Suc [of "Suc i" b]
      by (simp add: algebra_simps)
    have "\<beta> ^ (i + 2) * acc_val acc1 = \<beta> ^ i * (\<beta> ^ 2 * acc_val acc1)"
      by (simp add: power_add power2_eq_square)
    also have "\<dots> = \<beta> ^ i * acc_val acc + \<beta> ^ i * (wval a * ?x)
        + \<beta> ^ i * (wval n * (unat m0 + \<beta> * unat m1))"
      unfolding v by (simp only: distrib_left)
    also have "\<dots> = wval a * wval (take (i + 2) b) + wval n * (M + \<beta> ^ i * (unat m0 + \<beta> * unat m1))"
      unfolding tk "1.prems"(9) by (simp add: algebra_simps)
    finally have e: "\<beta> ^ (i + 2) * acc_val acc1 = wval a * wval (take (i + 2) b)
        + wval n * (M + \<beta> ^ i * (unat m0 + \<beta> * unat m1))" .
    have nx: "mont_rows n np a b (i + 2) acc1 = acc'"
      using "1.prems"(5) pair acc1 acc by (simp add: mont_rows.simps [of n np a b i])
    show ?thesis
      using "1.IH" [OF pair "1.prems"(1-4), of "M + \<beta> ^ i * (unat m0 + \<beta> * unat m1)"]
        acc acc1 nx l1 b e pair by auto
  next
    case row
    obtain acc1 where acc1: "mont_row n np a (b ! i) (t, ts) = acc1" by simp
    obtain m :: u64 where l1: "length (fst acc1) = length n"
      and v: "\<beta> * acc_val acc1 = acc_val acc + wval a * unat (b ! i) + wval n * unat m"
      using mont_row_val [OF lt "1.prems"(1,3,4) acc1] acc by auto
    have b: "M + \<beta> ^ i * unat m < \<beta> ^ length n"
      using digit_step_bound [OF "1.prems"(8) limb_lt [of m]] by (simp add: mult.commute flip: row)
    have tk: "wval b = wval (take i b) + \<beta> ^ i * unat (b ! i)"
      using row "1.prems"(2) by (intro lval_take_last) simp
    have "\<beta> ^ (i + 1) * acc_val acc1 = \<beta> ^ i * (\<beta> * acc_val acc1)" by simp
    also have "\<dots> = \<beta> ^ i * acc_val acc + \<beta> ^ i * (wval a * unat (b ! i)) + \<beta> ^ i * (wval n * unat m)"
      unfolding v by (simp only: distrib_left)
    also have "\<dots> = wval a * wval b + wval n * (M + \<beta> ^ i * unat m)"
      unfolding tk "1.prems"(9) by (simp add: algebra_simps)
    finally have "\<beta> ^ length n * acc_val acc1 = wval a * wval b + wval n * (M + \<beta> ^ i * unat m)"
      by (simp only: row)
    moreover have "acc' = acc1"
      using "1.prems"(5) row acc1 acc by (simp add: mont_rows.simps [of n np a b i] flip: row)
    ultimately show ?thesis using l1 b by blast
  next
    case full
    then have "acc' = acc" "take i b = b"
      using "1.prems"(2,5) by (simp_all add: mont_rows.simps [of n np a b "length n"])
    then show ?thesis
      using "1.prems"(7-9) full by auto
  qed
qed

lemma mask_map2:
  "length x = length y \<Longrightarrow>
    map2 (\<lambda>y x. y XOR (- of_bool c AND (x XOR y))) y x = (if c then x else (y :: uint))"
  by (induction x y rule: list_induct2) (simp_all add: word_mask_select)

lemma mont_select_eq:
  "length a = length b \<Longrightarrow> mont_select a b (of_bool c) = (if c then a else b)"
  by (induction a b rule: list_induct2) (simp_all add: mont_select_def word_mask_select)

lemma mod_if_double: "(V :: nat) < 2 * n \<Longrightarrow> (if V < n then V else V - n) = V mod n"
  by (simp add: le_mod_geq)

lemma mont_final_sub_val:
  assumes "length n \<le> length t"
    and V: "V = wval (take (length n) t) + \<beta> ^ length n * unat ts" and "V < 2 * wval n"
  shows "\<exists>r. mont_final_sub n t ts out = r @ drop (length n) out \<and> length r = length n
      \<and> wval r = V mod wval n"
proof -
  let ?t = "take (length n) t" and ?B = "\<beta> ^ length n"
  have lt: "length ?t = length n" using assms(1) by simp
  obtain d bo where d: "uint_sbb ?t n 0 = (d, bo)" by fastforce
  obtain x borrow where x: "sbb ts 0 bo = (x, borrow)" by fastforce
  have d1: "wval d + wval n = wval ?t + ?B * unat bo" "unat bo \<le> 1" "length d = length n"
    using uint_sbb_exact [OF d] lt by simp_all
  then have x1: "unat x + unat bo = unat ts + \<beta> * unat borrow" "unat borrow \<le> 1"
    using sbb_beta [OF x] by (simp_all add: limb_le_1_iff)
  have "(wval d + ?B * unat x) + wval n = wval ?t + ?B * (unat x + unat bo)"
    using d1(1) by (simp add: distrib_left)
  also have "\<dots> = V + ?B * \<beta> * unat borrow"
    unfolding x1(1) V by (simp add: distrib_left)
  finally have sub: "(wval d + ?B * unat x) + wval n = V + ?B * \<beta> * unat borrow" .
  have n: "wval n < ?B" by (rule lval_lt)
  have "wval (d @ [x]) < \<beta> ^ length (d @ [x])" by (rule lval_lt)
  then have dl: "wval d + ?B * unat x < ?B * \<beta>" using d1(3) by (simp add: lval_append mult.commute)
  have br: "borrow = of_bool (V < wval n)"
  proof (cases "unat borrow = 0")
    case True
    then show ?thesis using sub by (simp add: word_unat_eq_iff)
  next
    case False
    then have "unat borrow = 1" using x1(2) by simp
    then show ?thesis using sub dl by (simp add: word_unat_eq_iff)
  qed
  have "borrow XOR 1 = of_bool (\<not> V < wval n)" unfolding br by simp
  then have r: "mont_final_sub n t ts out = (if \<not> V < wval n then d else ?t) @ drop (length n) out"
    using d x d1(3) lt by (simp add: mont_final_sub_def mask_map2 Let_def)
  have z: "y + ?B * unat w < ?B \<Longrightarrow> w = 0" for y and w :: u64
    by (cases "unat w") (simp_all add: word_unat_eq_iff)
  have "wval (if \<not> V < wval n then d else ?t) = (if V < wval n then V else V - wval n)"
  proof (cases "V < wval n")
    case True
    then have "ts = 0" using n by (intro z [of "wval ?t"]) (simp add: V)
    then show ?thesis using True by (simp add: V)
  next
    case False
    then have e: "wval d + ?B * unat x = V - wval n" using sub br by simp
    then have "x = 0" using assms(3) n by (intro z [of "wval d"]) simp
    then show ?thesis using e False by simp
  qed
  then show ?thesis using r d1(3) lt mod_if_double [OF assms(3)] by auto
qed

lemma mont_mul_kernel_val:
  assumes "n \<noteq> []" and "np * (n ! 0) = - 1" and "length n \<le> length a" and "length n \<le> length b"
    and "wval (take (length n) a) * wval (take (length n) b) < wval n * \<beta> ^ length n"
  shows "\<exists>r. mont_mul_kernel n np a b out = r @ drop (length n) out \<and> length r = length n
      \<and> wval r < wval n
      \<and> (wval r * \<beta> ^ length n) mod wval n
        = (wval (take (length n) a) * wval (take (length n) b)) mod wval n"
proof -
  let ?l = "length n"
  obtain t ts where t: "mont_rows n np (take ?l a) (take ?l b) 0 (replicate ?l 0, 0) = (t, ts)"
    by fastforce
  obtain M where M: "length t = ?l" "M < \<beta> ^ ?l"
      "\<beta> ^ ?l * acc_val (t, ts) = wval (take ?l a) * wval (take ?l b) + wval n * M"
    using mont_rows_val [OF _ _ assms(1,2) t, of 0] assms(3,4) by (auto simp: acc_val_def)
  have "wval n * M \<le> wval n * \<beta> ^ ?l" using M(2) by (intro mult_le_mono2) simp
  then have "\<beta> ^ ?l * acc_val (t, ts) < \<beta> ^ ?l * (2 * wval n)"
    using assms(5) M(3) unfolding mult_2 distrib_left mult.commute [of "\<beta> ^ ?l" "wval n"] by linarith
  then have "acc_val (t, ts) < 2 * wval n" by simp
  then obtain r where r: "mont_final_sub n t ts out = r @ drop ?l out" "length r = ?l"
      "wval r = acc_val (t, ts) mod wval n"
    using mont_final_sub_val [of n t "acc_val (t, ts)" ts out] M(1) by (auto simp: acc_val_def)
  have "(wval r * \<beta> ^ ?l) mod wval n = (\<beta> ^ ?l * acc_val (t, ts)) mod wval n"
    unfolding r(3) mod_mult_left_eq by (simp only: mult.commute)
  also have "\<dots> = (wval (take ?l a) * wval (take ?l b)) mod wval n"
    unfolding M(3) by simp
  finally show ?thesis
    using r t assms(5) by (cases "wval n = 0") (auto simp: mont_mul_kernel_def)
qed

lemma add_mod_val:
  assumes "length a = length n" and "length b = length n" and "wval a + wval b < 2 * wval n"
  shows "length (add_mod n a b) = length n \<and> wval (add_mod n a b) = (wval a + wval b) mod wval n"
proof -
  obtain s c where s: "uint_adc a b 0 = (s, c)" by fastforce
  obtain d bo where d: "uint_sbb s n 0 = (d, bo)" by fastforce
  have s1: "wval s + \<beta> ^ length n * unat c = wval a + wval b" "length s = length n" "unat c \<le> 1"
    using uint_adc_exact [OF s] uint_adc_carry_le [OF s] assms(1,2) by simp_all
  note bo = uint_sbb_borrow [OF d s1(2)]
  have lt: "wval s < \<beta> ^ length n" "wval n < \<beta> ^ length n"
    using lval_lt [of s] lval_lt [of n] s1(2) by simp_all
  have cb: "c = of_bool (unat c = 1)" using s1(3) by (rule limb_bit_cases)
  let ?ge = "wval n \<le> wval a + wval b"
  have "(unat c = 1 \<or> wval n \<le> wval s) \<longleftrightarrow> ?ge"
    using s1 lt by (cases "unat c = 0") (auto simp: le_Suc_eq)
  then have "c OR (bo XOR 1) = of_bool ?ge"
    by (subst cb) (auto simp add: bo(1) not_less)
  then have r: "add_mod n a b = (if ?ge then d else s)"
    using s d bo(3) by (simp add: add_mod_def mont_select_eq)
  have "wval (add_mod n a b) = (if wval a + wval b < wval n then wval a + wval b
      else wval a + wval b - wval n)"
    unfolding r using bo(2) s1 lt assms(3) by (cases "unat c = 0") (auto simp: le_Suc_eq)
  then show ?thesis
    using r bo(3) s1(2) mod_if_double [OF assms(3)] by simp
qed

lemma sub_mod_val:
  assumes "length a = length n" and "length b = length n" and "wval a < wval n" and "wval b < wval n"
  shows "length (sub_mod n a b) = length n
      \<and> wval (sub_mod n a b) = (wval a + (wval n - wval b)) mod wval n"
proof -
  obtain d bo where d: "uint_sbb a b 0 = (d, bo)" by fastforce
  obtain w c where w: "uint_adc d n 0 = (w, c)" by fastforce
  note bo = uint_sbb_borrow [OF d]
  have ld: "length d = length n" using bo(3) assms(1,2) by simp
  have w1: "wval w + \<beta> ^ length n * unat c = wval d + wval n" "length w = length n" "unat c \<le> 1"
    using uint_adc_exact [OF w] uint_adc_carry_le [OF w] ld by simp_all
  have lt: "wval w < \<beta> ^ length n" "wval n < \<beta> ^ length n"
    using lval_lt [of w] lval_lt [of n] w1(2) by simp_all
  have r: "sub_mod n a b = (if wval a < wval b then w else d)"
    using w d bo(1) assms(1,2) ld w1(2) by (simp add: sub_mod_def mont_select_eq)
  show ?thesis
  proof (cases "wval a < wval b")
    case True
    then have "wval d + wval n = \<beta> ^ length n + (wval a + (wval n - wval b))"
      using bo(2) assms lt by simp
    then have "wval w = wval a + (wval n - wval b)"
      using w1 lt True assms(4) by (cases "unat c = 0") (auto simp: le_Suc_eq)
    then show ?thesis using True r w1(2) assms(4) by simp
  next
    case False
    then have "wval d = wval a + (wval n - wval b) - wval n"
      using bo(2) assms by simp
    then show ?thesis using False r ld assms(3,4) by (simp add: le_mod_geq)
  qed
qed

section \<open>The Montgomery domain\<close>

text \<open>
  What the exponentiation routines rely on: in a valid context \<open>m\<close> the product of two reduced
  values is reduced and is their product divided by \<open>R\<close>, where \<open>R\<close> is invertible modulo \<open>n\<close>.  The
  element that stands for \<open>v\<close> has the value \<open>v R mod n\<close>.
\<close>

locale montgomery_domain =
  fixes ctx :: "'m \<Rightarrow> bool" and elt :: "'m \<Rightarrow> 'a \<Rightarrow> bool" and val :: "'a \<Rightarrow> nat"
    and modulus :: "'m \<Rightarrow> nat" and radix :: "'m \<Rightarrow> nat"
    and mmul :: "'m \<Rightarrow> 'a \<Rightarrow> 'a \<Rightarrow> 'a"
  assumes coprime_radix: "ctx m \<Longrightarrow> coprime (radix m) (modulus m)"
    and elt_reduced: "ctx m \<Longrightarrow> elt m x \<Longrightarrow> val x < modulus m"
    and mmul_elt: "ctx m \<Longrightarrow> elt m x \<Longrightarrow> elt m y \<Longrightarrow> elt m (mmul m x y)"
    and mmul_val: "ctx m \<Longrightarrow> elt m x \<Longrightarrow> elt m y \<Longrightarrow>
      (val (mmul m x y) * radix m) mod modulus m = (val x * val y) mod modulus m"
begin

definition rep :: "'m \<Rightarrow> 'a \<Rightarrow> nat \<Rightarrow> bool" where
  "rep m x v \<longleftrightarrow> elt m x \<and> val x = (v * radix m) mod modulus m"

lemma radix_cancel:
  assumes "ctx m" and "(x * radix m) mod modulus m = (y * radix m) mod modulus m"
  shows "x mod modulus m = y mod modulus m"
proof -
  have "modulus m dvd y - x" if "x \<le> y" "(y * radix m) mod modulus m = (x * radix m) mod modulus m"
    for x y
  proof -
    have "modulus m dvd (y - x) * radix m"
      using that mod_eq_dvd_iff_nat [of "x * radix m" "y * radix m" "modulus m"]
      by (simp add: diff_mult_distrib)
    then show ?thesis
      using coprime_radix [OF assms(1)] by (simp add: coprime_dvd_mult_left_iff coprime_commute)
  qed
  then show ?thesis
    using assms(2) by (cases "x \<le> y") (metis mod_eq_dvd_iff_nat nat_le_linear)+
qed

lemma rep_mul:
  assumes "ctx m" and "rep m x u" and "rep m y v"
  shows "rep m (mmul m x y) (u * v)"
proof -
  let ?n = "modulus m" and ?R = "radix m"
  have e: "elt m x" "elt m y" using assms(2,3) by (simp_all add: rep_def)
  have "(val (mmul m x y) * ?R) mod ?n = ((u * ?R) mod ?n * ((v * ?R) mod ?n)) mod ?n"
    using mmul_val [OF assms(1) e] assms(2,3) by (simp add: rep_def)
  also have "\<dots> = (u * v * ?R * ?R) mod ?n"
    by (simp add: mod_mult_eq ac_simps)
  finally have "val (mmul m x y) mod ?n = (u * v * ?R) mod ?n"
    by (rule radix_cancel [OF assms(1)])
  moreover have "elt m (mmul m x y)" by (rule mmul_elt [OF assms(1) e])
  ultimately show ?thesis
    using elt_reduced [OF assms(1)] by (simp add: rep_def)
qed

lemma rep_cong: "rep m x u \<Longrightarrow> u mod modulus m = v mod modulus m \<Longrightarrow> rep m x v"
  by (simp add: rep_def) (metis mod_mult_left_eq)

text \<open>Multiplying by \<open>R\<^sup>2 mod n\<close> enters the domain, multiplying by one leaves it.\<close>

lemma rep_enter:
  assumes "ctx m" and "elt m x" and "elt m r2" and "val r2 = (radix m * radix m) mod modulus m"
  shows "rep m (mmul m x r2) (val x)"
proof -
  have "(val (mmul m x r2) * radix m) mod modulus m = (val x * radix m * radix m) mod modulus m"
    using mmul_val [OF assms(1-3)] assms(4) by (simp add: mod_mult_right_eq ac_simps)
  then have "val (mmul m x r2) mod modulus m = (val x * radix m) mod modulus m"
    by (rule radix_cancel [OF assms(1)])
  then show ?thesis
    using mmul_elt [OF assms(1-3)] elt_reduced [OF assms(1)] by (simp add: rep_def)
qed

lemma rep_leave:
  assumes "ctx m" and "rep m x v" and "elt m e" and "val e = 1"
  shows "elt m (mmul m x e)" and "val (mmul m x e) = v mod modulus m"
proof -
  have x: "elt m x" using assms(2) by (simp add: rep_def)
  show r: "elt m (mmul m x e)" by (rule mmul_elt [OF assms(1) x assms(3)])
  have "(val (mmul m x e) * radix m) mod modulus m = (v * radix m) mod modulus m"
    using mmul_val [OF assms(1) x assms(3)] assms(2,4) by (simp add: rep_def)
  then have "val (mmul m x e) mod modulus m = v mod modulus m"
    by (rule radix_cancel [OF assms(1)])
  then show "val (mmul m x e) = v mod modulus m"
    using elt_reduced [OF assms(1) r] by simp
qed

end

text \<open>The shape of a context: an odd modulus whose limbs from \<open>mm_limbs\<close> on are zero.\<close>

definition mont_shape :: "mont_modulus \<Rightarrow> bool" where
  "mont_shape m \<longleftrightarrow> 0 < mm_limbs m \<and> mm_limbs m \<le> length (mm_modulus m)
     \<and> list_all (\<lambda>x. x = 0) (drop (mm_limbs m) (mm_modulus m)) \<and> 1 < wval (mm_modulus m)
     \<and> odd (mm_modulus m ! 0) \<and> mm_n_prime m = - inv_mod_2_64 (mm_modulus m ! 0)"

definition mont_elt :: "mont_modulus \<Rightarrow> uint \<Rightarrow> bool" where
  "mont_elt m x \<longleftrightarrow> length x = length (mm_modulus m) \<and> wval x < wval (mm_modulus m)"

definition mont_radix :: "mont_modulus \<Rightarrow> nat" where
  "mont_radix m = \<beta> ^ mm_limbs m"

lemma mont_shape_take:
  assumes "mont_shape m"
  shows "wval (take (mm_limbs m) (mm_modulus m)) = wval (mm_modulus m)"
    and "wval (mm_modulus m) < mont_radix m"
proof -
  have "wval (mm_modulus m) = wval (take (mm_limbs m) (mm_modulus m) @ drop (mm_limbs m) (mm_modulus m))"
    by simp
  also have "\<dots> = wval (take (mm_limbs m) (mm_modulus m))"
    using assms lval_zeros unfolding lval_append by (simp add: mont_shape_def)
  finally show "wval (take (mm_limbs m) (mm_modulus m)) = wval (mm_modulus m)" by simp
  then show "wval (mm_modulus m) < mont_radix m"
    using lval_lt [of "take (mm_limbs m) (mm_modulus m)"] assms
    by (simp add: mont_shape_def mont_radix_def min_absorb2)
qed

lemma lval_take_small:
  assumes "wval xs < \<beta> ^ s" and "s \<le> length xs"
  shows "wval (take s xs) = wval (xs :: uint)"
proof -
  have e: "wval xs = wval (take s xs) + \<beta> ^ s * wval (drop s xs)"
    using assms(2) lval_append [of "take s xs" "drop s xs"] by simp
  then have "wval (drop s xs) = 0"
    using assms(1) by (cases "wval (drop s xs)") auto
  then show ?thesis using e by simp
qed

lemma even_unat: "even (unat x) \<longleftrightarrow> even (x :: u64)"
  using bit_unat [of x 0] by (simp add: bit_0)

lemma odd_lval: "xs \<noteq> [] \<Longrightarrow> odd (wval (xs :: uint)) \<longleftrightarrow> odd (xs ! 0)"
  by (cases xs) (simp_all add: \<beta>_def even_unat)

text \<open>The second operand may be any value below \<open>R\<close>: the residue folding of \<open>reduce\<close> uses that.\<close>

lemma mont_mul_wide_val:
  assumes m: "mont_shape m" and a: "length a = length (mm_modulus m)" and b: "length b = length (mm_modulus m)"
    and small: "wval a < mont_radix m" "wval b < mont_radix m"
    and ab: "wval a * wval b < wval (mm_modulus m) * mont_radix m"
  shows "mont_elt m (mont_mul m a b)
    \<and> (wval (mont_mul m a b) * mont_radix m) mod wval (mm_modulus m)
      = (wval a * wval b) mod wval (mm_modulus m)"
proof -
  let ?n = "take (mm_limbs m) (mm_modulus m)" and ?s = "mm_limbs m" and ?L = "length (mm_modulus m)"
  have sh: "0 < ?s" "?s \<le> ?L" "odd (mm_modulus m ! 0)" and np: "mm_n_prime m = - inv_mod_2_64 (mm_modulus m ! 0)"
    using m by (simp_all add: mont_shape_def)
  note n = mont_shape_take [OF m]
  have l: "length ?n = ?s" "?n \<noteq> []" using sh by auto
  have "mm_n_prime m * ?n ! 0 = - 1"
    using inv_mod_2_64_correct [OF sh(3)] sh(1) unfolding np by (simp add: mult.commute)
  moreover have tk: "wval (take ?s a) = wval a" "wval (take ?s b) = wval b"
    using a b small sh(2) by (auto simp: mont_radix_def intro!: lval_take_small)
  ultimately obtain r where r: "mont_mul m a b = r @ drop ?s (replicate ?L 0)" "length r = ?s"
      "wval r < wval (mm_modulus m)"
      "(wval r * \<beta> ^ ?s) mod wval (mm_modulus m) = (wval a * wval b) mod wval (mm_modulus m)"
    using mont_mul_kernel_val [of ?n "mm_n_prime m" a b "replicate ?L 0"] l n(1) a b sh(2) ab
    unfolding mont_mul_def mont_radix_def by auto
  have "wval (mont_mul m a b) = wval r" unfolding r(1) lval_append by (simp add: lval_zeros list_all_iff)
  then show ?thesis
    using r sh(2) by (simp add: mont_elt_def mont_radix_def)
qed

lemma mont_mul_val:
  assumes m: "mont_shape m" and a: "mont_elt m a" and b: "mont_elt m b"
  shows "mont_elt m (mont_mul m a b)
    \<and> (wval (mont_mul m a b) * mont_radix m) mod wval (mm_modulus m)
      = (wval a * wval b) mod wval (mm_modulus m)"
  using assms mont_shape_take(2) [OF m]
  by (intro mont_mul_wide_val) (auto simp: mont_elt_def intro!: mult_strict_mono)

interpretation mont: montgomery_domain mont_shape mont_elt wval "\<lambda>m. wval (mm_modulus m)" mont_radix mont_mul
proof
  show "coprime (mont_radix m) (wval (mm_modulus m))" if "mont_shape m" for m
  proof -
    have "odd (wval (mm_modulus m))"
      using that odd_lval [of "mm_modulus m"] by (cases "mm_modulus m") (simp_all add: mont_shape_def)
    then show ?thesis
      unfolding mont_radix_def \<beta>_def by (intro coprime_power_left_iff [THEN iffD2] disjI1) simp
  qed
qed (simp_all add: mont_elt_def mont_mul_val [unfolded mont_elt_def])

section \<open>Construction of a context\<close>

lemma significant_limbs_shape:
  assumes "0 < k" and "significant_limbs n k = s"
  shows "0 < s \<and> s \<le> k \<and> (\<forall>i. s \<le> i \<longrightarrow> i < k \<longrightarrow> n ! i = 0) \<and> (1 < s \<longrightarrow> n ! (s - 1) \<noteq> 0)"
  using assms
proof (induction k)
  case (Suc k)
  show ?case
  proof (cases "0 < k \<and> n ! k = 0")
    case True
    then show ?thesis using Suc by (auto simp: less_Suc_eq)
  next
    case False
    then show ?thesis using Suc.prems by auto
  qed
qed simp

lemma add_mod_times_val:
  assumes "length x = length n" and "wval x < wval n"
  shows "length (add_mod_times k n x) = length n \<and> wval (add_mod_times k n x) = (2 ^ k * wval x) mod wval n"
  using assms
proof (induction k arbitrary: x)
  case (Suc k)
  have v: "length (add_mod n x x) = length n" "wval (add_mod n x x) = (2 * wval x) mod wval n"
    using add_mod_val [of x n x] Suc.prems by (simp_all add: mult_2)
  then show ?case
    using Suc.IH [OF v(1)] Suc.prems(2) by (simp add: mod_mult_right_eq ac_simps)
qed simp

lemma mont_sqr_times_rep:
  assumes "mont_shape m" and "mont.rep m x (2 ^ e)"
  shows "mont.rep m (mont_sqr_times k m x) (2 ^ (2 ^ k * e))"
  using assms(2)
proof (induction k arbitrary: x e)
  case (Suc k)
  have "mont.rep m (mont_mul m x x) (2 ^ (2 * e))"
    using mont.rep_mul [OF assms(1) Suc.prems Suc.prems] by (simp add: mult_2 power_add)
  then show ?case
    using Suc.IH by (fastforce simp: ac_simps)
qed simp

definition mont_ok :: "mont_modulus \<Rightarrow> bool" where
  "mont_ok m \<longleftrightarrow> mont_shape m \<and> mont_elt m (mm_r2 m)
     \<and> wval (mm_r2 m) = (mont_radix m * mont_radix m) mod wval (mm_modulus m)"

lemma lval_single_bit:
  assumes "k div 64 < l"
  shows "wval ((replicate l 0)[k div 64 := push_bit (k mod 64) 1] :: uint) = 2 ^ k"
proof -
  have "(2 :: nat) ^ k = 2 ^ (64 * (k div 64) + k mod 64)" by simp
  also have "\<dots> = \<beta> ^ (k div 64) * 2 ^ (k mod 64)" by (simp only: power_add power_mult \<beta>_def)
  finally have "(2 :: nat) ^ k = \<beta> ^ (k div 64) * 2 ^ (k mod 64)" .
  moreover have "unat (push_bit (k mod 64) 1 :: u64) = 2 ^ (k mod 64)"
  proof -
    have "(2 :: nat) ^ (k mod 64) < 2 ^ 64" by (rule power_strict_increasing) simp_all
    then show ?thesis unfolding unat_push_bit by (simp only: unsigned_1 mult_1 len_num1 len_bit0 mod_less)
        simp
  qed
  ultimately show ?thesis
    using assms lval_list_update [of "k div 64" "replicate l 0" "push_bit (k mod 64) 1"]
    by (simp add: lval_zeros list_all_iff)
qed

lemma with_shape_ok:
  assumes "0 < s" and "s \<le> length n" and "list_all (\<lambda>x. x = 0) (drop s n)" and "odd (n ! 0)"
    and "0 < bits" and "bits \<le> 64 * s" and "2 ^ (bits - 1) < wval n"
  shows "mont_ok (with_shape n s bits)"
proof -
  define m where "m = \<lparr>mm_modulus = n, mm_n_prime = - inv_mod_2_64 (n ! 0),
    mm_r2 = uint_zero (length n), mm_limbs = s\<rparr>"
  let ?k = "64 * s - bits + 1 + s"
  define x where "x = add_mod_times ?k n ((replicate (length n) 0)[(bits - 1) div 64 := push_bit ((bits - 1) mod 64) 1])"
  have sh: "mont_shape m"
    using assms le_less_trans [OF one_le_power assms(7)] by (simp add: m_def mont_shape_def)
  have start: "wval ((replicate (length n) 0)[(bits - 1) div 64 := push_bit ((bits - 1) mod 64) 1] :: uint)
      = 2 ^ (bits - 1)"
    using assms(1,2,5,6) by (intro lval_single_bit) linarith
  have R: "mont_radix m = 2 ^ (64 * s)" by (simp only: mont_radix_def m_def \<beta>_def power_mult mont_modulus.simps)
  have "2 ^ ?k * 2 ^ (bits - 1) = (2 :: nat) ^ (64 * s + s)"
    unfolding power_add [symmetric] using assms(5,6) by (intro arg_cong [where f = "(^) 2"]) simp
  then have e: "2 ^ ?k * 2 ^ (bits - 1) = 2 ^ s * mont_radix m"
    by (simp only: R power_add mult.commute)
  have "wval x = (2 ^ s * mont_radix m) mod wval n" "length x = length n"
    using add_mod_times_val [OF _ assms(7) [folded start], of ?k]
    unfolding start e x_def by simp_all
  moreover have "0 < wval n" using assms(7) by simp
  ultimately have "mont.rep m x (2 ^ s)"
    by (simp add: mont.rep_def mont_elt_def m_def)
  then have "mont.rep m (mont_sqr_times 6 m x) (2 ^ (64 * s))"
    using mont_sqr_times_rep [OF sh, of x s 6] by simp
  then have "mont_elt m (mont_sqr_times 6 m x)"
      "wval (mont_sqr_times 6 m x) = (mont_radix m * mont_radix m) mod wval n"
    unfolding mont.rep_def R [symmetric] by (simp_all add: m_def)
  then have "mont_ok (m\<lparr>mm_r2 := mont_sqr_times 6 m x\<rparr>)"
    using sh by (simp add: mont_ok_def mont_shape_def mont_elt_def mont_radix_def m_def)
  moreover have "with_shape n s bits = m\<lparr>mm_r2 := mont_sqr_times 6 m x\<rparr>"
    by (simp add: with_shape_def x_def m_def Let_def)
  ultimately show ?thesis by simp
qed

lemma limb_low_bit: "(x :: u64) AND 1 = 1 \<longleftrightarrow> odd x"
  by (simp add: and_one_eq odd_iff_mod_2_eq_one)

lemma mont_new_ok:
  assumes "mont_new n = Some m" and "1 < wval n"
  shows "mont_ok m" and "mm_modulus m = n"
proof -
  have ne: "n \<noteq> []" using assms(2) by auto
  define s where "s = significant_limbs n (length n)"
  define lz where "lz = leading_zeros (n ! (s - 1))"
  have odd: "odd (n ! 0)" and m: "m = with_shape n s (64 * s - lz)"
    using assms(1) by (auto simp: mont_new_def limb_low_bit s_def lz_def Let_def split: if_splits)
  have s: "0 < s" "s \<le> length n" "\<forall>i. s \<le> i \<longrightarrow> i < length n \<longrightarrow> n ! i = 0" "1 < s \<longrightarrow> n ! (s - 1) \<noteq> 0"
    using significant_limbs_shape [of "length n" n s] ne s_def by auto
  have z: "list_all (\<lambda>x. x = 0) (drop s n)" using s(2,3) by (simp add: list_all_length)
  have top: "n ! (s - 1) \<noteq> 0" using s(1,4) odd by (cases "s = 1") auto
  note lb = leading_zeros_bounds [OF top, folded lz_def]
  have "wval n = wval (take s n)"
    using lval_append [of "take s n" "drop s n"] lval_zeros [OF z] by simp
  also have "\<dots> = wval (take (s - 1) n) + \<beta> ^ (s - 1) * unat (n ! (s - 1))"
    using lval_take_Suc [of "s - 1" n] s(1,2) by simp
  finally have "\<beta> ^ (s - 1) * 2 ^ (63 - lz) \<le> wval n"
    using mult_le_mono2 [OF lb(2), of "\<beta> ^ (s - 1)"] by linarith
  moreover have "\<beta> ^ (s - 1) * 2 ^ (63 - lz) = 2 ^ (64 * (s - 1) + (63 - lz))"
    by (simp only: \<beta>_def power_add power_mult)
  moreover have "64 * (s - 1) + (63 - lz) = 64 * s - lz - 1" using lb(1) s(1) by simp
  ultimately have le: "2 ^ (64 * s - lz - 1) \<le> wval n" by (simp only:)
  moreover have "2 ^ (64 * s - lz - 1) \<noteq> wval n"
  proof
    assume e: "2 ^ (64 * s - lz - 1) = wval n"
    then have "64 * s - lz - 1 \<noteq> 0" using assms(2) by (metis less_irrefl power_0)
    then have "even (2 ^ (64 * s - lz - 1) :: nat)" by simp
    then show False using odd odd_lval [OF ne] unfolding e by simp
  qed
  ultimately have "2 ^ (64 * s - lz - 1) < wval n" by simp
  then show "mont_ok m"
    unfolding m using s(1,2) z odd lb(1) by (intro with_shape_ok) simp_all
  show "mm_modulus m = n" unfolding m by (simp add: with_shape_def Let_def)
qed

lemma mont_new_odd:
  assumes "odd (wval n)" and "1 < wval n"
  obtains m where "mont_new n = Some m" and "mont_ok m" and "mm_modulus m = n"
proof -
  have "n \<noteq> []" using assms(2) by auto
  then obtain m where "mont_new n = Some m"
    using assms(1) odd_lval [of n] by (auto simp: mont_new_def limb_low_bit Let_def)
  then show ?thesis using that mont_new_ok [OF _ assms(2)] by blast
qed

lemma mont_elt_one: "mont_shape m \<Longrightarrow> mont_elt m (uint_one (length (mm_modulus m)))
    \<and> wval (uint_one (length (mm_modulus m))) = 1"
  by (cases "mm_modulus m") (auto simp: mont_elt_def mont_shape_def uint_one_def uint_from_u64_def
      lval_zeros list_all_iff)

lemma to_mont_rep: "mont_ok m \<Longrightarrow> mont_elt m x \<Longrightarrow> mont.rep m (to_mont m x) (wval x)"
  unfolding to_mont_def mont_ok_def by (blast intro: mont.rep_enter)

lemma from_mont_rep:
  assumes "mont_ok m" and "mont.rep m x v"
  shows "mont_elt m (from_mont m x)" and "wval (from_mont m x) = v mod wval (mm_modulus m)"
  using assms mont_elt_one [of m] mont.rep_leave [of m x v]
  by (simp_all add: from_mont_def mont_ok_def)

lemma mul_mod_val:
  assumes "mont_ok m" and "mont_elt m a" and "mont_elt m b"
  shows "mont_elt m (mul_mod m a b)"
    and "wval (mul_mod m a b) = (wval a * wval b) mod wval (mm_modulus m)"
proof -
  have sh: "mont_shape m" using assms(1) by (simp add: mont_ok_def)
  let ?t = "mont_mul m a b"
  have t: "mont_elt m ?t" by (rule mont.mmul_elt [OF sh assms(2,3)])
  have "mont.rep m (mul_mod m a b) (wval ?t)"
    unfolding mul_mod_def Let_def by (rule to_mont_rep [OF assms(1) t, unfolded to_mont_def])
  then show "mont_elt m (mul_mod m a b)"
    and "wval (mul_mod m a b) = (wval a * wval b) mod wval (mm_modulus m)"
    using mont.mmul_val [OF sh assms(2,3)] by (simp_all add: mont.rep_def)
qed

text \<open>
  C5.  \<open>MontModulus::new\<close> accepts every odd modulus above one, and \<open>mul_mod\<close> in the context it builds is
  multiplication modulo it: two reduced operands give the reduced product, at any limb count.
\<close>

theorem mont_new_mul_mod:
  assumes "odd (wval n)" and "1 < wval n" and "length a = length n" and "length b = length n"
    and "wval a < wval n" and "wval b < wval n"
  shows "\<exists>m. mont_new n = Some m \<and> length (mul_mod m a b) = length n
    \<and> wval (mul_mod m a b) = (wval a * wval b) mod wval n"
proof -
  obtain m where m: "mont_new n = Some m" "mont_ok m" "mm_modulus m = n"
    using assms(1,2) by (rule mont_new_odd)
  then show ?thesis using mul_mod_val [OF m(2), of a b] assms(3-) by (simp add: mont_elt_def)
qed

theorem mont_new_mul_mod_witness:
  "\<exists>m. mont_new [0xFFFFFFFFFFFFFFC5, 7, 0] = Some m
    \<and> length (mul_mod m [3, 5, 0] [9, 6, 0]) = length [0xFFFFFFFFFFFFFFC5, 7, 0 :: u64]
    \<and> wval (mul_mod m [3, 5, 0] [9, 6, 0]) = (wval [3, 5, 0 :: u64] * wval [9, 6, 0 :: u64])
        mod wval [0xFFFFFFFFFFFFFFC5, 7, 0 :: u64]"
  using mont_new_mul_mod [of "[0xFFFFFFFFFFFFFFC5, 7, 0]" "[3, 5, 0]" "[9, 6, 0]"] by simp

text \<open>
  C19.  Entering the Montgomery domain and leaving it gives back every reduced value, and
  \<open>MontModulus::new\<close> refuses an even modulus.
\<close>

theorem to_from_mont:
  assumes "1 < wval n" and "length x = length n" and "wval x < wval n"
  shows "case mont_new n of Some m \<Rightarrow> odd (wval n) \<and> from_mont m (to_mont m x) = x
    | None \<Rightarrow> even (wval n)"
proof (cases "mont_new n")
  case None
  moreover have "n \<noteq> []" using assms(1) by auto
  ultimately show ?thesis
    using odd_lval [of n] by (auto simp: mont_new_def limb_low_bit Let_def split: if_splits)
next
  case (Some m)
  note ok = mont_new_ok [OF Some assms(1)]
  have x: "mont_elt m x" using assms(2,3) by (simp add: mont_elt_def ok(2))
  note r = from_mont_rep [OF ok(1) to_mont_rep [OF ok(1) x]]
  have "from_mont m (to_mont m x) = x"
    using r assms(2,3) by (intro wval_inject) (simp_all add: ok(2) mont_elt_def)
  moreover have "odd (wval n)"
  proof -
    have "n \<noteq> []" "odd (n ! 0)"
      using ok assms(1) by (auto simp: mont_ok_def mont_shape_def)
    then show ?thesis using odd_lval by blast
  qed
  ultimately show ?thesis using Some by simp
qed

theorem to_from_mont_witness:
  "case mont_new [0xFFFFFFFFFFFFFFC5, 7] of Some m \<Rightarrow> odd (wval [0xFFFFFFFFFFFFFFC5, 7 :: u64])
      \<and> from_mont m (to_mont m [3, 5]) = [3, 5]
    | None \<Rightarrow> even (wval [0xFFFFFFFFFFFFFFC5, 7 :: u64])"
  using to_from_mont [of "[0xFFFFFFFFFFFFFFC5, 7]" "[3, 5]"] by simp

end
