(* ===== verification/MontSqr.thy ===== *)
theory MontSqr
imports Mont
begin

unbundle bit_operations_syntax

text \<open>
  The squaring kernel of \<open>src/bignum/montgomery.rs\<close>: the off-diagonal triangle two rows at a time, its
  doubling, the diagonal, and the reduction of the double-width product two rows per pass.  The
  scratch array of the source is cleared on entry, so it is local to the model.
\<close>

section \<open>The kernel\<close>

function tri_cols :: "uint \<Rightarrow> nat \<Rightarrow> u64 \<Rightarrow> u64 \<Rightarrow> nat \<Rightarrow> uint \<times> u64 \<times> u64 \<Rightarrow> uint \<times> u64 \<times> u64" where
  "tri_cols a i ai ai1 j (p, c0, c1) =
     (if j < length a then
        (let (s, cc0) = mac (p ! (i + j)) ai (a ! j) c0;
             (s2, cc1) = mac s ai1 (a ! (j - 1)) c1
         in tri_cols a i ai ai1 (j + 1) (p[i + j := s2], cc0, cc1))
      else (p, c0, c1))"
  by pat_completeness auto
termination
  by (relation "measure (\<lambda>(a, i, ai, ai1, j, st). length a - j)") auto

declare tri_cols.simps [simp del]

definition tri_pair :: "uint \<Rightarrow> nat \<Rightarrow> uint \<Rightarrow> uint" where
  "tri_pair a i p =
     (let l = length a; ai = a ! i; ai1 = a ! (i + 1);
          (s, c0) = mac (p ! (2 * i + 1)) ai ai1 0;
          p = p[2 * i + 1 := s];
          (p, c0) = (if i + 2 < l then
              (let (s, cc0) = mac (p ! (2 * i + 2)) ai (a ! (i + 2)) c0 in (p[2 * i + 2 := s], cc0))
            else (p, c0));
          (p, c0, c1) = tri_cols a i ai ai1 (i + 3) (p, c0, 0)
      in if i + 3 \<le> l then
           (let (s2, cc1) = mac c0 ai1 (a ! (l - 1)) c1 in p[i + l := s2, i + l + 1 := cc1])
         else p[i + l := c0])"

function triangle :: "uint \<Rightarrow> nat \<Rightarrow> uint \<Rightarrow> uint" where
  "triangle a i p = (if i + 1 < length a then triangle a (i + 2) (tri_pair a i p) else p)"
  by pat_completeness auto
termination
  by (relation "measure (\<lambda>(a, i, p). length a - i)") auto

declare triangle.simps [simp del]

fun double_limbs :: "uint \<Rightarrow> u64 \<Rightarrow> uint" where
  "double_limbs [] carry = []"
| "double_limbs (w # p) carry = (push_bit 1 w OR carry) # double_limbs p (drop_bit 63 w)"

function diagonal :: "uint \<Rightarrow> nat \<Rightarrow> uint \<times> u64 \<Rightarrow> uint \<times> u64" where
  "diagonal a i (p, carry) =
     (if i < length a then
        (let (s, c) = mac (p ! (2 * i)) (a ! i) (a ! i) carry;
             p = p[2 * i := s];
             (s, c2) = adc (p ! (2 * i + 1)) c 0
         in diagonal a (i + 1) (p[2 * i + 1 := s], c2))
      else (p, carry))"
  by pat_completeness auto
termination
  by (relation "measure (\<lambda>(a, i, st). length a - i)") auto

declare diagonal.simps [simp del]

function red_cols :: "uint \<Rightarrow> nat \<Rightarrow> u64 \<Rightarrow> u64 \<Rightarrow> nat \<Rightarrow> uint \<times> u64 \<times> u64 \<Rightarrow> uint \<times> u64 \<times> u64" where
  "red_cols n i m0 m1 j (p, c0, c1) =
     (if j < length n then
        (let (s, cc) = mac (p ! (i + j)) m0 (n ! j) c0;
             (s2, cc1) = mac s m1 (n ! (j - 1)) c1
         in red_cols n i m0 m1 (j + 1) (p[i + j := s2], cc, cc1))
      else (p, c0, c1))"
  by pat_completeness auto
termination
  by (relation "measure (\<lambda>(n, i, m0, m1, j, st). length n - j)") auto

declare red_cols.simps [simp del]

definition red_pair :: "uint \<Rightarrow> u64 \<Rightarrow> nat \<Rightarrow> uint \<times> u64 \<Rightarrow> uint \<times> u64" where
  "red_pair n np i st =
     (let (p, hi) = st; l = length n;
          m0 = p ! i * np;
          (_, c0) = mac (p ! i) m0 (n ! 0) 0;
          (s, c0) = mac (p ! (i + 1)) m0 (n ! 1) c0;
          m1 = s * np;
          (_, c1) = mac s m1 (n ! 0) 0;
          (p, c0, c1) = red_cols n i m0 m1 2 (p, c0, c1);
          (s, sh) = adc (p ! (i + l)) c0 hi;
          (s2, cc1) = mac s m1 (n ! (l - 1)) c1;
          p = p[i + l := s2];
          (s3, hi) = adc (p ! (i + l + 1)) cc1 sh
      in (p[i + l + 1 := s3], hi))"

function red_row_cols :: "uint \<Rightarrow> nat \<Rightarrow> u64 \<Rightarrow> nat \<Rightarrow> uint \<times> u64 \<Rightarrow> uint \<times> u64" where
  "red_row_cols n i m j (p, carry) =
     (if j < length n then
        (let (s, c) = mac (p ! (i + j)) m (n ! j) carry
         in red_row_cols n i m (j + 1) (p[i + j := s], c))
      else (p, carry))"
  by pat_completeness auto
termination
  by (relation "measure (\<lambda>(n, i, m, j, st). length n - j)") auto

declare red_row_cols.simps [simp del]

definition red_row :: "uint \<Rightarrow> u64 \<Rightarrow> nat \<Rightarrow> uint \<times> u64 \<Rightarrow> uint \<times> u64" where
  "red_row n np i st =
     (let (p, hi) = st; l = length n;
          m = p ! i * np;
          (p, carry) = red_row_cols n i m 0 (p, 0);
          (s, c) = adc (p ! (i + l)) carry hi
      in (p[i + l := s], c))"

function red_rows :: "uint \<Rightarrow> u64 \<Rightarrow> nat \<Rightarrow> uint \<times> u64 \<Rightarrow> uint \<times> u64" where
  "red_rows n np i st =
     (if i + 1 < length n then red_rows n np (i + 2) (red_pair n np i st)
      else if i < length n then red_row n np i st
      else st)"
  by pat_completeness auto
termination
  by (relation "measure (\<lambda>(n, np, i, st). length n - i)") auto

declare red_rows.simps [simp del]

definition mont_sqr_kernel :: "uint \<Rightarrow> u64 \<Rightarrow> uint \<Rightarrow> uint \<Rightarrow> uint" where
  "mont_sqr_kernel n np a out =
     (let l = length n;
          a = take l a;
          p = triangle a 0 (replicate (2 * l) 0);
          p = double_limbs p 0;
          (p, _) = diagonal a 0 (p, 0);
          (p, hi) = red_rows n np 0 (p, 0)
      in mont_final_sub n (drop l p) hi out)"

definition mont_sqr :: "mont_modulus \<Rightarrow> uint \<Rightarrow> uint" where
  "mont_sqr self a =
     mont_sqr_kernel (take (mm_limbs self) (mm_modulus self)) (mm_n_prime self) a
       (replicate (length (mm_modulus self)) 0)"

section \<open>The triangle\<close>

lemma tri_cols_val:
  assumes "1 \<le> j" and "j \<le> length a" and "i + length a \<le> length p"
    and "tri_cols a i ai ai1 j (p, c0, c1) = (p', c0', c1')"
  shows "length p' = length p \<and> drop (i + length a) p' = drop (i + length a) p
    \<and> wval p' + \<beta> ^ (i + length a) * (unat c0' + unat c1')
        + \<beta> ^ i * (unat ai * wval (take j a)) + \<beta> ^ (i + 1) * (unat ai1 * wval (take (j - 1) a))
      = wval p + \<beta> ^ (i + j) * (unat c0 + unat c1)
        + \<beta> ^ i * (unat ai * wval a) + \<beta> ^ (i + 1) * (unat ai1 * wval (take (length a - 1) a))"
  using assms
proof (induction "length a - j" arbitrary: j p c0 c1)
  case 0
  then show ?case by (simp add: tri_cols.simps [of a i ai ai1 j])
next
  case (Suc k)
  then have j: "j < length a" by simp
  obtain s e0 where s: "mac (p ! (i + j)) ai (a ! j) c0 = (s, e0)" by fastforce
  obtain r e1 where r: "mac s ai1 (a ! (j - Suc 0)) c1 = (r, e1)" by fastforce
  let ?p = "p[i + j := r]"
  have nx: "tri_cols a i ai ai1 (j + 1) (?p, e0, e1) = (p', c0', c1')"
    using Suc.prems(4) j by (simp add: tri_cols.simps [of a i ai ai1 j] s r)
  have IH: "length p' = length ?p \<and> drop (i + length a) p' = drop (i + length a) ?p
    \<and> wval p' + \<beta> ^ (i + length a) * (unat c0' + unat c1')
        + \<beta> ^ i * (unat ai * wval (take (j + 1) a)) + \<beta> ^ (i + 1) * (unat ai1 * wval (take (j + 1 - 1) a))
      = wval ?p + \<beta> ^ (i + (j + 1)) * (unat e0 + unat e1)
        + \<beta> ^ i * (unat ai * wval a) + \<beta> ^ (i + 1) * (unat ai1 * wval (take (length a - 1) a))"
    using Suc.hyps(2) Suc.prems(3) j by (intro Suc.hyps(1) nx) simp_all
  have sum: "unat r + \<beta> * (unat e0 + unat e1)
      = unat (p ! (i + j)) + unat ai * unat (a ! j) + unat ai1 * unat (a ! (j - 1)) + (unat c0 + unat c1)"
    using mac_beta [OF s] mac_beta [OF r] by (simp add: algebra_simps)
  have up: "wval ?p + \<beta> ^ (i + j) * unat (p ! (i + j)) = wval p + \<beta> ^ (i + j) * unat r"
    using j Suc.prems(3) by (intro lval_list_update) simp
  have t1: "wval (take (j + 1) a) = wval (take j a) + \<beta> ^ j * unat (a ! j)"
    using j lval_take_Suc [of j a] by simp
  obtain i' where i': "j = Suc i'" using Suc.prems(1) by (metis Suc_le_D One_nat_def)
  have t2: "\<beta> ^ (i + 1) * (unat ai1 * wval (take j a))
      = \<beta> ^ (i + 1) * (unat ai1 * wval (take (j - 1) a)) + \<beta> ^ (i + j) * (unat ai1 * unat (a ! (j - 1)))"
    using j lval_take_Suc [of i' a] by (simp add: i' algebra_simps power_add)
  have "\<beta> ^ (i + (j + 1)) * (unat e0 + unat e1) + \<beta> ^ (i + j) * unat r
      = \<beta> ^ (i + j) * (unat r + \<beta> * (unat e0 + unat e1))" by (simp add: algebra_simps)
  also have "\<dots> = \<beta> ^ (i + j) * unat (p ! (i + j)) + \<beta> ^ i * (unat ai * (\<beta> ^ j * unat (a ! j)))
      + \<beta> ^ (i + j) * (unat ai1 * unat (a ! (j - 1))) + \<beta> ^ (i + j) * (unat c0 + unat c1)"
    unfolding sum by (simp add: algebra_simps power_add)
  finally have fin: "\<beta> ^ (i + (j + 1)) * (unat e0 + unat e1) + \<beta> ^ (i + j) * unat r
      = \<beta> ^ (i + j) * unat (p ! (i + j)) + \<beta> ^ i * (unat ai * (\<beta> ^ j * unat (a ! j)))
      + \<beta> ^ (i + j) * (unat ai1 * unat (a ! (j - 1))) + \<beta> ^ (i + j) * (unat c0 + unat c1)" .
  show ?case
  proof (intro conjI)
    show "wval p' + \<beta> ^ (i + length a) * (unat c0' + unat c1')
        + \<beta> ^ i * (unat ai * wval (take j a)) + \<beta> ^ (i + 1) * (unat ai1 * wval (take (j - 1) a))
      = wval p + \<beta> ^ (i + j) * (unat c0 + unat c1)
        + \<beta> ^ i * (unat ai * wval a) + \<beta> ^ (i + 1) * (unat ai1 * wval (take (length a - 1) a))"
      using IH t2 up fin unfolding t1 distrib_left add_diff_cancel_right' by linarith
  qed (use IH j in \<open>simp_all add: drop_update_cancel\<close>)
qed

lemma lval_set_zero:
  "i < length p \<Longrightarrow> p ! i = 0 \<Longrightarrow> wval (p[i := v]) = wval p + \<beta> ^ i * unat (v :: u64)"
  using lval_list_update [of i p v] by simp

lemma drop_zero_nth: "list_all (\<lambda>x. x = 0) (drop k p) \<Longrightarrow> k \<le> j \<Longrightarrow> j < length p \<Longrightarrow> p ! j = (0 :: u64)"
  by (auto simp: list_all_length dest!: spec [of _ "j - k"])

lemma drop_zero_mono: "list_all P (drop k p) \<Longrightarrow> k \<le> j \<Longrightarrow> list_all P (drop j p)"
  by (auto simp: list_all_iff dest: set_drop_subset_set_drop [THEN subsetD])

lemma tri_first:
  assumes "i + 1 < length a" and "length p = 2 * length a" and "mac (p ! (2 * i + 1)) (a ! i) (a ! (i + 1)) 0 = (s, c0)"
  shows "wval (p[2 * i + 1 := s]) + \<beta> ^ (2 * i + 2) * unat c0
      = wval p + \<beta> ^ (2 * i + 1) * (unat (a ! i) * unat (a ! (i + 1)))"
proof -
  have "wval (p[2 * i + 1 := s]) + \<beta> ^ (2 * i + 1) * unat (p ! (2 * i + 1))
      = wval p + \<beta> ^ (2 * i + 1) * unat s"
    using assms(1,2) by (intro lval_list_update) simp
  moreover have "\<beta> ^ (2 * i + 1) * unat s + \<beta> ^ (2 * i + 2) * unat c0
      = \<beta> ^ (2 * i + 1) * (unat s + \<beta> * unat c0)" by (simp add: algebra_simps)
  moreover have "\<dots> = \<beta> ^ (2 * i + 1) * unat (p ! (2 * i + 1))
      + \<beta> ^ (2 * i + 1) * (unat (a ! i) * unat (a ! (i + 1)))"
    using mac_beta [OF assms(3)] by (simp add: distrib_left)
  ultimately show ?thesis by linarith
qed

lemma tri_pair_short:
  assumes l: "i + 2 = length a" and "length p = 2 * length a" and z: "list_all (\<lambda>x. x = 0) (drop (i + length a) p)"
  shows "length (tri_pair a i p) = length p
    \<and> wval (tri_pair a i p) + \<beta> ^ i * (unat (a ! i) * wval (take (i + 1) a))
        + \<beta> ^ (i + 1) * (unat (a ! (i + 1)) * wval (take (i + 2) a))
      = wval p + \<beta> ^ i * (unat (a ! i) * wval a) + \<beta> ^ (i + 1) * (unat (a ! (i + 1)) * wval a)"
proof -
  obtain s c0 where s: "mac (p ! Suc (2 * i)) (a ! i) (a ! Suc i) 0 = (s, c0)" by fastforce
  have f: "wval (p[2 * i + 1 := s]) + \<beta> ^ (2 * i + 2) * unat c0
      = wval p + \<beta> ^ (2 * i + 1) * (unat (a ! i) * unat (a ! (i + 1)))"
    using l assms(2) s by (intro tri_first) simp_all
  have p': "tri_pair a i p = p[2 * i + 1 := s, 2 * i + 2 := c0]"
    using s l by (simp add: tri_pair_def Let_def tri_cols.simps [of a] mult_2 flip: l)
  have "wval (tri_pair a i p) = wval (p[2 * i + 1 := s]) + \<beta> ^ (2 * i + 2) * unat c0"
    unfolding p' using l assms(2) drop_zero_nth [OF z, of "2 * i + 2"] by (intro lval_set_zero) simp_all
  moreover have "wval a = wval (take (i + 1) a) + \<beta> ^ (i + 1) * unat (a ! (i + 1))"
    using l by (intro lval_take_last) simp
  ultimately show ?thesis
    using f l p' by (simp add: algebra_simps power_add mult_2 mult_2_right)
qed

lemma tri_pair_long:
  assumes l: "i + 3 \<le> length a" and lp: "length p = 2 * length a" and z: "list_all (\<lambda>x. x = 0) (drop (i + length a) p)"
  shows "length (tri_pair a i p) = length p \<and> list_all (\<lambda>x. x = 0) (drop (i + 2 + length a) (tri_pair a i p))
    \<and> wval (tri_pair a i p) + \<beta> ^ i * (unat (a ! i) * wval (take (i + 1) a))
        + \<beta> ^ (i + 1) * (unat (a ! (i + 1)) * wval (take (i + 2) a))
      = wval p + \<beta> ^ i * (unat (a ! i) * wval a) + \<beta> ^ (i + 1) * (unat (a ! (i + 1)) * wval a)"
proof -
  let ?l = "length a" and ?x = "a ! i" and ?y = "a ! (i + 1)"
  obtain s c0 where s: "mac (p ! Suc (2 * i)) (a ! i) (a ! Suc i) 0 = (s, c0)" by fastforce
  define p1 where "p1 = p[2 * i + 1 := s]"
  obtain t e0 where t: "mac (p1 ! Suc (Suc (2 * i))) (a ! i) (a ! Suc (Suc i)) c0 = (t, e0)" by fastforce
  define p2 where "p2 = p1[2 * i + 2 := t]"
  obtain p3 d0 d1 where p3: "tri_cols a i ?x ?y (i + 3) (p2, e0, 0) = (p3, d0, d1)" by (metis surj_pair)
  obtain r e1 where r: "mac d0 ?y (a ! (?l - Suc 0)) d1 = (r, e1)" by fastforce
  have p': "tri_pair a i p = p3[i + ?l := r, i + ?l + 1 := e1]"
    using s t p3 r l by (simp add: tri_pair_def Let_def p1_def p2_def)
  have v1: "wval p1 + \<beta> ^ (2 * i + 2) * unat c0 = wval p + \<beta> ^ (2 * i + 1) * (unat ?x * unat ?y)"
    unfolding p1_def using l lp s by (intro tri_first) simp_all
  have "wval p2 + \<beta> ^ (2 * i + 2) * unat (p1 ! (2 * i + 2)) = wval p1 + \<beta> ^ (2 * i + 2) * unat t"
    unfolding p2_def using l lp by (intro lval_list_update) (simp add: p1_def)
  moreover have "\<beta> ^ (2 * i + 2) * unat t + \<beta> ^ (2 * i + 3) * unat e0
      = \<beta> ^ (2 * i + 2) * (unat t + \<beta> * unat e0)" by (simp add: algebra_simps numeral_3_eq_3)
  moreover have "\<dots> = \<beta> ^ (2 * i + 2) * unat (p1 ! (2 * i + 2)) + \<beta> ^ (2 * i + 2) * unat c0
      + \<beta> ^ (2 * i + 2) * (unat ?x * unat (a ! (i + 2)))"
    using mac_beta [OF t] by (simp add: algebra_simps)
  ultimately have v2: "wval p2 + \<beta> ^ (2 * i + 3) * unat e0 = wval p
      + \<beta> ^ (2 * i + 1) * (unat ?x * unat ?y) + \<beta> ^ (2 * i + 2) * (unat ?x * unat (a ! (i + 2)))"
    using v1 by linarith
  have c: "length p3 = length p2 \<and> drop (i + ?l) p3 = drop (i + ?l) p2
    \<and> wval p3 + \<beta> ^ (i + ?l) * (unat d0 + unat d1)
        + \<beta> ^ i * (unat ?x * wval (take (i + 3) a)) + \<beta> ^ (i + 1) * (unat ?y * wval (take (i + 3 - 1) a))
      = wval p2 + \<beta> ^ (i + (i + 3)) * (unat e0 + unat (0 :: u64))
        + \<beta> ^ i * (unat ?x * wval a) + \<beta> ^ (i + 1) * (unat ?y * wval (take (?l - 1) a))"
    using l lp by (intro tri_cols_val p3) (simp_all add: p2_def p1_def)
  have d3: "drop (i + ?l) p3 = drop (i + ?l) p"
    using c l by (simp add: p2_def p1_def drop_update_cancel)
  have l3: "length p3 = 2 * ?l" using c lp by (simp add: p2_def p1_def)
  have z3: "list_all (\<lambda>x. x = 0) (drop (i + ?l) p3)" using z d3 by simp
  have "wval (tri_pair a i p) = wval (p3[i + ?l := r]) + \<beta> ^ (i + ?l + 1) * unat e1"
    unfolding p' using l l3 drop_zero_nth [OF z3, of "i + ?l + 1"] by (intro lval_set_zero) simp_all
  also have "wval (p3[i + ?l := r]) = wval p3 + \<beta> ^ (i + ?l) * unat r"
    using l l3 drop_zero_nth [OF z3, of "i + ?l"] by (intro lval_set_zero) simp_all
  finally have "wval (tri_pair a i p) = wval p3 + \<beta> ^ (i + ?l) * (unat r + \<beta> * unat e1)"
    by (simp add: algebra_simps)
  also have "\<dots> = wval p3 + \<beta> ^ (i + ?l) * (unat d0 + unat d1) + \<beta> ^ (i + ?l) * (unat ?y * unat (a ! (?l - 1)))"
    using mac_beta [OF r] by (simp add: algebra_simps)
  finally have v3: "wval (tri_pair a i p) = wval p3 + \<beta> ^ (i + ?l) * (unat d0 + unat d1)
      + \<beta> ^ (i + ?l) * (unat ?y * unat (a ! (?l - 1)))" .
  have "wval (take (i + 3) a) = wval (take (i + 1) a) + \<beta> ^ (i + 1) * unat ?y + \<beta> ^ (i + 2) * unat (a ! (i + 2))"
    using l lval_take_Suc [of "i + 1" a] lval_take_Suc [of "i + 2" a] by (simp add: numeral_3_eq_3)
  then have w3: "\<beta> ^ i * (unat ?x * wval (take (i + 3) a)) = \<beta> ^ i * (unat ?x * wval (take (i + 1) a))
      + \<beta> ^ (2 * i + 1) * (unat ?x * unat ?y) + \<beta> ^ (2 * i + 2) * (unat ?x * unat (a ! (i + 2)))"
    by (simp add: algebra_simps power_add mult_2 mult_2_right)
  have "wval a = wval (take (?l - 1) a) + \<beta> ^ (?l - 1) * unat (a ! (?l - 1))"
    using l by (intro lval_take_last) simp
  then have "\<beta> ^ (i + 1) * (unat ?y * wval a) = \<beta> ^ (i + 1) * (unat ?y * wval (take (?l - 1) a))
      + (\<beta> ^ (i + 1) * \<beta> ^ (?l - 1)) * (unat ?y * unat (a ! (?l - 1)))"
    by (simp add: distrib_left ac_simps)
  moreover have "\<beta> ^ (i + 1) * \<beta> ^ (?l - 1) = \<beta> ^ (i + ?l)"
    unfolding power_add [symmetric] using l by (intro arg_cong [where f = "(^) \<beta>"]) simp
  ultimately have wl: "\<beta> ^ (i + 1) * (unat ?y * wval a) = \<beta> ^ (i + 1) * (unat ?y * wval (take (?l - 1) a))
      + \<beta> ^ (i + ?l) * (unat ?y * unat (a ! (?l - 1)))" by simp
  have e: "i + 3 - 1 = i + 2" "i + (i + 3) = 2 * i + 3" by simp_all
  have "list_all (\<lambda>x. x = 0) (drop (i + 2 + ?l) p3)" using drop_zero_mono [OF z3] by simp
  then show ?thesis
    using c v2 v3 w3 wl unfolding e unsigned_0 add_0_right
    by (intro conjI; (linarith | simp add: p' l3 lp drop_update_cancel))
qed

text \<open>The square of a prefix is twice its off-diagonal products plus its squares.\<close>

definition cross_sum :: "uint \<Rightarrow> nat \<Rightarrow> nat" where
  "cross_sum a i = (\<Sum>k<i. \<beta> ^ k * (unat (a ! k) * wval (take k a)))"

definition diag_sum :: "uint \<Rightarrow> nat \<Rightarrow> nat" where
  "diag_sum a i = (\<Sum>k<i. \<beta> ^ (2 * k) * (unat (a ! k) * unat (a ! k)))"

lemma square_split:
  "i \<le> length a \<Longrightarrow> wval (take i a) * wval (take i a) = 2 * cross_sum a i + diag_sum a i"
proof (induction i)
  case (Suc i)
  have w: "wval (take (Suc i) a) = wval (take i a) + \<beta> ^ i * unat (a ! i)"
    using Suc.prems lval_take_Suc [of i a] by simp
  have "wval (take (Suc i) a) * wval (take (Suc i) a) = wval (take i a) * wval (take i a)
      + 2 * (\<beta> ^ i * (unat (a ! i) * wval (take i a))) + \<beta> ^ (2 * i) * (unat (a ! i) * unat (a ! i))"
    unfolding w by (simp add: algebra_simps power_add mult_2_right)
  then show ?case
    using Suc by (simp add: cross_sum_def diag_sum_def)
qed (simp add: cross_sum_def diag_sum_def)

lemma cross_diag_Suc:
  assumes "i < length a"
  shows "cross_sum a (Suc i) + diag_sum a (Suc i)
      = cross_sum a i + diag_sum a i + \<beta> ^ i * (unat (a ! i) * wval (take (Suc i) a))"
  using lval_take_Suc [OF assms]
  by (simp add: cross_sum_def diag_sum_def algebra_simps power_add mult_2_right)

lemma triangle_inv:
  assumes "i \<le> length a" and "length p = 2 * length a"
    and "i < length a \<longrightarrow> list_all (\<lambda>x. x = 0) (drop (i + length a) p)"
    and "wval p + cross_sum a i + diag_sum a i = wval (take i a) * wval a"
  shows "length (triangle a i p) = 2 * length a \<and> wval (triangle a i p) = cross_sum a (length a)"
  using assms
proof (induction a i p rule: triangle.induct)
  case (1 a i p)
  show ?case
  proof (cases "i + 1 < length a")
    case True
    have z: "list_all (\<lambda>x. x = 0) (drop (i + length a) p)" using "1.prems"(3) True by simp
    let ?p = "tri_pair a i p"
    have p: "length ?p = length p" "i + 2 < length a \<longrightarrow> list_all (\<lambda>x. x = 0) (drop (i + 2 + length a) ?p)"
      and v: "wval ?p + \<beta> ^ i * (unat (a ! i) * wval (take (i + 1) a))
        + \<beta> ^ (i + 1) * (unat (a ! (i + 1)) * wval (take (i + 2) a))
      = wval p + \<beta> ^ i * (unat (a ! i) * wval a) + \<beta> ^ (i + 1) * (unat (a ! (i + 1)) * wval a)"
      using tri_pair_short [OF _ "1.prems"(2) z] tri_pair_long [OF _ "1.prems"(2) z] True
      by (cases "i + 2 = length a"; simp)+
    have w: "wval (take (i + 2) a) = wval (take i a) + \<beta> ^ i * unat (a ! i) + \<beta> ^ (i + 1) * unat (a ! (i + 1))"
      using True lval_take_Suc [of i a] lval_take_Suc [of "i + 1" a] by simp
    have "wval ?p + cross_sum a (i + 2) + diag_sum a (i + 2) = wval (take (i + 2) a) * wval a"
    proof -
      have "wval (take (i + 2) a) * wval a = wval (take i a) * wval a + \<beta> ^ i * (unat (a ! i) * wval a)
          + \<beta> ^ (i + 1) * (unat (a ! (i + 1)) * wval a)"
        unfolding w by (simp add: distrib_right mult.assoc)
      moreover have "cross_sum a (i + 2) + diag_sum a (i + 2) = cross_sum a i + diag_sum a i
          + \<beta> ^ i * (unat (a ! i) * wval (take (i + 1) a))
          + \<beta> ^ (i + 1) * (unat (a ! (i + 1)) * wval (take (i + 2) a))"
        using cross_diag_Suc [of i a] cross_diag_Suc [of "i + 1" a] True by simp
      ultimately show ?thesis using v "1.prems"(4) by linarith
    qed
    then show ?thesis
      using "1.IH" [OF True] True p "1.prems"(2) by (simp add: triangle.simps [of a i p])
  next
    case False
    have X: "wval p + cross_sum a (length a) + diag_sum a (length a) = wval a * wval a"
    proof (cases "i = length a")
      case True
      then show ?thesis using "1.prems"(4) by simp
    next
      case False
      then have i: "i < length a" "length a = Suc i" using "1.prems"(1) \<open>\<not> i + 1 < length a\<close> by simp_all
      have "wval a = wval (take i a) + \<beta> ^ i * unat (a ! i)" using i by (intro lval_take_last) simp
      then have "wval a * wval a = wval (take i a) * wval a + \<beta> ^ i * (unat (a ! i) * wval a)"
        by (metis distrib_right mult.assoc)
      then show ?thesis
        using "1.prems"(4) cross_diag_Suc [OF i(1)] by (simp flip: i(2))
    qed
    have "wval p = cross_sum a (length a)"
      using X square_split [of "length a" a] by simp
    then show ?thesis using False "1.prems"(2) by (simp add: triangle.simps [of a i p])
  qed
qed

section \<open>Doubling and diagonal\<close>

lemma double_limb:
  assumes "unat (c :: u64) \<le> 1"
  shows "unat (push_bit 1 w OR c) + \<beta> * unat (drop_bit 63 w) = 2 * unat w + unat c"
    and "unat (drop_bit 63 w) \<le> 1"
proof -
  define H :: nat where "H = 2 ^ 63"
  define q r where "q = unat w div H" and "r = unat w mod H"
  have w: "unat w = q * H + r" and r: "r < H" by (simp_all add: q_def r_def H_def)
  have b: "\<beta> = H * 2" "2 ^ LENGTH(64) = \<beta>" by (simp_all add: \<beta>_def H_def)
  have h: "unat (drop_bit 63 w) = q" unfolding q_def H_def by (rule unat_drop_bit)
  have "q < 2" using limb_lt [of w] unfolding q_def b(1) by (simp add: less_mult_imp_div_less mult.commute)
  then show "unat (drop_bit 63 w) \<le> 1" unfolding h by simp
  have p: "unat (push_bit 1 w) = r * 2"
    unfolding unat_push_bit b power_one_right r_def by (simp only: mult_mod_left)
  have "c = of_bool (unat c = 1)" using assms by (rule limb_bit_cases)
  then have "push_bit 1 w OR c = push_bit 1 w + c"
    by (metis bit_push_bit_iff disjunctive_add less_one bit_of_bool_iff not_le zero_less_one)
  moreover have "r * 2 + unat c < \<beta>" using r assms unfolding b(1) by linarith
  ultimately have "unat (push_bit 1 w OR c) = r * 2 + unat c"
    using unat_word_ariths(1) [of "push_bit 1 w" c] unfolding p b(2) by (simp only: mod_less)
  then show "unat (push_bit 1 w OR c) + \<beta> * unat (drop_bit 63 w) = 2 * unat w + unat c"
    unfolding h b(1) w by simp
qed

lemma double_limbs_val:
  assumes "unat c \<le> 1"
  shows "length (double_limbs p c) = length p
    \<and> (\<exists>co :: nat. wval (double_limbs p c) + \<beta> ^ length p * co = 2 * wval p + unat c)"
  using assms
proof (induction p arbitrary: c)
  case (Cons w p)
  note d = double_limb [OF Cons.prems, of w]
  obtain co :: nat where co: "wval (double_limbs p (drop_bit 63 w)) + \<beta> ^ length p * co
      = 2 * wval p + unat (drop_bit 63 w)" "length (double_limbs p (drop_bit 63 w)) = length p"
    using Cons.IH [OF d(2)] by auto
  have "wval (double_limbs (w # p) c) + \<beta> ^ length (w # p) * co
      = unat (push_bit 1 w OR c) + \<beta> * (wval (double_limbs p (drop_bit 63 w)) + \<beta> ^ length p * co)"
    by (simp add: algebra_simps)
  also have "\<dots> = 2 * wval (w # p) + unat c"
    unfolding co(1) using d(1) by (simp add: algebra_simps)
  finally show ?case using co(2) by auto
qed auto

lemma diagonal_val:
  assumes "i \<le> length a" and "length p = 2 * length a" and "diagonal a i (p, c) = (p', c')"
  shows "length p' = length p \<and> wval p' + \<beta> ^ (2 * length a) * unat c' + diag_sum a i
    = wval p + \<beta> ^ (2 * i) * unat c + diag_sum a (length a)"
  using assms
proof (induction "length a - i" arbitrary: i p c)
  case 0
  then show ?case by (simp add: diagonal.simps [of a i])
next
  case (Suc k)
  then have i: "i < length a" by simp
  obtain s e where s: "mac (p ! (2 * i)) (a ! i) (a ! i) c = (s, e)" by fastforce
  define p1 where "p1 = p[2 * i := s]"
  obtain t d where t0: "adc (p ! Suc (2 * i)) e 0 = (t, d)" by fastforce
  then have t: "adc (p1 ! (2 * i + 1)) e 0 = (t, d)" by (simp add: p1_def)
  define p2 where "p2 = p1[2 * i + 1 := t]"
  have nx: "diagonal a (i + 1) (p2, d) = (p', c')"
    using Suc.prems(3) i by (simp add: diagonal.simps [of a i] s t0 Let_def p2_def flip: p1_def)
  have IH: "length p' = length p2 \<and> wval p' + \<beta> ^ (2 * length a) * unat c' + diag_sum a (i + 1)
    = wval p2 + \<beta> ^ (2 * (i + 1)) * unat d + diag_sum a (length a)"
    using Suc.hyps(2) Suc.prems(2) i by (intro Suc.hyps(1) nx) (simp_all add: p2_def p1_def)
  have u1: "wval p1 + \<beta> ^ (2 * i) * unat (p ! (2 * i)) = wval p + \<beta> ^ (2 * i) * unat s"
    unfolding p1_def using i Suc.prems(2) by (intro lval_list_update) simp
  have u2: "wval p2 + \<beta> ^ (2 * i + 1) * unat (p1 ! (2 * i + 1)) = wval p1 + \<beta> ^ (2 * i + 1) * unat t"
    unfolding p2_def using i Suc.prems(2) by (intro lval_list_update) (simp add: p1_def)
  have "\<beta> ^ (2 * i) * unat s + \<beta> ^ (2 * i + 1) * unat e = \<beta> ^ (2 * i) * (unat s + \<beta> * unat e)"
    by (simp add: distrib_left)
  also have "\<dots> = \<beta> ^ (2 * i) * unat (p ! (2 * i)) + \<beta> ^ (2 * i) * (unat (a ! i) * unat (a ! i))
      + \<beta> ^ (2 * i) * unat c"
    unfolding mac_beta [OF s] by (simp add: distrib_left)
  finally have m1: "\<beta> ^ (2 * i) * unat s + \<beta> ^ (2 * i + 1) * unat e
      = \<beta> ^ (2 * i) * unat (p ! (2 * i)) + \<beta> ^ (2 * i) * (unat (a ! i) * unat (a ! i)) + \<beta> ^ (2 * i) * unat c" .
  have "\<beta> ^ (2 * i + 1) * unat t + \<beta> ^ (2 * (i + 1)) * unat d = \<beta> ^ (2 * i + 1) * (unat t + \<beta> * unat d)"
    by (simp add: distrib_left)
  also have "\<dots> = \<beta> ^ (2 * i + 1) * unat (p1 ! (2 * i + 1)) + \<beta> ^ (2 * i + 1) * unat e"
    using adc_beta [OF t] by (simp add: distrib_left)
  finally have m2: "\<beta> ^ (2 * i + 1) * unat t + \<beta> ^ (2 * (i + 1)) * unat d
      = \<beta> ^ (2 * i + 1) * unat (p1 ! (2 * i + 1)) + \<beta> ^ (2 * i + 1) * unat e" .
  have "diag_sum a (i + 1) = diag_sum a i + \<beta> ^ (2 * i) * (unat (a ! i) * unat (a ! i))"
    by (simp add: diag_sum_def)
  then show ?case using IH u1 u2 m1 m2 by (intro conjI) (simp add: p2_def p1_def, linarith)
qed

section \<open>The reduction\<close>

lemma red_cols_val:
  assumes "2 \<le> j" and "j \<le> length n" and "i + length n < length p"
    and "red_cols n i m0 m1 j (p, c0, c1) = (p', c0', c1')"
  shows "length p' = length p \<and> drop (i + length n) p' = drop (i + length n) p
    \<and> \<beta> ^ 2 * wval (drop (i + 2) p') + \<beta> ^ length n * (unat c0' + unat c1')
        + unat m0 * wval (take j n) + \<beta> * (unat m1 * wval (take (j - 1) n))
      = \<beta> ^ 2 * wval (drop (i + 2) p) + \<beta> ^ j * (unat c0 + unat c1)
        + unat m0 * wval n + \<beta> * (unat m1 * wval (take (length n - 1) n))"
  using assms
proof (induction "length n - j" arbitrary: j p c0 c1)
  case 0
  then show ?case by (simp add: red_cols.simps [of n i m0 m1 j])
next
  case (Suc k)
  then have j: "j < length n" by simp
  obtain s e0 where s: "mac (p ! (i + j)) m0 (n ! j) c0 = (s, e0)" by fastforce
  obtain r e1 where r: "mac s m1 (n ! (j - Suc 0)) c1 = (r, e1)" by fastforce
  let ?p = "p[i + j := r]"
  have nx: "red_cols n i m0 m1 (j + 1) (?p, e0, e1) = (p', c0', c1')"
    using Suc.prems(4) j by (simp add: red_cols.simps [of n i m0 m1 j] s r)
  have IH: "length p' = length ?p \<and> drop (i + length n) p' = drop (i + length n) ?p
    \<and> \<beta> ^ 2 * wval (drop (i + 2) p') + \<beta> ^ length n * (unat c0' + unat c1')
        + unat m0 * wval (take (j + 1) n) + \<beta> * (unat m1 * wval (take (j + 1 - 1) n))
      = \<beta> ^ 2 * wval (drop (i + 2) ?p) + \<beta> ^ (j + 1) * (unat e0 + unat e1)
        + unat m0 * wval n + \<beta> * (unat m1 * wval (take (length n - 1) n))"
    using Suc.hyps(2) Suc.prems(1,3) j by (intro Suc.hyps(1) nx) simp_all
  have sum: "unat r + \<beta> * (unat e0 + unat e1)
      = unat (p ! (i + j)) + unat m0 * unat (n ! j) + unat m1 * unat (n ! (j - 1)) + (unat c0 + unat c1)"
    using mac_beta [OF s] mac_beta [OF r] by (simp add: algebra_simps)
  obtain k where k: "j = k + 2" using Suc.prems(1) by (metis le_add_diff_inverse2)
  have "drop (i + 2) ?p = (drop (i + 2) p)[k := r]" by (simp add: drop_update_swap k)
  moreover have "wval ((drop (i + 2) p)[k := r]) + \<beta> ^ k * unat (drop (i + 2) p ! k)
      = wval (drop (i + 2) p) + \<beta> ^ k * unat r"
    using j Suc.prems(3) k by (intro lval_list_update) simp
  ultimately have "\<beta> ^ 2 * (wval (drop (i + 2) ?p) + \<beta> ^ k * unat (p ! (i + j)))
      = \<beta> ^ 2 * (wval (drop (i + 2) p) + \<beta> ^ k * unat r)"
    using j Suc.prems(3) by (simp add: k add.assoc)
  then have up: "\<beta> ^ 2 * wval (drop (i + 2) ?p) + \<beta> ^ j * unat (p ! (i + j))
      = \<beta> ^ 2 * wval (drop (i + 2) p) + \<beta> ^ j * unat r"
    by (simp add: k power_add distrib_left power2_eq_square ac_simps)
  have t1: "unat m0 * wval (take (j + 1) n) = unat m0 * wval (take j n) + \<beta> ^ j * (unat m0 * unat (n ! j))"
    using j lval_take_Suc [of j n] by (simp add: algebra_simps)
  have t2: "\<beta> * (unat m1 * wval (take j n)) = \<beta> * (unat m1 * wval (take (j - 1) n))
      + \<beta> ^ j * (unat m1 * unat (n ! (j - 1)))"
    using j lval_take_Suc [of "Suc k" n] by (simp add: k algebra_simps power_add)
  have "\<beta> ^ (j + 1) * (unat e0 + unat e1) + \<beta> ^ j * unat r = \<beta> ^ j * (unat r + \<beta> * (unat e0 + unat e1))"
    by (simp add: algebra_simps)
  also have "\<dots> = \<beta> ^ j * unat (p ! (i + j)) + \<beta> ^ j * (unat m0 * unat (n ! j))
      + \<beta> ^ j * (unat m1 * unat (n ! (j - 1))) + \<beta> ^ j * (unat c0 + unat c1)"
    unfolding sum by (simp only: distrib_left)
  finally have fin: "\<beta> ^ (j + 1) * (unat e0 + unat e1) + \<beta> ^ j * unat r = \<beta> ^ j * unat (p ! (i + j))
      + \<beta> ^ j * (unat m0 * unat (n ! j)) + \<beta> ^ j * (unat m1 * unat (n ! (j - 1)))
      + \<beta> ^ j * (unat c0 + unat c1)" .
  show ?case
  proof (intro conjI)
    show "\<beta> ^ 2 * wval (drop (i + 2) p') + \<beta> ^ length n * (unat c0' + unat c1')
        + unat m0 * wval (take j n) + \<beta> * (unat m1 * wval (take (j - 1) n))
      = \<beta> ^ 2 * wval (drop (i + 2) p) + \<beta> ^ j * (unat c0 + unat c1)
        + unat m0 * wval n + \<beta> * (unat m1 * wval (take (length n - 1) n))"
      using IH t1 t2 up fin unfolding add_diff_cancel_right' by linarith
  qed (use IH j in \<open>simp_all add: drop_update_cancel\<close>)
qed

text \<open>What is left to reduce before pass \<open>i\<close>: the limbs from \<open>i\<close> on and the riding carry.\<close>

definition red_val :: "uint \<Rightarrow> nat \<Rightarrow> uint \<times> u64 \<Rightarrow> nat" where
  "red_val n i st = wval (drop i (fst st)) + \<beta> ^ length n * unat (snd st)"

lemma lval_drop_2:
  "i + 1 < length p \<Longrightarrow> wval (drop i p) = unat (p ! i) + \<beta> * unat (p ! (i + 1)) + \<beta> ^ 2 * wval (drop (i + 2) (p :: uint))"
  by (simp add: Cons_nth_drop_Suc [symmetric] power2_eq_square algebra_simps)

lemma red_pair_start:
  assumes "np * (n ! 0) = - 1" and "mac x (x * np) (n ! 0) 0 = (z, c)"
    and "mac y (x * np) (n ! 1) c = (s, c0)" and "mac s (s * np) (n ! 0) 0 = (z', c1)" and "2 \<le> length n"
  shows "unat x + \<beta> * unat y + unat (x * np) * wval (take 2 n) + \<beta> * (unat (s * np) * wval (take 1 n))
    = \<beta> ^ 2 * (unat c0 + unat c1)"
proof -
  have a: "\<beta> * unat c = unat x + unat (x * np) * unat (n ! 0)"
    by (rule mac_low_cancel [OF assms(1,2)])
  have b: "\<beta> * unat c1 = unat s + unat (s * np) * unat (n ! 0)"
    by (rule mac_low_cancel [OF assms(1,4)])
  have w: "wval (take 1 n) = unat (n ! 0)" "wval (take 2 n) = unat (n ! 0) + \<beta> * unat (n ! 1)"
    using assms(5) lval_take_2 [of n] lval_take_Suc [of 0 n] by simp_all
  have "\<beta> ^ 2 * (unat c0 + unat c1) = \<beta> * (\<beta> * unat c0) + \<beta> * (\<beta> * unat c1)"
    by (simp add: power2_eq_square algebra_simps)
  also have "\<beta> * (\<beta> * unat c1) = \<beta> * unat s + \<beta> * (unat (s * np) * unat (n ! 0))"
    unfolding b by (simp add: distrib_left)
  also have "\<beta> * (\<beta> * unat c0) + (\<beta> * unat s + \<beta> * (unat (s * np) * unat (n ! 0)))
      = \<beta> * (unat s + \<beta> * unat c0) + \<beta> * (unat (s * np) * unat (n ! 0))" by (simp add: distrib_left)
  also have "\<beta> * (unat s + \<beta> * unat c0) = \<beta> * unat y + \<beta> * (unat (x * np) * unat (n ! 1)) + \<beta> * unat c"
    unfolding mac_beta [OF assms(3)] by (simp add: distrib_left)
  finally show ?thesis unfolding w a by (simp add: algebra_simps)
qed

lemma red_top:
  assumes "adc x c0 hi = (s, sh)" and "mac s m1 t c1 = (r, e)" and "adc y e sh = (u, h)"
  shows "unat r + \<beta> * (unat u + \<beta> * unat h)
    = unat x + \<beta> * unat y + (unat c0 + unat c1) + unat hi + unat m1 * unat t"
proof -
  have "unat r + \<beta> * (unat u + \<beta> * unat h) = (unat r + \<beta> * unat e) + \<beta> * unat y + \<beta> * unat sh"
    unfolding adc_beta [OF assms(3)] by (simp add: distrib_left)
  also have "\<dots> = (unat s + \<beta> * unat sh) + \<beta> * unat y + unat m1 * unat t + unat c1"
    unfolding mac_beta [OF assms(2)] by simp
  finally show ?thesis unfolding adc_beta [OF assms(1)] by simp
qed

lemma red_pair_val:
  assumes i: "i + 1 < length n" and lp: "length p = 2 * length n" and np: "np * (n ! 0) = - 1"
    and st: "red_pair n np i (p, hi) = st"
  shows "length (fst st) = 2 * length n \<and> (\<exists>(m0 :: u64) (m1 :: u64).
    \<beta> ^ 2 * red_val n (i + 2) st = red_val n i (p, hi) + wval n * (unat m0 + \<beta> * unat m1))"
proof -
  let ?l = "length n"
  define m0 where "m0 = p ! i * np"
  obtain z c where z: "mac (p ! i) m0 (n ! 0) 0 = (z, c)" by fastforce
  obtain s c0 where s: "mac (p ! Suc i) m0 (n ! Suc 0) c = (s, c0)" by fastforce
  define m1 where "m1 = s * np"
  obtain z' c1 where z': "mac s m1 (n ! 0) 0 = (z', c1)" by fastforce
  obtain q d0 d1 where q: "red_cols n i m0 m1 2 (p, c0, c1) = (q, d0, d1)" by (metis surj_pair)
  obtain t sh where t: "adc (q ! (i + ?l)) d0 hi = (t, sh)" by fastforce
  obtain r e where r: "mac t m1 (n ! (?l - Suc 0)) d1 = (r, e)" by fastforce
  obtain u h where u: "adc (q ! Suc (i + ?l)) e sh = (u, h)" by fastforce
  have st': "st = (q[i + ?l := r, i + ?l + 1 := u], h)"
    using st z s z' q t r u by (simp add: red_pair_def Let_def flip: m0_def m1_def)
  have c: "length q = length p" "\<beta> ^ 2 * wval (drop (i + 2) q) + \<beta> ^ ?l * (unat d0 + unat d1)
        + unat m0 * wval (take 2 n) + \<beta> * (unat m1 * wval (take (2 - 1) n))
      = \<beta> ^ 2 * wval (drop (i + 2) p) + \<beta> ^ 2 * (unat c0 + unat c1)
        + unat m0 * wval n + \<beta> * (unat m1 * wval (take (?l - 1) n))"
    using red_cols_val [OF order_refl _ _ q] i lp by simp_all
  have b: "unat (p ! i) + \<beta> * unat (p ! (i + 1)) + unat m0 * wval (take 2 n) + \<beta> * (unat m1 * wval (take 1 n))
      = \<beta> ^ 2 * (unat c0 + unat c1)"
    unfolding m1_def m0_def
    by (rule red_pair_start [OF np z [unfolded m0_def] _ z' [unfolded m1_def]]) (use s m0_def i in simp_all)
  obtain k where k: "?l = k + 2" using i that [of "?l - 2"] by simp
  have "drop (i + 2) (fst st) = (drop (i + 2) q)[k := r, k + 1 := u]"
    by (simp add: st' drop_update_swap k)
  moreover have "wval ((drop (i + 2) q)[k := r, k + 1 := u]) + \<beta> ^ (k + 1) * unat (q ! (i + ?l + 1)) + \<beta> ^ k * unat (q ! (i + ?l))
      = wval (drop (i + 2) q) + \<beta> ^ k * unat r + \<beta> ^ (k + 1) * unat u"
    using lval_list_update [of "k + 1" "(drop (i + 2) q)[k := r]" u] lval_list_update [of k "drop (i + 2) q" r]
      i lp c(1) k by (simp add: ac_simps)
  ultimately have "\<beta> ^ 2 * (wval (drop (i + 2) (fst st)) + \<beta> ^ (k + 1) * unat (q ! (i + ?l + 1)) + \<beta> ^ k * unat (q ! (i + ?l)))
      = \<beta> ^ 2 * (wval (drop (i + 2) q) + \<beta> ^ k * unat r + \<beta> ^ (k + 1) * unat u)" by simp
  then have up: "\<beta> ^ 2 * wval (drop (i + 2) (fst st)) + \<beta> ^ ?l * (unat (q ! (i + ?l)) + \<beta> * unat (q ! (i + ?l + 1)))
      = \<beta> ^ 2 * wval (drop (i + 2) q) + \<beta> ^ ?l * (unat r + \<beta> * unat u)"
    by (simp add: k power_add power2_eq_square distrib_left ac_simps)
  have top: "\<beta> ^ ?l * (unat r + \<beta> * unat u) + \<beta> ^ 2 * (\<beta> ^ ?l * unat h)
      = \<beta> ^ ?l * (unat (q ! (i + ?l)) + \<beta> * unat (q ! (i + ?l + 1))) + \<beta> ^ ?l * (unat d0 + unat d1)
        + \<beta> ^ ?l * unat hi + \<beta> ^ ?l * (unat m1 * unat (n ! (?l - 1)))"
    using arg_cong [OF red_top [OF t r u], of "\<lambda>x. \<beta> ^ ?l * x"]
    by (simp add: power2_eq_square distrib_left ac_simps)
  have "wval n = wval (take (?l - 1) n) + \<beta> ^ (?l - 1) * unat (n ! (?l - 1))"
    using i by (intro lval_take_last) simp
  then have wl: "\<beta> * (unat m1 * wval n) = \<beta> * (unat m1 * wval (take (?l - 1) n)) + \<beta> ^ ?l * (unat m1 * unat (n ! (?l - 1)))"
    by (simp add: k distrib_left ac_simps)
  have take_1: "2 - 1 = (1 :: nat)" by simp
  have "red_val n i (p, hi) = unat (p ! i) + \<beta> * unat (p ! (i + 1)) + \<beta> ^ 2 * wval (drop (i + 2) p) + \<beta> ^ ?l * unat hi"
    unfolding red_val_def using lval_drop_2 [of i p] i lp by simp
  moreover have "\<beta> ^ 2 * red_val n (i + 2) st = \<beta> ^ 2 * wval (drop (i + 2) (fst st)) + \<beta> ^ 2 * (\<beta> ^ ?l * unat h)"
    unfolding red_val_def by (simp add: st' distrib_left)
  moreover have "wval n * (unat m0 + \<beta> * unat m1) = unat m0 * wval n + \<beta> * (unat m1 * wval n)"
    by (simp add: distrib_left ac_simps)
  ultimately have "\<beta> ^ 2 * red_val n (i + 2) st = red_val n i (p, hi) + wval n * (unat m0 + \<beta> * unat m1)"
    using up top wl b c(2) [unfolded take_1] by linarith
  then show ?thesis using c(1) lp by (auto simp: st')
qed

lemma red_row_cols_val:
  assumes "j \<le> length n" and "i + length n \<le> length p"
    and "red_row_cols n i m j (p, c) = (p', c')"
  shows "length p' = length p \<and> wval p' + \<beta> ^ (i + length n) * unat c' + \<beta> ^ i * (unat m * wval (take j n))
      = wval p + \<beta> ^ (i + j) * unat c + \<beta> ^ i * (unat m * wval n)
    \<and> take i p' = take i p"
  using assms
proof (induction "length n - j" arbitrary: j p c)
  case 0
  then show ?case by (simp add: red_row_cols.simps [of n i m j])
next
  case (Suc k)
  then have j: "j < length n" by simp
  obtain s e where s: "mac (p ! (i + j)) m (n ! j) c = (s, e)" by fastforce
  let ?p = "p[i + j := s]"
  have nx: "red_row_cols n i m (j + 1) (?p, e) = (p', c')"
    using Suc.prems(3) j by (simp add: red_row_cols.simps [of n i m j] s)
  have IH: "length p' = length ?p
    \<and> wval p' + \<beta> ^ (i + length n) * unat c' + \<beta> ^ i * (unat m * wval (take (j + 1) n))
      = wval ?p + \<beta> ^ (i + (j + 1)) * unat e + \<beta> ^ i * (unat m * wval n) \<and> take i p' = take i ?p"
    using Suc.hyps(2) Suc.prems(2) j by (intro Suc.hyps(1) nx) simp_all
  have "wval ?p + \<beta> ^ (i + j) * unat (p ! (i + j)) = wval p + \<beta> ^ (i + j) * unat s"
    using j Suc.prems(2) by (intro lval_list_update) simp
  moreover have "\<beta> ^ (i + j) * unat s + \<beta> ^ (i + (j + 1)) * unat e
      = \<beta> ^ (i + j) * unat (p ! (i + j)) + \<beta> ^ i * (unat m * (\<beta> ^ j * unat (n ! j))) + \<beta> ^ (i + j) * unat c"
    using arg_cong [OF mac_beta [OF s], of "\<lambda>x. \<beta> ^ (i + j) * x"]
    by (simp add: distrib_left power_add ac_simps)
  moreover have "\<beta> ^ i * (unat m * wval (take (j + 1) n))
      = \<beta> ^ i * (unat m * wval (take j n)) + \<beta> ^ i * (unat m * (\<beta> ^ j * unat (n ! j)))"
    using j lval_take_Suc [of j n] by (simp add: distrib_left)
  ultimately show ?case using IH by (intro conjI) (simp, linarith, simp)
qed

lemma red_row_val:
  assumes i: "i + 1 = length n" and lp: "length p = 2 * length n" and np: "np * (n ! 0) = - 1"
    and st: "red_row n np i (p, hi) = st"
  shows "length (fst st) = 2 * length n \<and> (\<exists>m :: u64.
    \<beta> * red_val n (i + 1) st = red_val n i (p, hi) + wval n * unat m)"
proof -
  let ?l = "length n"
  define m where "m = p ! i * np"
  obtain q c where q: "red_row_cols n i m 0 (p, 0) = (q, c)" by fastforce
  obtain s h where s: "adc (q ! (i + ?l)) c hi = (s, h)" by fastforce
  have st': "st = (q[i + ?l := s], h)"
    using st q s by (simp add: red_row_def Let_def flip: m_def)
  have c: "length q = length p" "take i q = take i p"
      "wval q + \<beta> ^ (i + ?l) * unat c = wval p + \<beta> ^ i * (unat m * wval n)"
    using red_row_cols_val [OF _ _ q] i lp by simp_all
  obtain q' where q': "q' = q[i + ?l := s]" by simp
  have "wval q' + \<beta> ^ (i + ?l) * unat (q ! (i + ?l)) = wval q + \<beta> ^ (i + ?l) * unat s"
    unfolding q' using i lp c(1) by (intro lval_list_update) simp
  moreover have "\<beta> ^ (i + ?l) * unat s + \<beta> ^ (i + ?l + 1) * unat h
      = \<beta> ^ (i + ?l) * unat (q ! (i + ?l)) + \<beta> ^ (i + ?l) * unat c + \<beta> ^ (i + ?l) * unat hi"
    using arg_cong [OF adc_beta [OF s], of "\<lambda>x. \<beta> ^ (i + ?l) * x"] by (simp add: distrib_left ac_simps)
  ultimately have v: "wval q' + \<beta> ^ (i + ?l + 1) * unat h
      = wval p + \<beta> ^ (i + ?l) * unat hi + \<beta> ^ i * (unat m * wval n)"
    using c(3) by linarith
  have sp: "wval x = wval (take i x) + \<beta> ^ i * wval (drop i x)" if "i \<le> length x" for x :: uint
    using that lval_append [of "take i x" "drop i x"] by simp
  have "\<beta> ^ i * (wval (drop i q') + \<beta> ^ (?l + 1) * unat h)
      = \<beta> ^ i * (wval (drop i p) + \<beta> ^ ?l * unat hi + unat m * wval n)"
    using v sp [of q'] sp [of p] c(1,2) i lp by (simp add: q' distrib_left power_add ac_simps)
  then have d: "wval (drop i q') + \<beta> ^ (?l + 1) * unat h = red_val n i (p, hi) + wval n * unat m"
    using beta_pos by (simp add: red_val_def mult.commute)
  have dq: "drop i q' = q' ! i # drop (i + 1) q'" and dp: "drop i p = p ! i # drop (i + 1) p"
    using Cons_nth_drop_Suc [of i q'] Cons_nth_drop_Suc [of i p] i lp c(1) by (simp_all add: q')
  obtain n' where n: "n = n ! 0 # n'" using i by (cases n) auto
  then have wn: "wval n = unat (n ! 0) + \<beta> * wval n'" by (metis lval_Cons)
  obtain z k where k: "mac (p ! i) m (n ! 0) 0 = (z, k)" by fastforce
  have "red_val n i (p, hi) + wval n * unat m = (unat (p ! i) + unat m * unat (n ! 0))
      + \<beta> * (wval (drop (i + 1) p) + \<beta> ^ i * unat hi + wval n' * unat m)"
    unfolding red_val_def fst_conv snd_conv dp i [symmetric]
    by (simp add: wn algebra_simps)
  moreover have "\<beta> * unat k = unat (p ! i) + unat m * unat (n ! 0)"
    unfolding m_def by (rule mac_low_cancel [OF np k [unfolded m_def]])
  ultimately have "\<beta> dvd wval (drop i q') + \<beta> ^ (?l + 1) * unat h"
    unfolding d by (metis dvd_add dvd_triv_left)
  then have "\<beta> dvd unat (q' ! i)"
    unfolding dq by (simp add: dvd_add_left_iff)
  then have "q' ! i = 0"
    using limb_lt [of "q' ! i"] by (metis dvd_imp_le not_less unat_eq_0 neq0_conv word_unat_eq_iff unsigned_0)
  with dq have "\<beta> * red_val n (i + 1) st = wval (drop i q') + \<beta> ^ (?l + 1) * unat h"
    by (simp add: red_val_def st' q' algebra_simps)
  then show ?thesis using d c(1) lp by (auto simp: st')
qed

lemma red_rows_val:
  assumes "n \<noteq> []" and "np * (n ! 0) = - 1" and "i \<le> length n" and "length (fst st) = 2 * length n"
    and "M < \<beta> ^ i" and "\<beta> ^ i * red_val n i st = S + wval n * M" and "red_rows n np i st = st'"
  shows "length (fst st') = 2 * length n
    \<and> (\<exists>M < \<beta> ^ length n. \<beta> ^ length n * red_val n (length n) st' = S + wval n * M)"
  using assms
proof (induction n np i st arbitrary: M rule: red_rows.induct)
  case (1 n np i st)
  obtain p hi where st: "st = (p, hi)" by fastforce
  have lp: "length p = 2 * length n" using "1.prems"(4) st by simp
  consider (pair) "i + 1 < length n" | (row) "i + 1 = length n" | (full) "i = length n"
    using "1.prems"(3) by linarith
  then show ?case
  proof cases
    case pair
    obtain s1 where s1: "red_pair n np i (p, hi) = s1" by simp
    obtain m0 :: u64 and m1 :: u64 where l1: "length (fst s1) = 2 * length n"
      and v: "\<beta> ^ 2 * red_val n (i + 2) s1 = red_val n i st + wval n * (unat m0 + \<beta> * unat m1)"
      using red_pair_val [OF pair lp "1.prems"(2) s1] st by auto
    let ?M = "M + \<beta> ^ i * (unat m0 + \<beta> * unat m1)"
    have b: "?M < \<beta> ^ (i + 2)"
      using digit_step_bound [OF "1.prems"(5) pair_digit_lt [of m0 m1]]
      by (simp add: power_add power2_eq_square ac_simps)
    have "\<beta> ^ (i + 2) * red_val n (i + 2) s1 = \<beta> ^ i * (\<beta> ^ 2 * red_val n (i + 2) s1)"
      by (simp add: power_add power2_eq_square)
    also have "\<dots> = S + wval n * ?M" unfolding v distrib_left "1.prems"(6) by (simp add: algebra_simps)
    finally have e: "\<beta> ^ (i + 2) * red_val n (i + 2) s1 = S + wval n * ?M" .
    have nx: "red_rows n np (i + 2) s1 = st'"
      using "1.prems"(7) pair s1 st by (simp add: red_rows.simps [of n np i])
    show ?thesis
      using "1.IH" [OF pair "1.prems"(1,2), of ?M] pair l1 b e nx s1 st by simp
  next
    case row
    have s1: "red_row n np i (p, hi) = st'"
      using "1.prems"(7) row st by (simp add: red_rows.simps [of n np i] flip: row)
    obtain m :: u64 where l1: "length (fst st') = 2 * length n"
      and v: "\<beta> * red_val n (i + 1) st' = red_val n i st + wval n * unat m"
      using red_row_val [OF row lp "1.prems"(2) s1] st by auto
    let ?M = "M + \<beta> ^ i * unat m"
    have b: "?M < \<beta> ^ length n"
      using digit_step_bound [OF "1.prems"(5) limb_lt [of m]] by (simp add: mult.commute flip: row)
    have "\<beta> ^ length n * red_val n (length n) st' = \<beta> ^ i * (\<beta> * red_val n (i + 1) st')"
      by (simp add: row [symmetric])
    also have "\<dots> = S + wval n * ?M" unfolding v distrib_left "1.prems"(6) by (simp add: algebra_simps)
    finally show ?thesis using l1 b by blast
  next
    case full
    then have "st' = st" using "1.prems"(7) by (simp add: red_rows.simps [of n np "length n"])
    then show ?thesis using "1.prems"(4-6) full by auto
  qed
qed

lemma mont_sqr_kernel_val:
  assumes n: "n \<noteq> []" and np: "np * (n ! 0) = - 1" and la: "length n \<le> length a"
    and lt: "wval (take (length n) a) < wval n"
  shows "\<exists>r. mont_sqr_kernel n np a out = r @ drop (length n) out \<and> length r = length n
      \<and> wval r < wval n
      \<and> (wval r * \<beta> ^ length n) mod wval n = (wval (take (length n) a) * wval (take (length n) a)) mod wval n"
proof -
  let ?l = "length n" and ?a = "take (length n) a"
  let ?A = "wval ?a"
  have l: "length ?a = ?l" using la by simp
  have A: "?A < \<beta> ^ ?l" using lval_lt [of ?a] l by simp
  then have AA: "?A * ?A < \<beta> ^ (2 * ?l)" unfolding mult_2 power_add by (intro mult_strict_mono) simp_all
  define p1 where "p1 = triangle ?a 0 (replicate (2 * ?l) 0)"
  have p1: "length p1 = 2 * ?l" "wval p1 = cross_sum ?a ?l"
    using triangle_inv [of 0 ?a "replicate (2 * ?l) 0"] l
    by (simp_all add: p1_def list_all_iff cross_sum_def diag_sum_def lval_zeros)
  define p2 where "p2 = double_limbs p1 0"
  obtain p3 c where p3: "diagonal ?a 0 (p2, 0) = (p3, c)" by fastforce
  obtain co :: nat where p2: "length p2 = 2 * ?l" "wval p2 + \<beta> ^ (2 * ?l) * co = 2 * wval p1"
    using double_limbs_val [of 0 p1] p1(1) by (auto simp: p2_def)
  have v3: "length p3 = 2 * ?l" "wval p3 + \<beta> ^ (2 * ?l) * unat c = wval p2 + diag_sum ?a ?l"
    using diagonal_val [OF _ _ p3] p2(1) l by (simp_all add: diag_sum_def)
  have "wval p3 + \<beta> ^ (2 * ?l) * (unat c + co) = ?A * ?A"
    using v3(2) p2(2) p1(2) square_split [of ?l ?a] l by (simp add: distrib_left)
  then have sq: "wval p3 = ?A * ?A"
    using AA by (cases "unat c + co") (simp_all add: distrib_left)
  obtain p4 hi where p4: "red_rows n np 0 (p3, 0) = (p4, hi)" by fastforce
  obtain M where M: "length p4 = 2 * ?l" "M < \<beta> ^ ?l" "\<beta> ^ ?l * red_val n ?l (p4, hi) = ?A * ?A + wval n * M"
    using red_rows_val [OF n np _ _ _ _ p4, of 0 "?A * ?A"] v3(1) sq by (auto simp: red_val_def)
  have "wval n * M \<le> wval n * \<beta> ^ ?l" using M(2) by (intro mult_le_mono2) simp
  moreover have "?A * ?A < wval n * \<beta> ^ ?l" using lt A by (intro mult_strict_mono) simp_all
  ultimately have "\<beta> ^ ?l * red_val n ?l (p4, hi) < \<beta> ^ ?l * (2 * wval n)"
    using M(3) unfolding mult_2 distrib_left mult.commute [of "\<beta> ^ ?l" "wval n"] by linarith
  then have "red_val n ?l (p4, hi) < 2 * wval n" by simp
  then obtain r where r: "mont_final_sub n (drop ?l p4) hi out = r @ drop ?l out" "length r = ?l"
      "wval r = red_val n ?l (p4, hi) mod wval n"
    using mont_final_sub_val [of n "drop ?l p4" "red_val n ?l (p4, hi)" hi out] M(1) by (auto simp: red_val_def)
  have "(wval r * \<beta> ^ ?l) mod wval n = (\<beta> ^ ?l * red_val n ?l (p4, hi)) mod wval n"
    unfolding r(3) mod_mult_left_eq by (simp only: mult.commute)
  also have "\<dots> = (?A * ?A) mod wval n" unfolding M(3) by simp
  finally show ?thesis
    using r p3 p4 lt by (auto simp: mont_sqr_kernel_def Let_def p1_def p2_def)
qed

text \<open>Squaring is multiplication of a value by itself.\<close>

lemma mont_sqr_eq_mul:
  assumes m: "mont_shape m" and a: "mont_elt m a"
  shows "mont_sqr m a = mont_mul m a a"
proof -
  let ?n = "take (mm_limbs m) (mm_modulus m)" and ?s = "mm_limbs m" and ?L = "length (mm_modulus m)"
  have sh: "0 < ?s" "?s \<le> ?L" "odd (mm_modulus m ! 0)" and np: "mm_n_prime m = - inv_mod_2_64 (mm_modulus m ! 0)"
    using m by (simp_all add: mont_shape_def)
  note n = mont_shape_take [OF m]
  have l: "length ?n = ?s" "?n \<noteq> []" using sh by auto
  have "mm_n_prime m * ?n ! 0 = - 1"
    using inv_mod_2_64_correct [OF sh(3)] sh(1) unfolding np by (simp add: mult.commute)
  moreover have tk: "wval (take ?s a) = wval a"
    using a n(2) sh(2) by (auto simp: mont_elt_def mont_radix_def intro!: lval_take_small)
  ultimately obtain r where r: "mont_sqr m a = r @ drop ?s (replicate ?L 0)" "length r = ?s"
      "wval r < wval (mm_modulus m)"
      "(wval r * \<beta> ^ ?s) mod wval (mm_modulus m) = (wval a * wval a) mod wval (mm_modulus m)"
    using mont_sqr_kernel_val [of ?n "mm_n_prime m" a "replicate ?L 0"] l n(1) a sh(2)
    unfolding mont_sqr_def mont_elt_def by auto
  have v: "wval (mont_sqr m a) = wval r" unfolding r(1) lval_append by (simp add: lval_zeros list_all_iff)
  have "(wval (mont_sqr m a) * mont_radix m) mod wval (mm_modulus m)
      = (wval (mont_mul m a a) * mont_radix m) mod wval (mm_modulus m)"
    using r(4) mont_mul_val [OF m a a] by (simp add: v mont_radix_def)
  then have "wval (mont_sqr m a) mod wval (mm_modulus m) = wval (mont_mul m a a) mod wval (mm_modulus m)"
    by (rule mont.radix_cancel [OF m])
  moreover have "length (mont_sqr m a) = ?L" using r(1,2) sh(2) by simp
  ultimately show ?thesis
    using r(3) v mont_mul_val [OF m a a] by (intro wval_inject) (simp_all add: mont_elt_def)
qed

text \<open>
  C26.  The dedicated squaring kernel (triangle, doubling, diagonal, two-row reduction) computes the same limbs as
  the multiplication kernel applied to a value and itself, for every odd modulus above one and every
  reduced operand.
\<close>

theorem mont_sqr_refines_mul:
  assumes "odd (wval n)" and "1 < wval n" and "length a = length n" and "wval a < wval n"
  shows "\<exists>m. mont_new n = Some m \<and> mont_sqr m a = mont_mul m a a"
proof -
  obtain m where m: "mont_new n = Some m" "mont_ok m" "mm_modulus m = n"
    using assms(1,2) by (rule mont_new_odd)
  then show ?thesis using mont_sqr_eq_mul [of m a] assms(3-) by (simp add: mont_elt_def mont_ok_def)
qed

theorem mont_sqr_refines_mul_witness:
  "\<exists>m. mont_new [0xFFFFFFFFFFFFFFC5, 2, 7, 0] = Some m
    \<and> mont_sqr m [3, 5, 1, 0] = mont_mul m [3, 5, 1, 0] [3, 5, 1, 0]"
  using mont_sqr_refines_mul [of "[0xFFFFFFFFFFFFFFC5, 2, 7, 0]" "[3, 5, 1, 0]"] by (simp add: \<beta>_def)

end
