(* ===== verification/ModPow.thy ===== *)
theory ModPow
imports MontSqr
begin

unbundle bit_operations_syntax

text \<open>
  Modular exponentiation, \<open>src/bignum/modpow.rs\<close>: the fixed-window ladder \<open>pow_bits\<close> with its
  constant-time table gather, the two-base ladder \<open>pow2_bits\<close>, the residue folding \<open>reduce\<close>, the
  variable-time \<open>pow_public\<close> and the Fermat inverse \<open>inv_prime\<close>.  Table indices are \<open>usize\<close> values and
  are compared with the constant-time equality of \<open>Ct\<close>.
\<close>

section \<open>The ladders\<close>

definition limb_or_0 :: "uint \<Rightarrow> nat \<Rightarrow> u64" where
  "limb_or_0 e i = (if i < length e then e ! i else 0)"

definition gather :: "uint list \<Rightarrow> u64 \<Rightarrow> uint" where
  "gather table idx =
     foldl (\<lambda>sel (j, t). uint_conditional_select t sel (ct_eq_uint (word_of_nat j) idx))
       (table ! 0) (enumerate 0 table)"

function pow_table :: "mont_modulus \<Rightarrow> uint \<Rightarrow> nat \<Rightarrow> uint list \<Rightarrow> uint list" where
  "pow_table self base_m i table =
     (if i < 16 then pow_table self base_m (i + 1) (table[i := mont_mul self (table ! (i - 1)) base_m])
      else table)"
  by pat_completeness auto
termination
  by (relation "measure (\<lambda>(self, base_m, i, table). 16 - i)") auto

declare pow_table.simps [simp del]

definition pow_digit :: "uint \<Rightarrow> nat \<Rightarrow> u64" where
  "pow_digit e w = drop_bit (4 * (w mod 16)) (limb_or_0 e (w div 16)) AND 0xf"

primrec sqr_times :: "nat \<Rightarrow> mont_modulus \<Rightarrow> uint \<Rightarrow> uint" where
  "sqr_times 0 self acc = acc"
| "sqr_times (Suc k) self acc = sqr_times k self (mont_sqr self acc)"

text \<open>The main loop over the windows below \<open>w\<close>: \<open>k\<close> squarings, then the gathered entry.\<close>

primrec window_loop :: "mont_modulus \<Rightarrow> nat \<Rightarrow> (nat \<Rightarrow> uint) \<Rightarrow> nat \<Rightarrow> uint \<Rightarrow> uint" where
  "window_loop self k entry 0 acc = acc"
| "window_loop self k entry (Suc w) acc =
     window_loop self k entry w (mont_mul self (sqr_times k self acc) (entry w))"

definition pow_bits :: "mont_modulus \<Rightarrow> uint \<Rightarrow> uint \<Rightarrow> nat \<Rightarrow> uint" where
  "pow_bits self base e bits =
     (let base_m = to_mont self base;
          one_m = to_mont self (uint_one (length (mm_modulus self)));
          table = pow_table self base_m 2 ((replicate 16 one_m)[1 := base_m]);
          windows = max ((bits + 3) div 4) 1;
          w = windows - 1;
          acc = gather table (pow_digit e w)
      in from_mont self (window_loop self 4 (\<lambda>w. gather table (pow_digit e w)) w acc))"

definition pow :: "mont_modulus \<Rightarrow> uint \<Rightarrow> uint \<Rightarrow> uint" where
  "pow self base e = pow_bits self base e (length (mm_modulus self) * 64)"

definition pow2_table :: "mont_modulus \<Rightarrow> uint \<Rightarrow> uint \<Rightarrow> uint list" where
  "pow2_table self a b =
     (let one_m = to_mont self (uint_one (length (mm_modulus self)));
          table = replicate 16 one_m;
          table = table[1 := to_mont self a];
          table = table[4 := to_mont self b];
          table = table[8 := mont_sqr self (table ! 4)];
          table = table[12 := mont_mul self (table ! 8) (table ! 4)]
      in foldl (\<lambda>table j. foldl (\<lambda>table i.
             if j + i \<noteq> 1 then table[j + i := mont_mul self (table ! (j + i - 1)) (table ! 1)] else table)
           table [1, 2, 3]) table [0, 4, 8, 12])"

definition two_bits :: "uint \<Rightarrow> nat \<Rightarrow> u64" where
  "two_bits e w = drop_bit (2 * (w mod 32)) (limb_or_0 e (w div 32)) AND 3"

definition pow2_bits :: "mont_modulus \<Rightarrow> uint \<Rightarrow> uint \<Rightarrow> uint \<Rightarrow> uint \<Rightarrow> nat \<Rightarrow> uint" where
  "pow2_bits self a x b y bits =
     (let table = pow2_table self a b;
          windows = max ((bits + 1) div 2) 1;
          digit = (\<lambda>w. two_bits x w OR push_bit 2 (two_bits y w));
          w = windows - 1;
          acc = gather table (digit w)
      in from_mont self (window_loop self 2 (\<lambda>w. gather table (digit w)) w acc))"

definition pow2 :: "mont_modulus \<Rightarrow> uint \<Rightarrow> uint \<Rightarrow> uint \<Rightarrow> uint \<Rightarrow> uint" where
  "pow2 self a x b y = pow2_bits self a x b y (length (mm_modulus self) * 64)"

section \<open>Reduction, public exponents, inversion\<close>

definition mm_reduce_chunk :: "mont_modulus \<Rightarrow> uint \<Rightarrow> nat \<Rightarrow> uint" where
  "mm_reduce_chunk self x i =
     (let s = mm_limbs self
      in map (\<lambda>j. if j < s then limb_or_0 x (i * s + j) else 0) [0..<length (mm_modulus self)])"

text \<open>The chunks below \<open>i\<close>, from the most significant down, folded into \<open>acc\<close>.\<close>

primrec mm_reduce_loop :: "mont_modulus \<Rightarrow> uint \<Rightarrow> nat \<Rightarrow> nat \<Rightarrow> uint \<Rightarrow> uint" where
  "mm_reduce_loop self x chunks 0 acc = acc"
| "mm_reduce_loop self x chunks (Suc i) acc =
     (let cm = mont_mul self (mm_reduce_chunk self x i) (mm_r2 self);
          acc = (if i + 1 = chunks then cm else mm_add_mod self (mont_mul self acc (mm_r2 self)) cm)
      in mm_reduce_loop self x chunks i acc)"

definition mm_reduce :: "mont_modulus \<Rightarrow> uint \<Rightarrow> uint" where
  "mm_reduce self x =
     (let s = mm_limbs self;
          chunks = (length (mm_modulus self) + s - 1) div s
      in from_mont self (mm_reduce_loop self x chunks chunks (uint_zero (length (mm_modulus self)))))"

primrec pow_public_loop :: "mont_modulus \<Rightarrow> uint \<Rightarrow> uint \<Rightarrow> nat \<Rightarrow> uint \<Rightarrow> uint" where
  "pow_public_loop self base_m e 0 acc = acc"
| "pow_public_loop self base_m e (Suc i) acc =
     (let acc = mont_sqr self acc;
          acc = (if drop_bit (i mod 64) (e ! (i div 64)) AND 1 = 1 then mont_mul self acc base_m else acc)
      in pow_public_loop self base_m e i acc)"

definition pow_public :: "mont_modulus \<Rightarrow> uint \<Rightarrow> uint \<Rightarrow> uint" where
  "pow_public self base e =
     (let bits = uint_bit_len e
      in if bits = 0 then from_mont self (to_mont self (uint_one (length (mm_modulus self))))
         else
           (let base_m = to_mont self base
            in from_mont self (pow_public_loop self base_m e (bits - 1) base_m)))"

definition inv_prime :: "mont_modulus \<Rightarrow> uint \<Rightarrow> uint" where
  "inv_prime self a =
     (let e = uint_wrapping_sub (mm_modulus self) (uint_from_u64 (length (mm_modulus self)) 2)
      in pow self a e)"

section \<open>Gathering and digits\<close>

lemma gather_fold:
  assumes "list_all (\<lambda>t. length t = l) table" and "length sel = l" and "k + length table \<le> 2 ^ 64"
  shows "foldl (\<lambda>sel (j, t). uint_conditional_select t sel (ct_eq_uint (word_of_nat j) (idx :: u64)))
      sel (enumerate k table)
    = (if k \<le> unat idx \<and> unat idx < k + length table then table ! (unat idx - k) else sel)"
  using assms
proof (induction table arbitrary: k sel)
  case (Cons t table)
  have k: "(word_of_nat k = idx) = (k = unat idx)"
    using Cons.prems(3) by (auto simp: word_unat_eq_iff unat_of_nat)
  have "uint_conditional_select t sel (ct_eq_uint (word_of_nat k) idx) = (if k = unat idx then t else sel)"
    using Cons.prems(1,2) unfolding ct_eq_uint_eq k by (subst uint_conditional_select_eq) simp_all
  then show ?case
    using Cons.IH [of "if k = unat idx then t else sel" "Suc k"] Cons.prems by (auto simp: nth_Cons')
qed auto

lemma gather_nth:
  assumes "list_all (\<lambda>t. length t = l) table" and "unat idx < length table" and "length table \<le> 16"
  shows "gather table idx = table ! unat idx"
proof -
  have "length (table ! 0) = l" using assms(1,2) by (cases table) auto
  then show ?thesis
    unfolding gather_def using gather_fold [OF assms(1), of "table ! 0" 0 idx] assms(2,3) by simp
qed

lemma limb_or_0_bit: "k < 64 \<Longrightarrow> bit (limb_or_0 e i) k \<longleftrightarrow> bit (wval e) (64 * i + k)"
  by (simp add: limb_or_0_def bit_lval)

text \<open>A window of \<open>2\<^sup>k\<close>-digits that does not cross limbs reads a digit of the value.\<close>

lemma window_val:
  assumes "k * q = 64" and "0 < k" and "w mod q = r" and "w div q = i"
  shows "unat (drop_bit (k * r) (limb_or_0 e i) AND mask k) = (wval e div 2 ^ (k * w)) mod 2 ^ k"
proof -
  have q: "0 < q" using assms(1) by (cases q) auto
  have w: "64 * i + k * r = k * w"
    using assms(1,3,4) by (metis distrib_left mult.assoc mult_div_mod_eq)
  have "k * r + k \<le> k * q"
    using assms(3) q by (metis Suc_leI mod_less_divisor mult_Suc_right mult_le_mono2 add.commute)
  then have b: "k * r + j < 64" if "j < k" for j using that assms(1) by linarith
  have "unat (drop_bit (k * r) (limb_or_0 e i) AND mask k) = take_bit k (drop_bit (k * w) (wval e))"
  proof (rule bit_eqI)
    fix j :: nat
    show "bit (unat (drop_bit (k * r) (limb_or_0 e i) AND mask k)) j
        = bit (take_bit k (drop_bit (k * w) (wval e))) j"
      using b [of j] limb_or_0_bit [of "k * r + j" e i]
      unfolding add.assoc [symmetric] w
      by (auto simp: bit_unsigned_iff bit_and_iff bit_drop_bit_eq bit_take_bit_iff bit_mask_iff)
  qed
  then show ?thesis by (simp add: take_bit_eq_mod drop_bit_eq_div)
qed

lemma pow_digit_val: "unat (pow_digit e w) = (wval e div 16 ^ w) mod 16"
  using window_val [of 4 16 w _ _ e] by (simp add: pow_digit_def mask_eq_exp_minus_1 power_mult)

lemma two_bits_val: "unat (two_bits e w) = (wval e div 4 ^ w) mod 4"
  using window_val [of 2 32 w _ _ e] by (simp add: two_bits_def mask_eq_exp_minus_1 power_mult)

section \<open>Exponentiation\<close>

lemma rep_one: "mont_ok m \<Longrightarrow> mont.rep m (to_mont m (uint_one (length (mm_modulus m)))) 1"
  using to_mont_rep [of m "uint_one (length (mm_modulus m))"] mont_elt_one [of m] by (simp add: mont_ok_def)

lemma rep_sqr: "mont_shape m \<Longrightarrow> mont.rep m x u \<Longrightarrow> mont.rep m (mont_sqr m x) (u * u)"
  using mont.rep_mul [of m x u x u] by (simp add: mont_sqr_eq_mul mont.rep_def)

lemma rep_sqr_times:
  "mont_shape m \<Longrightarrow> mont.rep m x u \<Longrightarrow> mont.rep m (sqr_times k m x) (u ^ (2 ^ k))"
proof (induction k arbitrary: x u)
  case (Suc k)
  then show ?case
    using rep_sqr [OF Suc.prems] by (simp add: power_mult power2_eq_square)
qed simp

lemma rep_window_loop:
  assumes "mont_shape m" and "\<And>i. i < w \<Longrightarrow> mont.rep m (entry i) (g i)"
    and "\<And>i. i < w \<Longrightarrow> v i = v (Suc i) ^ (2 ^ k) * g i" and "mont.rep m acc (v w)"
  shows "mont.rep m (window_loop m k entry w acc) (v 0)"
  using assms(2-)
proof (induction w arbitrary: acc)
  case (Suc w)
  have "mont.rep m (mont_mul m (sqr_times k m acc) (entry w)) (v (Suc w) ^ (2 ^ k) * g w)"
    by (rule mont.rep_mul [OF assms(1) rep_sqr_times [OF assms(1) Suc.prems(3)] Suc.prems(1)]) simp
  then show ?case using Suc by simp
qed simp

lemma digit_recombine:
  fixes e :: nat
  assumes "i < W"
  shows "(e mod b ^ W) div b ^ i = b * ((e mod b ^ W) div b ^ Suc i) + (e div b ^ i) mod b"
proof -
  define d where "d = W - Suc i"
  have W: "b ^ W = b ^ i * (b * b ^ d)" using assms unfolding d_def by (simp flip: power_add power_Suc)
  have q: "(e mod b ^ W) div b ^ i = (e div b ^ i) mod (b * b ^ d)"
    unfolding W mod_mult2_eq by (cases "b = 0") simp_all
  have "(e mod b ^ W) div b ^ Suc i = (e mod b ^ W) div b ^ i div b"
    by (simp add: div_mult2_eq mult.commute [of b])
  moreover have "(e div b ^ i) mod (b * b ^ d) mod b = (e div b ^ i) mod b"
    by (simp add: mod_mod_cancel)
  ultimately show ?thesis unfolding q by (metis mult_div_mod_eq)
qed

lemma rep_length: "mont.rep m x v \<Longrightarrow> length x = length (mm_modulus m)"
  by (simp add: mont.rep_def mont_elt_def)

lemma pow_table_rep:
  assumes "mont_shape m" and "mont.rep m b v" and "2 \<le> i" and "i \<le> 16" and "length table = 16"
    and "\<And>k. k < i \<Longrightarrow> mont.rep m (table ! k) (v ^ k)"
  shows "length (pow_table m b i table) = 16 \<and> (\<forall>k < 16. mont.rep m (pow_table m b i table ! k) (v ^ k))"
  using assms(3-)
proof (induction "16 - i" arbitrary: i table)
  case 0
  then show ?case by (simp add: pow_table.simps [of m b 16])
next
  case (Suc d)
  then have i: "i < 16" by simp
  obtain j where j: "i = Suc j" using Suc.prems(1) by (cases i) auto
  let ?t = "table[i := mont_mul m (table ! (i - 1)) b]"
  have "mont.rep m (mont_mul m (table ! j) b) (v ^ j * v)"
    using mont.rep_mul [OF assms(1) _ assms(2)] Suc.prems(4) [of j] j by simp
  then have "mont.rep m (?t ! k) (v ^ k)" if "k < i + 1" for k
    using that Suc.prems(3,4) i j by (cases "k = i") (simp_all add: mult.commute)
  then have "length (pow_table m b (i + 1) ?t) = 16
      \<and> (\<forall>k < 16. mont.rep m (pow_table m b (i + 1) ?t ! k) (v ^ k))"
    using Suc.hyps(2) Suc.prems(1,3) i by (intro Suc.hyps(1)) simp_all
  then show ?case using i by (simp add: pow_table.simps [of m b i])
qed

lemma gather_rep:
  assumes "length table = 16" and "\<forall>k < 16. mont.rep m (table ! k) (v k)" and "unat idx < 16"
  shows "mont.rep m (gather table idx) (v (unat idx))"
proof -
  have "list_all (\<lambda>t. length t = length (mm_modulus m)) table"
    using assms(1,2) rep_length by (auto simp: list_all_length)
  then show ?thesis using gather_nth [of _ table idx] assms by simp
qed

lemma pow_bits_rep:
  assumes "mont_ok m" and "mont_elt m base" and "W = max ((bits + 3) div 4) 1"
  shows "mont_elt m (pow_bits m base e bits)"
    and "wval (pow_bits m base e bits) = wval base ^ (wval e mod 16 ^ W) mod wval (mm_modulus m)"
proof -
  have sh: "mont_shape m" using assms(1) by (simp add: mont_ok_def)
  let ?b = "to_mont m base"
  have "0 < W" using assms(3) by simp
  then obtain w where w: "W = Suc w" using gr0_conv_Suc by blast
  define T where "T = pow_table m ?b 2 ((replicate 16 (to_mont m (uint_one (length (mm_modulus m)))))[1 := ?b])"
  note rb = to_mont_rep [OF assms(1,2)] and r1 = rep_one [OF assms(1)]
  have "length T = 16 \<and> (\<forall>k < 16. mont.rep m (T ! k) (wval base ^ k))"
    unfolding T_def using rb r1
    by (intro pow_table_rep [OF sh rb]) (auto simp: less_2_cases_iff)
  then have T: "length T = 16" "\<forall>k < 16. mont.rep m (T ! k) (wval base ^ k)" by blast+
  have entry: "mont.rep m (gather T (pow_digit e i)) (wval base ^ ((wval e div 16 ^ i) mod 16))" for i
    using gather_rep [OF T, of "pow_digit e i"] by (simp add: pow_digit_val)
  let ?v = "\<lambda>i. wval base ^ ((wval e mod 16 ^ W) div 16 ^ i)"
  have step: "?v i = ?v (Suc i) ^ (2 ^ 4) * wval base ^ ((wval e div 16 ^ i) mod 16)" if "i < w" for i
    using digit_recombine [of i W "wval e" 16] that w by (simp add: power_add power_mult [symmetric] mult.commute)
  have "mont.rep m (gather T (pow_digit e w)) (?v w)"
    using entry [of w] digit_recombine [of w W "wval e" 16] w by simp
  then have "mont.rep m (window_loop m 4 (\<lambda>w. gather T (pow_digit e w)) w (gather T (pow_digit e w))) (?v 0)"
    by (intro rep_window_loop [where g = "\<lambda>i. wval base ^ ((wval e div 16 ^ i) mod 16)"] sh entry step)
  moreover have "pow_bits m base e bits
      = from_mont m (window_loop m 4 (\<lambda>w. gather T (pow_digit e w)) w (gather T (pow_digit e w)))"
    unfolding pow_bits_def T_def Let_def assms(3) [symmetric] w by simp
  ultimately show "mont_elt m (pow_bits m base e bits)"
    and "wval (pow_bits m base e bits) = wval base ^ (wval e mod 16 ^ W) mod wval (mm_modulus m)"
    using from_mont_rep [OF assms(1)] by simp_all
qed

lemma pow_val:
  assumes "mont_ok m" and "mont_elt m base" and "length e = length (mm_modulus m)"
  shows "mont_elt m (pow m base e)" and "wval (pow m base e) = wval base ^ wval e mod wval (mm_modulus m)"
proof -
  let ?L = "length (mm_modulus m)"
  have "1 \<le> ?L" using assms(1) by (cases "mm_modulus m") (auto simp: mont_ok_def mont_shape_def)
  moreover have "(?L * 64 + 3) div 4 = 16 * ?L" by presburger
  ultimately have W: "max ((?L * 64 + 3) div 4) 1 = 16 * ?L" by linarith
  have "wval e < 2 ^ (64 * ?L)" using wval_lt [of e] assms(3) by simp
  also have "(2 :: nat) ^ (64 * ?L) = 16 ^ (16 * ?L)" by (simp add: power_mult)
  finally show "mont_elt m (pow m base e)"
    and "wval (pow m base e) = wval base ^ wval e mod wval (mm_modulus m)"
    unfolding pow_def using pow_bits_rep [OF assms(1,2) W [symmetric], of e] by (simp_all only: mod_less)
qed

section \<open>Two bases, public exponents, residues\<close>

lemma pow2_table_rep:
  assumes "mont_ok m" and "mont_elt m a" and "mont_elt m b"
  shows "length (pow2_table m a b) = 16
    \<and> (\<forall>k < 16. mont.rep m (pow2_table m a b ! k) (wval a ^ (k mod 4) * wval b ^ (k div 4)))"
proof -
  have sh: "mont_shape m" using assms(1) by (simp add: mont_ok_def)
  note r1 = rep_one [OF assms(1)] and ra = to_mont_rep [OF assms(1,2)] and rb = to_mont_rep [OF assms(1,3)]
  define A B where "A = to_mont m a" and "B = to_mont m b"
  define one B2 B3 where "one = to_mont m (uint_one (length (mm_modulus m)))" and "B2 = mont_sqr m B"
    and "B3 = mont_mul m (mont_sqr m B) B"
  let ?p = "\<lambda>x. mont_mul m x A"
  have T: "pow2_table m a b = [one, A, ?p A, ?p (?p A), B, ?p B, ?p (?p B), ?p (?p (?p B)),
      B2, ?p B2, ?p (?p B2), ?p (?p (?p B2)), B3, ?p B3, ?p (?p B3), ?p (?p (?p B3))]"
    by (simp add: pow2_table_def Let_def numeral_eq_Suc A_def B_def one_def B2_def B3_def)
  have p: "mont.rep m (?p x) (wval a * v)" if "mont.rep m x v" for x v
    using mont.rep_mul [OF sh that ra] by (simp add: A_def mult.commute)
  have r: "mont.rep m one 1" "mont.rep m A (wval a)" "mont.rep m B (wval b)"
      "mont.rep m B2 (wval b * wval b)" "mont.rep m B3 (wval b * wval b * wval b)"
    using r1 ra rb rep_sqr [OF sh rb] mont.rep_mul [OF sh rep_sqr [OF sh rb] rb]
    by (simp_all add: A_def B_def one_def B2_def B3_def)
  let ?a = "\<lambda>v. wval a * v" and ?b = "wval b"
  have "[0..<16] = [0, 1, 2, 3, 4, 5, 6, 7, 8, 9, 10, 11, 12, 13, 14, 15 :: nat]"
    by (simp add: upt_rec)
  then have L: "map (\<lambda>k. wval a ^ (k mod 4) * wval b ^ (k div 4)) [0..<16]
      = [1, wval a, ?a (wval a), ?a (?a (wval a)), ?b, ?a ?b, ?a (?a ?b), ?a (?a (?a ?b)),
        ?b * ?b, ?a (?b * ?b), ?a (?a (?b * ?b)), ?a (?a (?a (?b * ?b))),
        ?b * ?b * ?b, ?a (?b * ?b * ?b), ?a (?a (?b * ?b * ?b)), ?a (?a (?a (?b * ?b * ?b)))]"
    by (simp add: power2_eq_square power3_eq_cube mult.assoc)
  have "list_all2 (mont.rep m) (pow2_table m a b)
      (map (\<lambda>k. wval a ^ (k mod 4) * wval b ^ (k div 4)) [0..<16])"
    unfolding T L by (intro list_all2_Cons [THEN iffD2] list_all2_Nil [THEN iffD2] refl conjI p r)
  then show ?thesis by (auto simp: list_all2_conv_all_nth)
qed

lemma two_digit_val:
  "unat (two_bits x w OR push_bit 2 (two_bits y w)) = (wval x div 4 ^ w) mod 4 + 4 * ((wval y div 4 ^ w) mod 4)"
proof -
  have "(wval y div 4 ^ w) mod 4 * 2 ^ 2 < 4 * 2 ^ 2" by simp
  then have "unat (two_bits y w) * 2 ^ 2 < 2 ^ LENGTH(64)" unfolding two_bits_val by simp
  then have "unat (two_bits x w OR push_bit 2 (two_bits y w)) = unat (two_bits x w) + unat (two_bits y w) * 2 ^ 2"
    by (intro unat_or_shift) (simp_all add: two_bits_val)
  then show ?thesis by (simp add: two_bits_val)
qed

lemma pow2_bits_rep:
  assumes "mont_ok m" and "mont_elt m a" and "mont_elt m b" and "W = max ((bits + 1) div 2) 1"
  shows "mont_elt m (pow2_bits m a x b y bits)"
    and "wval (pow2_bits m a x b y bits)
      = (wval a ^ (wval x mod 4 ^ W) * wval b ^ (wval y mod 4 ^ W)) mod wval (mm_modulus m)"
proof -
  have sh: "mont_shape m" using assms(1) by (simp add: mont_ok_def)
  have "0 < W" using assms(4) by simp
  then obtain w where w: "W = Suc w" using gr0_conv_Suc by blast
  define T where "T = pow2_table m a b"
  have T: "length T = 16" "\<forall>k < 16. mont.rep m (T ! k) (wval a ^ (k mod 4) * wval b ^ (k div 4))"
    unfolding T_def using pow2_table_rep [OF assms(1-3)] by blast+
  let ?d = "\<lambda>w. two_bits x w OR push_bit 2 (two_bits y w)"
  let ?g = "\<lambda>i. wval a ^ ((wval x div 4 ^ i) mod 4) * wval b ^ ((wval y div 4 ^ i) mod 4)"
  have entry: "mont.rep m (gather T (?d i)) (?g i)" for i
  proof -
    let ?u = "(wval x div 4 ^ i) mod 4" and ?v = "(wval y div 4 ^ i) mod 4"
    have "?u < 4" "?v < 4" by simp_all
    then have "unat (?d i) < 16" "unat (?d i) mod 4 = ?u" "unat (?d i) div 4 = ?v"
      unfolding two_digit_val by (linarith, simp_all)
    then show ?thesis using gather_rep [OF T, of "?d i"] by simp
  qed
  let ?v = "\<lambda>i. wval a ^ ((wval x mod 4 ^ W) div 4 ^ i) * wval b ^ ((wval y mod 4 ^ W) div 4 ^ i)"
  have step: "?v i = ?v (Suc i) ^ (2 ^ 2) * ?g i" if "i < w" for i
  proof -
    have e: "(e mod 4 ^ W) div 4 ^ i = 4 * ((e mod 4 ^ W) div 4 ^ Suc i) + (e div 4 ^ i) mod 4" for e :: nat
      using digit_recombine [of i W e 4] that w by simp
    show ?thesis
      unfolding e [of "wval x"] e [of "wval y"]
      by (simp add: power_add power_mult_distrib mult.commute [of 4] flip: power_mult)
  qed
  have "?v w = ?g w"
    using digit_recombine [of w W "wval x" 4] digit_recombine [of w W "wval y" 4] w by simp
  then have "mont.rep m (gather T (?d w)) (?v w)" using entry [of w] by simp
  then have "mont.rep m (window_loop m 2 (\<lambda>w. gather T (?d w)) w (gather T (?d w))) (?v 0)"
    by (intro rep_window_loop [where g = ?g] sh entry step)
  moreover have "pow2_bits m a x b y bits = from_mont m (window_loop m 2 (\<lambda>w. gather T (?d w)) w (gather T (?d w)))"
    unfolding pow2_bits_def T_def Let_def assms(4) [symmetric] w by simp
  ultimately show "mont_elt m (pow2_bits m a x b y bits)"
    and "wval (pow2_bits m a x b y bits)
      = (wval a ^ (wval x mod 4 ^ W) * wval b ^ (wval y mod 4 ^ W)) mod wval (mm_modulus m)"
    using from_mont_rep [OF assms(1)] by simp_all
qed

lemma pow_public_loop_rep:
  assumes "mont_shape m" and "mont.rep m b v" and "mont.rep m acc (v ^ (wval e div 2 ^ i))" and "i \<le> 64 * length e"
  shows "mont.rep m (pow_public_loop m b e i acc) (v ^ wval e)"
  using assms(3,4)
proof (induction i arbitrary: acc)
  case (Suc i)
  have q: "wval e div 2 ^ i = 2 * (wval e div 2 ^ Suc i) + (wval e div 2 ^ i) mod 2"
    by (simp add: div_mult2_eq mult.commute [of _ "2 ^ i"] power_Suc2 del: power_Suc)
  have b: "(drop_bit (i mod 64) (e ! (i div 64)) AND 1 = 1) \<longleftrightarrow> (wval e div 2 ^ i) mod 2 = 1"
  proof -
    have "i div 64 < length e" using Suc.prems(2) by (simp add: less_mult_imp_div_less)
    then show ?thesis
      using bit_lval [of e i] by (simp add: limb_low_bit bit_iff_odd [of "wval e"] odd_iff_mod_2_eq_one
          even_drop_bit_iff_not_bit)
  qed
  have s: "mont.rep m (mont_sqr m acc) (v ^ (2 * (wval e div 2 ^ Suc i)))"
    using rep_sqr [OF assms(1) Suc.prems(1)] by (simp add: mult_2 power_add)
  let ?acc = "if drop_bit (i mod 64) (e ! (i div 64)) AND 1 = 1 then mont_mul m (mont_sqr m acc) b else mont_sqr m acc"
  have "mont.rep m ?acc (v ^ (wval e div 2 ^ i))"
    using mont.rep_mul [OF assms(1) s assms(2)] s
    by (subst q) (cases "(wval e div 2 ^ i) mod 2 = 1"; simp add: b mult.commute)
  then show ?case using Suc.IH [of ?acc] Suc.prems(2) by (simp add: Let_def)
qed simp

lemma pow_public_val:
  assumes "mont_ok m" and "mont_elt m base"
  shows "mont_elt m (pow_public m base e)"
    and "wval (pow_public m base e) = wval base ^ wval e mod wval (mm_modulus m)"
proof -
  have sh: "mont_shape m" using assms(1) by (simp add: mont_ok_def)
  have "\<exists>x. pow_public m base e = from_mont m x \<and> mont.rep m x (wval base ^ wval e)"
  proof (cases "uint_bit_len e = 0")
    case True
    then have "wval e = 0" using uint_bit_len_bounds(1) [of e] by simp
    then show ?thesis using True rep_one [OF assms(1)] by (auto simp: pow_public_def)
  next
    case False
    let ?k = "uint_bit_len e - 1"
    have lo: "2 ^ ?k \<le> wval e" and hi: "wval e < 2 ^ Suc ?k"
      using uint_bit_len_bounds [of e] False by simp_all
    have "wval e div 2 ^ ?k = 1"
    proof -
      have "wval e div 2 ^ ?k < 2" using hi by (intro less_mult_imp_div_less) (simp add: mult.commute)
      moreover have "0 < wval e div 2 ^ ?k" using lo by (simp add: div_greater_zero_iff)
      ultimately show ?thesis by simp
    qed
    moreover have "wval e < 2 ^ (64 * length e)" using wval_lt [of e] by simp
    with lo have "(2 :: nat) ^ ?k < 2 ^ (64 * length e)" by (rule le_less_trans)
    then have "?k \<le> 64 * length e" by simp
    ultimately have "mont.rep m (pow_public_loop m (to_mont m base) e ?k (to_mont m base)) (wval base ^ wval e)"
      using to_mont_rep [OF assms] by (intro pow_public_loop_rep [OF sh]) simp_all
    then show ?thesis using False by (auto simp: pow_public_def Let_def)
  qed
  then show "mont_elt m (pow_public m base e)"
    and "wval (pow_public m base e) = wval base ^ wval e mod wval (mm_modulus m)"
    using from_mont_rep [OF assms(1)] by auto
qed

lemma mm_reduce_chunk_val:
  assumes "mm_limbs m \<le> length (mm_modulus m)"
  shows "length (mm_reduce_chunk m x i) = length (mm_modulus m)"
    and "wval (mm_reduce_chunk m x i) = (wval x div mont_radix m ^ i) mod mont_radix m"
proof -
  let ?s = "mm_limbs m" and ?L = "length (mm_modulus m)"
  show l: "length (mm_reduce_chunk m x i) = ?L" by (simp add: mm_reduce_chunk_def Let_def)
  have R: "mont_radix m = 2 ^ (64 * ?s)" by (simp only: mont_radix_def \<beta>_def power_mult)
  have "wval (mm_reduce_chunk m x i) = take_bit (64 * ?s) (drop_bit (64 * ?s * i) (wval x))"
  proof (rule bit_eqI)
    fix k :: nat
    have k: "64 * (i * ?s + k div 64) + k mod 64 = 64 * ?s * i + k" by (simp add: algebra_simps)
    have "k div 64 < ?s \<longleftrightarrow> k < 64 * ?s" by (simp add: less_mult_imp_div_less div_less_iff_less_mult mult.commute)
    then show "bit (wval (mm_reduce_chunk m x i)) k = bit (take_bit (64 * ?s) (drop_bit (64 * ?s * i) (wval x))) k"
      using limb_or_0_bit [of "k mod 64" x "i * ?s + k div 64"] assms l
      unfolding k bit_lval bit_take_bit_iff bit_drop_bit_eq
      by (auto simp: mm_reduce_chunk_def Let_def)
  qed
  then show "wval (mm_reduce_chunk m x i) = (wval x div mont_radix m ^ i) mod mont_radix m"
    unfolding R by (simp add: take_bit_eq_mod drop_bit_eq_div power_mult)
qed

lemma chunk_rep:
  assumes "mont_ok m"
  shows "mont.rep m (mont_mul m (mm_reduce_chunk m x i) (mm_r2 m)) ((wval x div mont_radix m ^ i) mod mont_radix m)"
proof -
  let ?c = "mm_reduce_chunk m x i" and ?n = "wval (mm_modulus m)" and ?R = "mont_radix m"
  have sh: "mont_shape m" and r2: "mont_elt m (mm_r2 m)" "wval (mm_r2 m) = (?R * ?R) mod ?n"
    using assms by (simp_all add: mont_ok_def)
  have "mm_limbs m \<le> length (mm_modulus m)" using sh by (simp add: mont_shape_def)
  note c = mm_reduce_chunk_val [OF this, of x i]
  have R: "0 < ?R" by (simp add: mont_radix_def)
  have lt: "wval ?c < ?R" unfolding c(2) using R by simp
  have n: "?n < ?R" by (rule mont_shape_take [OF sh])
  have r: "wval (mm_r2 m) < ?n" using r2 by (simp add: mont_elt_def)
  have "wval ?c * wval (mm_r2 m) < ?R * ?n" using lt r by (intro mult_strict_mono) simp_all
  then have "mont_elt m (mont_mul m ?c (mm_r2 m))
    \<and> (wval (mont_mul m ?c (mm_r2 m)) * ?R) mod ?n = (wval ?c * wval (mm_r2 m)) mod ?n"
    using r n lt c(1) r2(1) by (intro mont_mul_wide_val [OF sh]) (simp_all add: mont_elt_def mult.commute)
  then have e: "mont_elt m (mont_mul m ?c (mm_r2 m))"
    and v: "(wval (mont_mul m ?c (mm_r2 m)) * ?R) mod ?n = (wval ?c * ?R * ?R) mod ?n"
    unfolding r2(2) by (simp_all add: mod_mult_right_eq mult.assoc)
  have "wval (mont_mul m ?c (mm_r2 m)) mod ?n = (wval ?c * ?R) mod ?n"
    by (rule mont.radix_cancel [OF sh v])
  then show ?thesis using e c(2) by (simp add: mont.rep_def mont_elt_def)
qed

lemma rep_add:
  assumes "mont.rep m x u" and "mont.rep m y v"
  shows "mont.rep m (mm_add_mod m x y) (u + v)"
proof -
  have "length x = length (mm_modulus m)" "length y = length (mm_modulus m)"
      "wval x + wval y < 2 * wval (mm_modulus m)" "0 < wval (mm_modulus m)"
    using assms by (auto simp: mont.rep_def mont_elt_def)
  then show ?thesis
    using add_mod_val [of x "mm_modulus m" y] assms
    by (simp add: mont.rep_def mont_elt_def mm_add_mod_def mod_add_eq distrib_right)
qed

lemma mm_reduce_loop_rep:
  assumes "mont_ok m" and "i \<le> chunks" and "i < chunks \<longrightarrow> mont.rep m acc (wval x div mont_radix m ^ i)"
    and "0 < chunks" and "wval x < mont_radix m ^ chunks"
  shows "mont.rep m (mm_reduce_loop m x chunks i acc) (wval x)"
  using assms(2,3)
proof (induction i arbitrary: acc)
  case 0
  then show ?case using assms(4) by simp
next
  case (Suc i)
  let ?R = "mont_radix m"
  let ?cm = "mont_mul m (mm_reduce_chunk m x i) (mm_r2 m)"
  let ?acc = "if i + 1 = chunks then ?cm else mm_add_mod m (mont_mul m acc (mm_r2 m)) ?cm"
  have sh: "mont_shape m" and r2: "mont_elt m (mm_r2 m)" "wval (mm_r2 m) = (?R * ?R) mod wval (mm_modulus m)"
    using assms(1) by (simp_all add: mont_ok_def)
  have R: "0 < ?R" by (simp add: mont_radix_def)
  have q: "wval x div ?R ^ i = (wval x div ?R ^ Suc i) * ?R + (wval x div ?R ^ i) mod ?R"
    by (simp add: div_mult2_eq mult.commute [of ?R])
  have "mont.rep m ?acc (wval x div ?R ^ i)"
  proof (cases "i + 1 = chunks")
    case True
    then have "wval x div ?R ^ Suc i = 0" using assms(5) by simp
    then have "wval x div ?R ^ i = (wval x div ?R ^ i) mod ?R" using q by simp
    then show ?thesis using True chunk_rep [OF assms(1), of x i] by simp
  next
    case False
    then have acc: "mont.rep m acc (wval x div ?R ^ Suc i)" using Suc.prems by simp
    then have "mont_elt m acc" by (simp add: mont.rep_def)
    then have "mont.rep m (mont_mul m acc (mm_r2 m)) (wval acc)"
      by (rule mont.rep_enter [OF sh _ r2])
    then have "mont.rep m (mont_mul m acc (mm_r2 m)) ((wval x div ?R ^ Suc i) * ?R)"
      by (rule mont.rep_cong) (use acc in \<open>simp add: mont.rep_def\<close>)
    then show ?thesis
      using False rep_add [OF _ chunk_rep [OF assms(1), of x i]] by (subst q) simp
  qed
  then show ?case using Suc.IH [of ?acc] Suc.prems(1) by (simp add: Let_def)
qed

lemma mm_reduce_val:
  assumes "mont_ok m" and "length x = length (mm_modulus m)"
  shows "mont_elt m (mm_reduce m x)" and "wval (mm_reduce m x) = wval x mod wval (mm_modulus m)"
proof -
  let ?s = "mm_limbs m" and ?L = "length (mm_modulus m)"
  define chunks where "chunks = (?L + ?s - 1) div ?s"
  have s: "0 < ?s" "?s \<le> ?L" using assms(1) by (auto simp: mont_ok_def mont_shape_def)
  have "?L \<le> ?s * chunks"
    using mult_div_mod_eq [of ?s "?L + ?s - 1"] mod_less_divisor [OF s(1), of "?L + ?s - 1"] s(1)
    unfolding chunks_def by linarith
  then have "\<beta> ^ ?L \<le> \<beta> ^ (?s * chunks)" by (intro power_increasing) (simp_all add: Suc_leI)
  then have lt: "wval x < mont_radix m ^ chunks"
    using lval_lt [of x] assms(2) by (simp add: mont_radix_def power_mult)
  have c: "0 < chunks" using s unfolding chunks_def by (simp add: div_greater_zero_iff)
  have "mont.rep m (mm_reduce_loop m x chunks chunks (uint_zero ?L)) (wval x)"
    by (rule mm_reduce_loop_rep [OF assms(1)]) (use lt c in simp_all)
  moreover have "mm_reduce m x = from_mont m (mm_reduce_loop m x chunks chunks (uint_zero ?L))"
    by (simp add: mm_reduce_def Let_def chunks_def)
  ultimately show "mont_elt m (mm_reduce m x)" and "wval (mm_reduce m x) = wval x mod wval (mm_modulus m)"
    using from_mont_rep [OF assms(1)] by simp_all
qed

section \<open>Inversion modulo a prime\<close>

definition is_prime :: "nat \<Rightarrow> bool" where
  "is_prime p \<longleftrightarrow> 1 < p \<and> (\<forall>d \<in> {2..<p}. \<not> d dvd p)"

lemma is_prime_coprime:
  assumes "is_prime p" and "0 < k" and "k < p"
  shows "coprime p k"
proof (rule coprimeI)
  fix d assume d: "d dvd p" "d dvd k"
  then have "0 < d" "d < p" using assms(2,3) by (auto dest: dvd_imp_le intro: Nat.gr0I)
  then have "d = 1" using assms(1) d(1) by (cases "d = 1") (auto simp: is_prime_def)
  then show "is_unit d" by simp
qed

lemma is_prime_dvd_choose:
  assumes "is_prime p" and "0 < k" and "k < p"
  shows "p dvd (p choose k)"
proof -
  obtain q where q: "p = Suc q" using assms(3) by (cases p) auto
  have "k * (p choose k) = p * ((p - 1) choose (k - 1))"
    using assms(2,3) by (metis binomial_absorption Suc_pred' q diff_Suc_1)
  then have "p dvd k * (p choose k)" by simp
  then show ?thesis using is_prime_coprime [OF assms] by (simp add: coprime_dvd_mult_right_iff)
qed

lemma fermat_power:
  assumes "is_prime p"
  shows "(a :: nat) ^ p mod p = a mod p"
proof (induction a)
  case 0
  then show ?case using assms by (simp add: is_prime_def power_0_left)
next
  case (Suc a)
  have p: "1 < p" using assms by (simp add: is_prime_def)
  have "(a + 1) ^ p = (\<Sum>k\<le>p. (p choose k) * a ^ k)"
    using binomial_ring [of a 1 p] by simp
  also have "{..p} = insert 0 (insert p {1..<p})" using p by auto
  also have "(\<Sum>k\<in>insert 0 (insert p {1..<p}). (p choose k) * a ^ k) = 1 + a ^ p + (\<Sum>k\<in>{1..<p}. (p choose k) * a ^ k)"
    using p by simp
  finally have e: "Suc a ^ p = 1 + a ^ p + (\<Sum>k\<in>{1..<p}. (p choose k) * a ^ k)" by simp
  have "p dvd (\<Sum>k\<in>{1..<p}. (p choose k) * a ^ k)"
    by (intro dvd_sum dvd_mult2 is_prime_dvd_choose [OF assms]) auto
  then have "Suc a ^ p mod p = (1 + a ^ p) mod p" unfolding e by (metis mod_add_right_eq dvd_imp_mod_0 add_0_right)
  also have "\<dots> = (1 + a) mod p" using Suc.IH by (metis mod_add_right_eq)
  finally show ?case by simp
qed

lemma fermat_inverse:
  assumes "is_prime p" and "0 < a" and "a < p"
  shows "(a * (a ^ (p - 2) mod p)) mod p = 1"
proof -
  have p: "1 < p" using assms(1) by (simp add: is_prime_def)
  have "a * (a * a ^ (p - 2)) = a ^ Suc (Suc (p - 2))" by simp
  moreover have "Suc (Suc (p - 2)) = p" using p by simp
  ultimately have "(a * (a * a ^ (p - 2))) mod p = (a * 1) mod p" using fermat_power [OF assms(1), of a] by simp
  moreover have "1 \<le> a * a ^ (p - 2)" using assms(2) by simp
  ultimately have "p dvd a * (a * a ^ (p - 2) - 1)"
    by (simp add: mod_eq_dvd_iff_nat diff_mult_distrib2)
  then have "p dvd a * a ^ (p - 2) - 1"
    using is_prime_coprime [OF assms] by (simp add: coprime_dvd_mult_right_iff)
  then have "(a * a ^ (p - 2)) mod p = 1 mod p"
    using mod_eq_dvd_iff_nat [OF \<open>1 \<le> a * a ^ (p - 2)\<close>, of p] by blast
  then show ?thesis using p by (simp add: mod_mult_right_eq)
qed

lemma inv_prime_val:
  assumes "mont_ok m" and "mont_elt m a" and "3 \<le> wval (mm_modulus m)"
  shows "mont_elt m (inv_prime m a)"
    and "wval (inv_prime m a) = wval a ^ (wval (mm_modulus m) - 2) mod wval (mm_modulus m)"
proof -
  let ?n = "mm_modulus m"
  have ne: "?n \<noteq> []" using assms(1) by (auto simp: mont_ok_def mont_shape_def)
  have two: "length (uint_from_u64 (length ?n) 2) = length ?n" "wval (uint_from_u64 (length ?n) 2) = 2"
    using ne by (cases ?n; simp add: uint_from_u64_def lval_zeros list_all_iff)+
  obtain d bo where d: "uint_sbb ?n (uint_from_u64 (length ?n) 2) 0 = (d, bo)" by fastforce
  have "wval d = wval ?n - 2" "length d = length ?n"
    using uint_sbb_borrow [OF d] two assms(3) by simp_all
  then show "mont_elt m (inv_prime m a)" and "wval (inv_prime m a) = wval a ^ (wval ?n - 2) mod wval ?n"
    using pow_val [OF assms(1,2), of d] by (simp_all add: inv_prime_def uint_wrapping_sub_def d Let_def)
qed

section \<open>The contract of the exponentiation routines\<close>

text \<open>
  C14.  The constant-time fixed-window \<open>pow\<close> computes \<open>base\<^sup>e mod n\<close> for every odd modulus above one, every
  reduced base and every exponent of the storage width, and the variable-time \<open>pow_public\<close> returns the
  same limbs.
\<close>

theorem pow_correct:
  assumes "odd (wval n)" and "1 < wval n" and "length base = length n" and "wval base < wval n"
    and "length e = length n"
  shows "\<exists>m. mont_new n = Some m \<and> length (pow m base e) = length n
    \<and> wval (pow m base e) = wval base ^ wval e mod wval n \<and> pow_public m base e = pow m base e"
proof -
  obtain m where m: "mont_new n = Some m" "mont_ok m" "mm_modulus m = n"
    using assms(1,2) by (rule mont_new_odd)
  have b: "mont_elt m base" using assms(3,4) by (simp add: mont_elt_def m(3))
  note p = pow_val [OF m(2) b, of e] and q = pow_public_val [OF m(2) b, of e]
  have "pow_public m base e = pow m base e"
    using p q assms(5) by (intro wval_inject) (simp_all add: mont_elt_def m(3))
  then show ?thesis using p m assms(5) by (simp add: mont_elt_def)
qed

theorem pow_correct_witness:
  "\<exists>m. mont_new [0xFFFFFFFFFFFFFFC5, 7] = Some m
    \<and> length (pow m [3, 5] [0x1F, 1]) = length [0xFFFFFFFFFFFFFFC5, 7 :: u64]
    \<and> wval (pow m [3, 5] [0x1F, 1]) = wval [3, 5 :: u64] ^ wval [0x1F, 1 :: u64] mod wval [0xFFFFFFFFFFFFFFC5, 7 :: u64]
    \<and> pow_public m [3, 5] [0x1F, 1] = pow m [3, 5] [0x1F, 1]"
  by (rule pow_correct) (simp_all add: \<beta>_def)

text \<open>
  C27.  The two-base ladder \<open>pow2\<close> computes \<open>a\<^sup>x b\<^sup>y mod n\<close>.
\<close>

theorem pow2_correct:
  assumes "odd (wval n)" and "1 < wval n" and "length a = length n" and "wval a < wval n"
    and "length b = length n" and "wval b < wval n" and "length x = length n" and "length y = length n"
  shows "\<exists>m. mont_new n = Some m
    \<and> wval (pow2 m a x b y) = (wval a ^ wval x * wval b ^ wval y) mod wval n"
proof -
  obtain m where m: "mont_new n = Some m" "mont_ok m" "mm_modulus m = n"
    using assms(1,2) by (rule mont_new_odd)
  have ab: "mont_elt m a" "mont_elt m b" using assms(3-6) by (simp_all add: mont_elt_def m(3))
  have "1 \<le> length n" using assms(2) by (cases n) auto
  moreover have "(length n * 64 + 1) div 2 = 32 * length n" by presburger
  ultimately have W: "max ((length n * 64 + 1) div 2) 1 = 32 * length n" by linarith
  have "(4 :: nat) ^ (32 * length n) = 2 ^ (64 * length n)" by (simp add: power_mult)
  then have "wval x < 4 ^ (32 * length n)" "wval y < 4 ^ (32 * length n)"
    using wval_lt [of x] wval_lt [of y] assms(7,8) by simp_all
  then have "wval (pow2 m a x b y) = (wval a ^ wval x * wval b ^ wval y) mod wval n"
    using pow2_bits_rep(2) [OF m(2) ab W [symmetric], of x y] by (simp only: pow2_def m(3) mod_less)
  then show ?thesis using m(1) by (intro exI [of _ m]) simp
qed

theorem pow2_correct_witness:
  "\<exists>m. mont_new [0xFFFFFFFFFFFFFFC5] = Some m
    \<and> wval (pow2 m [3] [77] [5] [0x123456789]) = (wval [3 :: u64] ^ wval [77 :: u64]
        * wval [5 :: u64] ^ wval [0x123456789 :: u64]) mod wval [0xFFFFFFFFFFFFFFC5 :: u64]"
  by (rule pow2_correct) simp_all

text \<open>
   \<open>MontModulus::reduce\<close> maps any value of the storage width, reduced or not, to its residue.
\<close>

theorem mm_reduce_correct:
  assumes "odd (wval n)" and "1 < wval n" and "length x = length n"
  shows "\<exists>m. mont_new n = Some m \<and> length (mm_reduce m x) = length n \<and> wval (mm_reduce m x) = wval x mod wval n"
proof -
  obtain m where m: "mont_new n = Some m" "mont_ok m" "mm_modulus m = n"
    using assms(1,2) by (rule mont_new_odd)
  then show ?thesis using mm_reduce_val [OF m(2), of x] assms(3) by (simp add: mont_elt_def)
qed

theorem mm_reduce_correct_witness:
  "\<exists>m. mont_new [0xFFFFFFFFFFFFFFC5, 0, 0] = Some m
    \<and> length (mm_reduce m [9, 8, 7]) = length [0xFFFFFFFFFFFFFFC5, 0, 0 :: u64]
    \<and> wval (mm_reduce m [9, 8, 7]) = wval [9, 8, 7 :: u64] mod wval [0xFFFFFFFFFFFFFFC5, 0, 0 :: u64]"
  by (rule mm_reduce_correct) (simp_all add: \<beta>_def)

text \<open>
  Modulo an odd prime, \<open>inv_prime\<close> returns the multiplicative inverse of every nonzero reduced value.
\<close>

theorem inv_prime_correct:
  assumes "is_prime (wval p)" and "wval p \<noteq> 2" and "length a = length p" and "0 < wval a" and "wval a < wval p"
  shows "\<exists>m. mont_new p = Some m \<and> wval (inv_prime m a) < wval p
    \<and> (wval a * wval (inv_prime m a)) mod wval p = 1"
proof -
  have p: "1 < wval p" and o: "odd (wval p)"
    using assms(1,2) by (auto simp: is_prime_def)
  obtain m where m: "mont_new p = Some m" "mont_ok m" "mm_modulus m = p"
    using o p by (rule mont_new_odd)
  have "3 \<le> wval p" using p assms(2) by linarith
  then show ?thesis
    using inv_prime_val [OF m(2), of a] fermat_inverse [OF assms(1,4,5)] m assms(3,5) by (simp add: mont_elt_def)
qed

theorem inv_prime_correct_witness:
  "\<exists>m. mont_new [13] = Some m \<and> wval (inv_prime m [5]) < wval [13 :: u64]
    \<and> (wval [5 :: u64] * wval (inv_prime m [5])) mod wval [13 :: u64] = 1"
  by (rule inv_prime_correct) (simp_all add: is_prime_def atLeastLessThan_nat_numeral)

end
