(* ===== verification/Inverse.thy ===== *)
theory Inverse
imports UintBits
begin

unbundle bit_operations_syntax

text \<open>
  Modular inversion of fixed-width integers: the variable-time extended Euclidean algorithm of
  \<open>src/bignum/inverse.rs\<close> with its sign-magnitude Bezout coefficient, and the constant-time binary
  algorithm of \<open>src/bignum/ct_inverse.rs\<close> with the inverse modulo an even number built on it.  A
  failed assertion is \<open>None\<close>; the inner \<open>option\<close> of \<open>inv_mod\<close> is the source's \<open>Option\<close>.
\<close>

section \<open>Extended Euclid\<close>

definition signed_sub :: "uint \<Rightarrow> bool \<Rightarrow> uint \<Rightarrow> bool \<Rightarrow> uint \<times> bool" where
  "signed_sub a a_neg b b_neg =
     (if a_neg = b_neg then
        if \<not> bool_from_choice (ct_lt uint_ct_gt a b) then (uint_wrapping_sub a b, a_neg)
        else (uint_wrapping_sub b a, \<not> a_neg)
      else (uint_wrapping_add a b, a_neg))"

partial_function (option) inv_mod_loop ::
    "uint \<Rightarrow> uint \<Rightarrow> uint \<Rightarrow> bool \<Rightarrow> uint \<Rightarrow> bool \<Rightarrow> (uint \<times> uint \<times> bool) option" where
  "inv_mod_loop old_r r old_s old_neg s s_neg =
     (if \<not> bool_from_choice (uint_is_zero r) then
        Option.bind (uint_divrem old_r r) (\<lambda>(q, rem).
          (let qs = fst (uint_mul_wide q s);
               (new_s, new_neg) = signed_sub old_s old_neg qs s_neg
           in inv_mod_loop r rem s s_neg new_s new_neg))
      else Some (old_r, old_s, old_neg))"

definition inv_mod :: "uint \<Rightarrow> uint \<Rightarrow> uint option option" where
  "inv_mod a m =
     (if bool_from_choice (uint_is_zero a) \<or> bool_from_choice (uint_is_zero m) then Some None
      else
        (let one = uint_one (length m)
         in Option.bind (uint_reduce a m) (\<lambda>old_r.
            Option.bind (inv_mod_loop old_r m one False (uint_zero (length m)) False) (\<lambda>(old_r, old_s, old_neg).
              Some (if old_r \<noteq> one then None
                    else if old_neg then Some (uint_wrapping_sub m old_s)
                    else Some old_s)))))"

section \<open>The constant-time binary algorithm\<close>

definition half_mod :: "uint \<Rightarrow> uint \<Rightarrow> uint" where
  "half_mod x m =
     (let (sum, carry) = uint_adc x m 0;
          sum_half = uint_shr1 sum;
          k = length x - 1;
          sum_half = sum_half[k := sum_half ! k OR push_bit 63 carry]
      in uint_conditional_select sum_half (uint_shr1 x) (uint_is_odd x))"

definition sub_mod_ct :: "uint \<Rightarrow> uint \<Rightarrow> uint \<Rightarrow> uint" where
  "sub_mod_ct a b m =
     (let (diff, borrow) = uint_sbb a b 0;
          fixed = uint_wrapping_add diff m
      in uint_conditional_select fixed diff (choice_from_u8 (ucast borrow)))"

record inv_state =
  iu :: uint
  iv :: uint
  big_a :: uint
  big_c :: uint

definition inv_step :: "uint \<Rightarrow> inv_state \<Rightarrow> inv_state" where
  "inv_step m st =
     (let u = iu st; v = iv st; a = big_a st; c = big_c st;
          u_odd = uint_is_odd u;
          v_odd = uint_is_odd v;
          u_ge_v = choice_not (ct_lt uint_ct_gt u v);
          c1 = choice_not u_odd;
          c2 = choice_and u_odd (choice_not v_odd);
          c3 = choice_and (choice_and u_odd v_odd) u_ge_v;
          c4 = choice_and (choice_and u_odd v_odd) (choice_not u_ge_v);
          u_half = uint_shr1 u;
          v_half = uint_shr1 v;
          umv_half = uint_shr1 (uint_wrapping_sub u v);
          vmu_half = uint_shr1 (uint_wrapping_sub v u);
          a_half = half_mod a m;
          c_half = half_mod c m;
          amc_half = half_mod (sub_mod_ct a c m) m;
          cma_half = half_mod (sub_mod_ct c a m) m
      in \<lparr>iu = uint_conditional_select u_half (uint_conditional_select umv_half u c3) c1,
          iv = uint_conditional_select v_half (uint_conditional_select vmu_half v c4) c2,
          big_a = uint_conditional_select a_half (uint_conditional_select amc_half a c3) c1,
          big_c = uint_conditional_select c_half (uint_conditional_select cma_half c c4) c2\<rparr>)"

definition inv_mod_odd_ct :: "uint \<Rightarrow> uint \<Rightarrow> uint ct_option option" where
  "inv_mod_odd_ct a m =
     (if \<not> bool_from_choice (uint_is_odd m) then None
      else
        Option.bind (uint_reduce a m) (\<lambda>u.
          (let one = uint_one (length m);
               st = (inv_step m ^^ (2 * uint_bit_len m))
                 \<lparr>iu = u, iv = m, big_a = one, big_c = uint_zero (length m)\<rparr>
           in Some (ct_option_new (big_c st) (uint_ct_eq (iv st) one)))))"

function inv_mod_pow2_loop :: "uint \<Rightarrow> uint \<Rightarrow> nat \<Rightarrow> uint" where
  "inv_mod_pow2_loop e x correct_bits =
     (if 0 < correct_bits \<and> correct_bits < length e * 64 then
        (let e_inv = fst (uint_mul_wide e x);
             two = uint_from_u64 (length e) 2;
             x = fst (uint_mul_wide x (uint_wrapping_sub two e_inv))
         in inv_mod_pow2_loop e x (correct_bits * 2))
      else x)"
  by pat_completeness auto
termination
  by (relation "measure (\<lambda>(e, x, correct_bits). length e * 64 - correct_bits)") auto

declare inv_mod_pow2_loop.simps [simp del]

text \<open>The count starts at three, so the guard \<open>0 < correct_bits\<close> above always holds.\<close>

definition inv_mod_pow2 :: "uint \<Rightarrow> uint" where
  "inv_mod_pow2 e = inv_mod_pow2_loop e e 3"

definition inv_mod_ct :: "uint \<Rightarrow> uint \<Rightarrow> uint ct_option option" where
  "inv_mod_ct e phi =
     (if \<not> bool_from_choice (uint_is_odd e) then None
      else
        Option.bind (uint_reduce phi e) (\<lambda>t.
          (let zero = uint_zero (length e);
               neg_t = sub_mod_ct zero t e
           in Option.bind (inv_mod_odd_ct neg_t e) (\<lambda>y.
             (let e_inv = inv_mod_pow2 e;
                  num = uint_wrapping_add
                    (fst (uint_mul_wide phi (ct_unwrap_or uint_conditional_select y zero)))
                    (uint_one (length e));
                  d = fst (uint_mul_wide num e_inv)
              in Some (ct_option_new d (is_some y)))))))"

section \<open>Extended Euclid computes the inverse\<close>

definition sval :: "uint \<Rightarrow> bool \<Rightarrow> int" where
  "sval x neg = (if neg then - int (wval x) else int (wval x))"

lemma abs_sval [simp]: "\<bar>sval x neg\<bar> = int (wval x)"
  by (simp add: sval_def)

lemma uint_ct_lt_eq:
  "length a = length b \<Longrightarrow> bool_from_choice (ct_lt uint_ct_gt a b) \<longleftrightarrow> wval a < wval b"
  by (simp add: big_ord.ct_lt_iff choice_simps)

lemma length_wrapping_ops [simp]:
  assumes "length a = length b"
  shows "length (uint_wrapping_sub a b) = length b" and "length (uint_wrapping_add a b) = length b"
  using assms uint_sbb_exact [of a b 0] uint_adc_exact [of a b 0]
  by (cases "uint_sbb a b 0"; cases "uint_adc a b 0"; simp add: uint_wrapping_sub_def uint_wrapping_add_def)+

lemma signed_sub_val:
  assumes "length a = length b" and "wval a + wval b < \<beta> ^ length b" and "signed_sub a an b bn = (r, neg)"
  shows "length r = length b" and "sval r neg = sval a an - sval b bn"
  using assms uint_wrapping_sub_val [OF assms(1)] uint_wrapping_sub_val [OF assms(1) [symmetric]]
    uint_wrapping_add_val [OF assms(1)] uint_ct_lt_eq [OF assms(1)]
  by (auto simp: signed_sub_def sval_def of_nat_diff split: if_splits)

lemma abs_diff_opposite: "x * y \<le> 0 \<Longrightarrow> \<bar>x - y\<bar> = \<bar>x\<bar> + \<bar>y\<bar>" for x y :: int
  by (auto simp: mult_le_0_iff)

lemma euclid_loop:
  assumes "length old_r = L" "length r = L" "length old_s = L" "length s = L"
    and "int M dvd sval old_s on * a - int (wval old_r)" "int M dvd sval s sn * a - int (wval r)"
    and "wval s * wval old_r + wval old_s * wval r = M" "sval old_s on * sval s sn \<le> 0"
    and "wval old_s \<le> M" "wval s \<le> M" "M < \<beta> ^ L" "gcd (wval old_r) (wval r) = g"
  shows "\<exists>R T neg. inv_mod_loop old_r r old_s on s sn = Some (R, T, neg) \<and> length R = L \<and> length T = L
    \<and> wval R = g \<and> int M dvd sval T neg * a - int (wval R) \<and> wval T \<le> M"
  using assms
proof (induction "wval r" arbitrary: old_r r old_s on s sn rule: less_induct)
  case less
  show ?case
  proof (cases "wval r = 0")
    case True
    then show ?thesis
      using less.prems by (subst inv_mod_loop.simps) (auto simp: uint_is_zero_eq choice_simps)
  next
    case False
    obtain q rem where d: "uint_divrem old_r r = Some (q, rem)" "wval q = wval old_r div wval r"
        "wval rem = wval old_r mod wval r" "length q = L" "length rem = L"
      using uint_divrem_exact [of r old_r] False less.prems(1,2) by auto
    have dm: "wval q * wval r + wval rem = wval old_r" by (simp add: d(2,3))
    have "M = wval s * (wval q * wval r + wval rem) + wval old_s * wval r"
      using less.prems(7) by (simp add: dm)
    then have id: "(wval old_s + wval q * wval s) * wval r + wval s * wval rem = M"
      by (simp add: algebra_simps)
    have "wval old_s + wval q * wval s \<le> (wval old_s + wval q * wval s) * wval r"
      using False by (cases "wval r") simp_all
    then have le: "wval old_s + wval q * wval s \<le> M" using id by linarith
    define qs where "qs = fst (uint_mul_wide q s)"
    have qs: "wval qs = wval q * wval s" "length qs = L"
      using uint_wrapping_mul_val [of q s] le less.prems(4,11) d(4)
      by (simp_all add: qs_def uint_wrapping_mul_def)
    obtain ns nn where n: "signed_sub old_s on qs sn = (ns, nn)" by fastforce
    have nl: "length ns = L" and nv: "sval ns nn = sval old_s on - sval qs sn"
      using signed_sub_val [OF _ _ n] le less.prems(3,11) qs by simp_all
    have qv: "sval qs sn = int (wval q) * sval s sn" by (simp add: sval_def qs(1))
    have op: "sval old_s on * sval qs sn \<le> 0"
      using mult_left_mono [OF less.prems(8), of "int (wval q)"] by (simp add: qv ac_simps)
    have "\<bar>sval ns nn\<bar> = \<bar>sval old_s on\<bar> + \<bar>sval qs sn\<bar>"
      unfolding nv by (rule abs_diff_opposite [OF op])
    then have nm: "wval ns = wval old_s + wval q * wval s"
      unfolding abs_sval qs(1) [symmetric] by linarith
    have "sval ns nn * a - int (wval rem)
        = (sval old_s on * a - int (wval old_r)) - int (wval q) * (sval s sn * a - int (wval r))"
      unfolding nv qv dm [symmetric] by (simp add: algebra_simps)
    then have c: "int M dvd sval ns nn * a - int (wval rem)"
      using less.prems(5,6) by (simp add: dvd_diff)
    have s2: "sval s sn * sval ns nn \<le> 0"
    proof -
      have "0 \<le> int (wval q) * (sval s sn * sval s sn)" by simp
      moreover have "sval s sn * sval ns nn = sval old_s on * sval s sn - int (wval q) * (sval s sn * sval s sn)"
        unfolding nv qv by (simp add: algebra_simps)
      ultimately show ?thesis using less.prems(8) by linarith
    qed
    have "\<exists>R T neg. inv_mod_loop r rem s sn ns nn = Some (R, T, neg) \<and> length R = L \<and> length T = L
      \<and> wval R = g \<and> int M dvd sval T neg * a - int (wval R) \<and> wval T \<le> M"
    proof (rule less.hyps)
      show "wval rem < wval r" using False by (simp add: d(3))
      show "gcd (wval r) (wval rem) = g"
        using less.prems(12) gcd_red_nat [of "wval old_r" "wval r"] by (simp add: d(3))
    qed (use less.prems d nl c s2 le nm id in \<open>simp_all add: ac_simps\<close>)
    moreover have "inv_mod_loop old_r r old_s on s sn = inv_mod_loop r rem s sn ns nn"
      using False by (subst inv_mod_loop.simps) (simp add: uint_is_zero_eq choice_simps d(1) n Let_def flip: qs_def)
    ultimately show ?thesis by simp
  qed
qed

lemma dvd_int_mod_1:
  assumes "int m dvd int x * int a - 1"
  shows "(a * x) mod m = 1 mod m"
proof -
  have "(int x * int a) mod int m = 1 mod int m" using assms by (simp add: mod_eq_dvd_iff)
  then have "int ((a * x) mod m) = int (1 mod m)" by (simp only: zmod_int of_nat_mult of_nat_1 mult.commute)
  then show ?thesis by (simp only: of_nat_eq_iff)
qed

lemma wval_one: "0 < L \<Longrightarrow> wval (uint_one L) = 1 \<and> length (uint_one L) = L"
  by (cases L) (simp_all add: uint_one_def uint_from_u64_def lval_zeros list_all_iff)

text \<open>
  C15.  \<open>inv_mod\<close> always returns, and returns \<open>None\<close> exactly when the operand is zero, the modulus is zero
  or they have a common factor; otherwise its result is the inverse, reduced for moduli above one.  The
  magnitudes of the Bezout coefficients never exceed the modulus, so no intermediate step wraps.
\<close>

theorem inv_mod_correct:
  assumes "length a = length m"
  shows "\<exists>res. inv_mod a m = Some res \<and> (case res of
      None \<Rightarrow> wval a = 0 \<or> wval m = 0 \<or> gcd (wval a) (wval m) \<noteq> 1
    | Some x \<Rightarrow> gcd (wval a) (wval m) = 1 \<and> length x = length m
        \<and> (wval a * wval x) mod wval m = 1 mod wval m \<and> (1 < wval m \<longrightarrow> wval x < wval m))"
proof (cases "wval a = 0 \<or> wval m = 0")
  case True
  then show ?thesis by (auto simp: inv_mod_def uint_is_zero_eq choice_simps)
next
  case False
  let ?L = "length m" and ?g = "gcd (wval a) (wval m)"
  have L: "0 < ?L" using False by (cases m) auto
  obtain r where r: "uint_reduce a m = Some r" "wval r = wval a mod wval m" "length r = ?L"
    using uint_reduce_val [of m a] False assms by auto
  have one: "wval (uint_one ?L) = 1" "length (uint_one ?L) = ?L" using wval_one [OF L] by simp_all
  have z: "wval (uint_zero ?L) = 0" "length (uint_zero ?L) = ?L"
    by (simp_all add: uint_zero_def lval_zeros list_all_iff)
  have dv: "int (wval m) dvd int (wval a) - int (wval r)"
    unfolding r(2) by (simp add: zmod_int dvd_minus_mod)
  have "\<exists>R T neg. inv_mod_loop r m (uint_one ?L) False (uint_zero ?L) False = Some (R, T, neg) \<and> length R = ?L
      \<and> length T = ?L \<and> wval R = ?g \<and> int (wval m) dvd sval T neg * int (wval a) - int (wval R) \<and> wval T \<le> wval m"
    by (rule euclid_loop) (use r one z dv lval_lt [of m] False in \<open>simp_all add: sval_def gcd.commute gcd_red_nat [symmetric]\<close>)
  then obtain R T neg where l: "inv_mod_loop r m (uint_one ?L) False (uint_zero ?L) False = Some (R, T, neg)"
    "length R = ?L" "length T = ?L" "wval R = ?g" "int (wval m) dvd sval T neg * int (wval a) - int (wval R)"
    "wval T \<le> wval m" by blast
  have R1: "R = uint_one ?L \<longleftrightarrow> ?g = 1" using wval_inject [of R "uint_one ?L"] l(2,4) one by auto
  define x where "x = (if neg then uint_wrapping_sub m T else T)"
  have e: "inv_mod a m = Some (if ?g \<noteq> 1 then None else Some x)"
    using False r(1) l(1) R1 by (auto simp: inv_mod_def uint_is_zero_eq choice_simps Let_def x_def)
  have x: "length x = ?L" "int (wval x) = (if neg then int (wval m) - int (wval T) else int (wval T))" "wval x \<le> wval m"
    using l(3,6) uint_wrapping_sub_val [of m T] by (auto simp: x_def of_nat_diff)
  have inv: "(wval a * wval x) mod wval m = 1 mod wval m" if "?g = 1"
  proof (rule dvd_int_mod_1)
    have "int (wval m) dvd sval T neg * int (wval a) - 1" using l(5,4) that by simp
    moreover have "int (wval x) * int (wval a) - 1
        = (sval T neg * int (wval a) - 1) + (if neg then int (wval m) * int (wval a) else 0)"
      by (simp add: x(2) sval_def algebra_simps)
    ultimately show "int (wval m) dvd int (wval x) * int (wval a) - 1" by (simp only: dvd_add) simp
  qed
  have "wval x < wval m" if "?g = 1" "1 < wval m"
    using inv [OF that(1)] that(2) x(3) by (cases "wval x = wval m") auto
  then show ?thesis using e inv x(1) False by (auto split: if_splits)
qed

theorem inv_mod_correct_witness:
  "\<exists>res. inv_mod [3, 1] [0, 7] = Some res \<and> (case res of
      None \<Rightarrow> wval [3, 1 :: u64] = 0 \<or> wval [0, 7 :: u64] = 0 \<or> gcd (wval [3, 1 :: u64]) (wval [0, 7 :: u64]) \<noteq> 1
    | Some x \<Rightarrow> gcd (wval [3, 1 :: u64]) (wval [0, 7 :: u64]) = 1 \<and> length x = length [0, 7 :: u64]
        \<and> (wval [3, 1 :: u64] * wval x) mod wval [0, 7 :: u64] = 1 mod wval [0, 7 :: u64]
        \<and> (1 < wval [0, 7 :: u64] \<longrightarrow> wval x < wval [0, 7 :: u64]))"
  by (rule inv_mod_correct) simp

section \<open>The binary algorithm computes the inverse\<close>

lemma shr1_top:
  assumes "x \<noteq> []"
  shows "unat (uint_shr1 x ! (length x - 1)) < 2 ^ 63"
proof -
  let ?y = "uint_shr1 x" and ?k = "length x - 1"
  have l: "length ?y = length x" and v: "wval ?y = wval x div 2" using uint_shr1_val [of x] by simp_all
  have k: "?k < length ?y" "length x = Suc ?k" using assms l by simp_all
  have "wval ?y = wval (take ?k ?y) + \<beta> ^ ?k * unat (?y ! ?k)"
    using k(1) lval_append [of "take ?k ?y" "[?y ! ?k]"] l k(2)
    by (simp add: take_Suc_conv_app_nth [symmetric] min_absorb2)
  moreover have "wval x < \<beta> ^ ?k * \<beta>" using lval_lt [of x] k(2) by (metis power_Suc2)
  then have "wval x < (\<beta> ^ ?k * 2 ^ 63) * 2" by (simp add: \<beta>_def)
  then have "wval x div 2 < \<beta> ^ ?k * 2 ^ 63" by (rule less_mult_imp_div_less)
  ultimately have "\<beta> ^ ?k * unat (?y ! ?k) < \<beta> ^ ?k * 2 ^ 63" unfolding v by linarith
  then show ?thesis by (simp only: mult_less_cancel1)
qed

lemma half_mod_val:
  assumes "length x = length m" and "m \<noteq> []"
  shows "length (half_mod x m) = length m
    \<and> wval (half_mod x m) = (if even (wval x) then wval x div 2 else (wval x + wval m) div 2)"
proof -
  let ?k = "length x - 1"
  obtain s c where s: "uint_adc x m 0 = (s, c)" by fastforce
  have s1: "wval s + \<beta> ^ length x * unat c = wval x + wval m" "length s = length x" "unat c \<le> 1"
    using uint_adc_exact [OF s] uint_adc_carry_le [OF s] assms(1) by simp_all
  let ?h = "uint_shr1 s"
  have h: "length ?h = length x" "wval ?h = wval s div 2" using uint_shr1_val [of s] s1(2) by simp_all
  have k: "?k < length ?h" "length x = Suc ?k" using assms h(1) by auto
  define h' where "h' = ?h[?k := ?h ! ?k OR push_bit 63 c]"
  have "unat c * 2 ^ 63 \<le> 2 ^ 63" using s1(3) by simp
  then have "unat c * 2 ^ 63 < 2 ^ LENGTH(64)" by (rule le_less_trans) simp
  moreover have "s \<noteq> []" using s1(2) assms by (cases s) auto
  then have "unat (?h ! ?k) < 2 ^ 63" using shr1_top [of s] s1(2) by simp
  ultimately have "unat (?h ! ?k OR push_bit 63 c) = unat (?h ! ?k) + unat c * 2 ^ 63"
    by (intro unat_or_shift)
  then have "wval h' = wval s div 2 + \<beta> ^ ?k * (unat c * 2 ^ 63)"
    unfolding h'_def using lval_list_update [OF k(1), of "?h ! ?k OR push_bit 63 c"] h(2) by (simp add: distrib_left)
  moreover define P where "P = \<beta> ^ ?k * 2 ^ 63"
  ultimately have "wval h' = wval s div 2 + P * unat c" by (simp only: ac_simps)
  also have "\<dots> = (wval s + 2 * P * unat c) div 2" by simp
  also have "2 * P = \<beta> ^ ?k * \<beta>" unfolding P_def by (simp add: \<beta>_def)
  also have "\<beta> ^ ?k * \<beta> = \<beta> ^ length x" using k(2) by (metis power_Suc2)
  finally have v: "wval h' = (wval x + wval m) div 2" unfolding s1(1) .
  have lh: "length h' = length x" unfolding h'_def length_list_update by (rule h(1))
  have "half_mod x m = uint_conditional_select h' (uint_shr1 x) (uint_is_odd x)"
    by (simp add: half_mod_def s Let_def h'_def)
  moreover have "x \<noteq> []" using assms by auto
  ultimately have "half_mod x m = (if odd (wval x) then h' else uint_shr1 x)"
    using lh uint_shr1_val [of x] by (simp add: uint_is_odd_eq uint_conditional_select_eq)
  then show ?thesis using v lh assms(1) uint_shr1_val [of x] by simp
qed

lemma sub_mod_ct_val:
  assumes "length a = length m" and "length b = length m" and "wval a < wval m" and "wval b < wval m"
  shows "length (sub_mod_ct a b m) = length m \<and> wval (sub_mod_ct a b m) = (wval a + (wval m - wval b)) mod wval m"
proof -
  obtain d bo where d: "uint_sbb a b 0 = (d, bo)" by fastforce
  have l: "length a = length b" using assms(1,2) by simp
  note bo = uint_sbb_borrow [OF d l]
  have ld: "length d = length m" using bo(3) assms(1) by simp
  have lt: "wval m < \<beta> ^ length m" by (rule lval_lt)
  have "choice_from_u8 (ucast bo) = choice_of_bool (wval a < wval b)"
    by (simp add: bo(1) choice_from_bool_byte)
  then have r: "sub_mod_ct a b m = (if wval a < wval b then uint_wrapping_add d m else d)"
    using d ld by (simp add: sub_mod_ct_def uint_conditional_select_eq)
  show ?thesis
  proof (cases "wval a < wval b")
    case True
    then have "wval d + wval m = \<beta> ^ length m + (wval a + (wval m - wval b))"
      using bo(2) assms lt by simp
    moreover have "wval a + (wval m - wval b) < \<beta> ^ length m" using lt True assms(4) by linarith
    ultimately have "wval (uint_wrapping_add d m) = wval a + (wval m - wval b)"
      using uint_wrapping_add_val [OF ld] ld by (simp only: mod_add_self1 mod_less)
    then show ?thesis using True r assms(4) ld by simp
  next
    case False
    then have "wval d = wval a + (wval m - wval b) - wval m" using bo(2) assms by simp
    then show ?thesis using False r ld assms(3,4) by (simp add: le_mod_geq)
  qed
qed

text \<open>The step on values: what the four candidates and the selections amount to.\<close>

definition halve_mod :: "nat \<Rightarrow> nat \<Rightarrow> nat" where
  "halve_mod m x = (if even x then x div 2 else (x + m) div 2)"

definition diff_mod :: "nat \<Rightarrow> nat \<Rightarrow> nat \<Rightarrow> nat" where
  "diff_mod m a b = (a + (m - b)) mod m"

definition inv_vals :: "inv_state \<Rightarrow> nat \<times> nat \<times> nat \<times> nat" where
  "inv_vals st = (wval (iu st), wval (iv st), wval (big_a st), wval (big_c st))"

fun bin_step :: "nat \<Rightarrow> nat \<times> nat \<times> nat \<times> nat \<Rightarrow> nat \<times> nat \<times> nat \<times> nat" where
  "bin_step m (u, v, a, c) =
     (if even u then (u div 2, v, halve_mod m a, c)
      else if even v then (u, v div 2, a, halve_mod m c)
      else if v \<le> u then ((u - v) div 2, v, halve_mod m (diff_mod m a c), c)
      else (u, (v - u) div 2, a, halve_mod m (diff_mod m c a)))"

definition inv_shape :: "uint \<Rightarrow> inv_state \<Rightarrow> bool" where
  "inv_shape m st \<longleftrightarrow> length (iu st) = length m \<and> length (iv st) = length m
     \<and> length (big_a st) = length m \<and> length (big_c st) = length m
     \<and> wval (big_a st) < wval m \<and> wval (big_c st) < wval m"

lemma halve_mod_lt: "x < m \<Longrightarrow> halve_mod m x < m"
  by (auto simp: halve_mod_def)

lemma inv_step_refines:
  assumes "inv_shape m st" and "m \<noteq> []"
  shows "inv_shape m (inv_step m st) \<and> inv_vals (inv_step m st) = bin_step (wval m) (inv_vals st)"
proof -
  obtain u v a c where st: "st = \<lparr>iu = u, iv = v, big_a = a, big_c = c\<rparr>" by (cases st)
  have l [simp]: "length u = length m" "length v = length m" "length a = length m" "length c = length m"
    and lt: "wval a < wval m" "wval c < wval m"
    using assms(1) by (simp_all add: inv_shape_def st)
  have ne: "u \<noteq> []" "v \<noteq> []" using assms(2) l(1,2) by (metis length_0_conv)+
  note o = uint_is_odd_eq [OF ne(1)] uint_is_odd_eq [OF ne(2)]
  have lt_uv: "ct_lt uint_ct_gt u v = choice_of_bool (wval u < wval v)" by (simp add: big_ord.ct_lt_iff)
  have sh: "length (uint_shr1 x) = length x" "wval (uint_shr1 x) = wval x div 2" for x
    using uint_shr1_val [of x] by simp_all
  have hm: "length (half_mod x m) = length m" "wval (half_mod x m) = halve_mod (wval m) (wval x)"
    if "length x = length m" for x
    using half_mod_val [OF that assms(2)] by (simp_all add: halve_mod_def)
  have sm: "length (sub_mod_ct x y m) = length m" "wval (sub_mod_ct x y m) = diff_mod (wval m) (wval x) (wval y)"
    if "length x = length m" "length y = length m" "wval x < wval m" "wval y < wval m" for x y
    using sub_mod_ct_val [OF that] by (simp_all add: diff_mod_def)
  have dl: "diff_mod (wval m) x y < wval m" for x y using lt by (simp add: diff_mod_def)
  have ws: "wval v \<le> wval u \<Longrightarrow> wval (uint_wrapping_sub u v) = wval u - wval v"
      "wval u \<le> wval v \<Longrightarrow> wval (uint_wrapping_sub v u) = wval v - wval u"
    using uint_wrapping_sub_val [of u v] uint_wrapping_sub_val [of v u] by auto
  have st': "inv_step m st = \<lparr>
      iu = (if even (wval u) then uint_shr1 u else if odd (wval v) \<and> wval v \<le> wval u
            then uint_shr1 (uint_wrapping_sub u v) else u),
      iv = (if odd (wval u) \<and> even (wval v) then uint_shr1 v else if odd (wval u) \<and> odd (wval v) \<and> wval u < wval v
            then uint_shr1 (uint_wrapping_sub v u) else v),
      big_a = (if even (wval u) then half_mod a m else if odd (wval v) \<and> wval v \<le> wval u
            then half_mod (sub_mod_ct a c m) m else a),
      big_c = (if odd (wval u) \<and> even (wval v) then half_mod c m else if odd (wval u) \<and> odd (wval v) \<and> wval u < wval v
            then half_mod (sub_mod_ct c a m) m else c)\<rparr>"
    unfolding inv_step_def st Let_def inv_state.simps o lt_uv choice_simps
    using lt by (subst uint_conditional_select_eq; simp add: sh hm sm uint_conditional_select_eq not_less)+
  show ?thesis
    unfolding st' using lt by (auto simp: st inv_shape_def inv_vals_def sh hm sm ws halve_mod_lt dl)
qed

text \<open>The invariant of the loop, for the operand \<open>x\<close> with \<open>gcd(x, m) = g\<close>.\<close>

definition bin_inv :: "nat \<Rightarrow> int \<Rightarrow> nat \<Rightarrow> nat \<times> nat \<times> nat \<times> nat \<Rightarrow> bool" where
  "bin_inv m x g = (\<lambda>(u, v, a, c). int m dvd int a * x - int u \<and> int m dvd int c * x - int v
     \<and> gcd u v = g \<and> (odd u \<or> odd v) \<and> 0 < v)"

lemma halve_mod_cong:
  assumes "odd m" and "int m dvd int a * x - int u" and "even u"
  shows "int m dvd int (halve_mod m a) * x - int (u div 2)"
proof -
  have "2 * int (halve_mod m a) = int a + (if even a then 0 else int m)"
  proof -
    have "2 * halve_mod m a = a + (if even a then 0 else m)" using assms(1) by (simp add: halve_mod_def)
    then have "int (2 * halve_mod m a) = int (a + (if even a then 0 else m))" by (rule arg_cong)
    then show ?thesis by simp
  qed
  moreover have "int u = 2 * int (u div 2)" using assms(3) by (metis dvd_mult_div_cancel of_nat_mult of_nat_numeral)
  ultimately have "2 * (int (halve_mod m a) * x - int (u div 2))
      = (int a * x - int u) + (if even a then 0 else int m * x)"
    by (simp add: algebra_simps)
  then have "int m dvd 2 * (int (halve_mod m a) * x - int (u div 2))"
    using assms(2) by (simp add: dvd_add)
  moreover have "coprime (int m) 2" using assms(1) by (simp add: coprime_right_2_iff_odd)
  ultimately show ?thesis by (simp only: coprime_dvd_mult_right_iff)
qed

lemma diff_mod_cong:
  assumes "int m dvd int a * x - int u" and "int m dvd int c * x - int v" and "v \<le> u" and "c < m"
  shows "int m dvd int (diff_mod m a c) * x - int (u - v)"
proof -
  have "int m dvd (int a - int c) - int (diff_mod m a c)"
  proof -
    have "int m dvd int (a + (m - c)) - int (diff_mod m a c)"
      unfolding diff_mod_def zmod_int by (rule dvd_minus_mod)
    then have "int m dvd (int (a + (m - c)) - int (diff_mod m a c)) - int m"
      by (rule dvd_diff) simp
    then show ?thesis using assms(4) by (simp add: of_nat_diff algebra_simps)
  qed
  then have "int m dvd ((int a * x - int u) - (int c * x - int v))
      - ((int a - int c) - int (diff_mod m a c)) * x"
    by (rule dvd_diff [OF dvd_diff [OF assms(1,2)] dvd_mult2])
  moreover have "int (u - v) = int u - int v" using assms(3) by (simp add: of_nat_diff)
  ultimately show ?thesis by (simp add: algebra_simps)
qed

lemma gcd_half: "odd v \<Longrightarrow> even u \<Longrightarrow> gcd (u div 2) v = gcd u (v :: nat)"
proof -
  assume "odd v" "even u"
  then have "coprime 2 v" "u = 2 * (u div 2)" by (simp_all add: coprime_left_2_iff_odd)
  then show ?thesis by (metis gcd_mult_left_left_cancel coprime_commute)
qed

lemma bin_step_inv:
  assumes "odd m" and "bin_inv m x g (u, v, a, c)" and "a < m" and "c < m"
  shows "bin_inv m x g (bin_step m (u, v, a, c))"
proof -
  have i: "int m dvd int a * x - int u" "int m dvd int c * x - int v" "gcd u v = g" "odd u \<or> odd v" "0 < v"
    using assms(2) by (simp_all add: bin_inv_def)
  consider (ue) "even u" | (ve) "odd u" "even v" | (ge) "odd u" "odd v" "v \<le> u" | (less) "odd u" "odd v" "u < v"
    by linarith
  then show ?thesis
  proof cases
    case ue
    then show ?thesis
      using i halve_mod_cong [OF assms(1) i(1)] gcd_half [of v u] by (simp add: bin_inv_def)
  next
    case ve
    then have "0 < v div 2" using i(5) by (auto elim: evenE)
    then show ?thesis
      using ve i halve_mod_cong [OF assms(1) i(2)] gcd_half [of u v] by (simp add: bin_inv_def gcd.commute)
  next
    case ge
    note d = diff_mod_cong [OF i(1,2) ge(3) assms(4)]
    have "gcd ((u - v) div 2) v = gcd u v"
      using gcd_half [of v "u - v"] ge gcd_diff1_nat [OF ge(3)] by simp
    then show ?thesis
      using ge i halve_mod_cong [OF assms(1) d] by (simp add: bin_inv_def)
  next
    case less
    note d = diff_mod_cong [OF i(2,1) less_imp_le [OF less(3)] assms(3)]
    have "gcd u ((v - u) div 2) = gcd u v"
      using gcd_half [of u "v - u"] less gcd_diff1_nat [OF less_imp_le [OF less(3)]] by (simp add: gcd.commute)
    moreover have "0 < (v - u) div 2" using less by (auto elim!: oddE)
    ultimately show ?thesis
      using less i halve_mod_cong [OF assms(1) d] by (simp add: bin_inv_def)
  qed
qed

text \<open>Every step takes a bit off \<open>u\<close> or off \<open>v\<close>, until \<open>u\<close> is zero and stays zero.\<close>

definition bit_budget :: "nat \<Rightarrow> nat \<times> nat \<times> nat \<times> nat \<Rightarrow> bool" where
  "bit_budget k = (\<lambda>(u, v, a, c). u = 0 \<or> (\<exists>p q. p + q \<le> k \<and> u < 2 ^ p \<and> v < 2 ^ q))"

lemma half_lt_pow: "0 < u \<Longrightarrow> u < 2 ^ p \<Longrightarrow> w \<le> u \<Longrightarrow> \<exists>p'. p = Suc p' \<and> w div 2 < (2 :: nat) ^ p'"
  by (cases p) auto

lemma bin_step_budget:
  assumes "bit_budget (Suc k) (u, v, a, c)" and "0 < v"
  shows "bit_budget k (bin_step m (u, v, a, c))"
proof (cases "u = 0")
  case True
  then show ?thesis by (simp add: bit_budget_def)
next
  case False
  obtain p q where pq: "p + q \<le> Suc k" "u < 2 ^ p" "v < 2 ^ q"
    using assms(1) False by (auto simp: bit_budget_def)
  obtain p' where p': "p = Suc p'" using half_lt_pow [of u p u] False pq(2) by auto
  obtain q' where q': "q = Suc q'" using half_lt_pow [of v q v] assms(2) pq(3) by auto
  have hu: "w div 2 < 2 ^ p'" if "w \<le> u" for w using half_lt_pow [of u p w] False pq(2) that p' by auto
  have hv: "w div 2 < 2 ^ q'" if "w \<le> v" for w using half_lt_pow [of v q w] assms(2) pq(3) that q' by auto
  have "p' + q \<le> k" "p + q' \<le> k" using pq(1) p' q' by simp_all
  then show ?thesis
    using pq hu [of u] hu [of "u - v"] hv [of v] hv [of "v - u"] unfolding bit_budget_def by auto
qed

lemma inv_loop_inv:
  assumes "m \<noteq> []" and "odd (wval m)" and "inv_shape m st" and "bin_inv (wval m) x g (inv_vals st)"
    and "bit_budget (k + j) (inv_vals st)"
  shows "inv_shape m ((inv_step m ^^ k) st) \<and> bin_inv (wval m) x g (inv_vals ((inv_step m ^^ k) st))
    \<and> bit_budget j (inv_vals ((inv_step m ^^ k) st))"
  using assms(3-5)
proof (induction k arbitrary: st)
  case (Suc k)
  note r = inv_step_refines [OF Suc.prems(1) assms(1)]
  obtain u v a c where v: "inv_vals st = (u, v, a, c)" by (cases "inv_vals st")
  then have "a < wval m" "c < wval m" "0 < v"
    using Suc.prems(1,2) by (auto simp: inv_vals_def inv_shape_def bin_inv_def)
  then have "bin_inv (wval m) x g (inv_vals (inv_step m st))" "bit_budget (k + j) (inv_vals (inv_step m st))"
    using r bin_step_inv [OF assms(2), of x g u v a c] bin_step_budget [of "k + j" u v a c "wval m"] Suc.prems(2,3)
    by (simp_all add: v)
  then show ?case using Suc.IH [of "inv_step m st"] r by (simp add: funpow_swap1)
qed simp

lemma inv_mod_odd_ct_val:
  assumes "length a = length m" and "odd (wval m)" and "1 < wval m"
  shows "\<exists>r. inv_mod_odd_ct a m = Some r \<and> is_some r = choice_of_bool (gcd (wval a) (wval m) = 1)
    \<and> length (ct_value r) = length m \<and> wval (ct_value r) < wval m
    \<and> (gcd (wval a) (wval m) = 1 \<longrightarrow> (wval a * wval (ct_value r)) mod wval m = 1)"
proof -
  let ?L = "length m" and ?B = "uint_bit_len m" and ?g = "gcd (wval a) (wval m)"
  have ne: "m \<noteq> []" and L: "0 < ?L" using assms(3) by (cases m; auto)+
  obtain u where u: "uint_reduce a m = Some u" "wval u = wval a mod wval m" "length u = ?L"
    using uint_reduce_val [of m a] assms by auto
  note one = wval_one [OF L]
  define st where "st = \<lparr>iu = u, iv = m, big_a = uint_one ?L, big_c = uint_zero ?L\<rparr>"
  have z: "wval (uint_zero ?L) = 0" "length (uint_zero ?L) = ?L"
    by (simp_all add: uint_zero_def lval_zeros list_all_iff)
  have sh: "inv_shape m st" using u(3) one z assms(3) by (simp add: st_def inv_shape_def)
  have "int (wval m) dvd int (wval a) - int (wval u)" unfolding u(2) by (simp add: zmod_int dvd_minus_mod)
  then have inv: "bin_inv (wval m) (int (wval a)) ?g (inv_vals st)"
    using assms(2,3) u(2) one z by (simp add: st_def inv_vals_def bin_inv_def gcd.commute gcd_red_nat [symmetric])
  have "wval u < 2 ^ ?B" "wval m < 2 ^ ?B"
    using uint_bit_len_bounds(1) [of m] less_trans [OF mod_less_divisor] assms(3) by (simp_all add: u(2) less_trans [OF mod_less_divisor])
  then have bud: "bit_budget (2 * ?B + 0) (inv_vals st)"
    by (auto simp: st_def inv_vals_def bit_budget_def intro!: exI [of _ ?B])
  define fin where "fin = (inv_step m ^^ (2 * ?B)) st"
  have f: "inv_shape m fin" "bin_inv (wval m) (int (wval a)) ?g (inv_vals fin)" "bit_budget 0 (inv_vals fin)"
    using inv_loop_inv [OF ne assms(2) sh inv bud] by (simp_all add: fin_def)
  have u0: "wval (iu fin) = 0" using f(3) by (auto simp: bit_budget_def inv_vals_def)
  then have v: "wval (iv fin) = ?g" and c: "int (wval m) dvd int (wval (big_c fin)) * int (wval a) - int ?g"
    using f(2) by (auto simp: bin_inv_def inv_vals_def)
  have "uint_ct_eq (iv fin) (uint_one ?L) = choice_of_bool (?g = 1)"
    using wval_inject [of "iv fin" "uint_one ?L"] f(1) one v by (auto simp: uint_ct_eq_eq inv_shape_def choice_of_bool_def)
  moreover have "inv_mod_odd_ct a m = Some (ct_option_new (big_c fin) (uint_ct_eq (iv fin) (uint_one ?L)))"
    using assms(2) u(1) ne by (simp add: inv_mod_odd_ct_def uint_is_odd_eq choice_simps Let_def fin_def st_def)
  moreover have "(wval a * wval (big_c fin)) mod wval m = 1" if "?g = 1"
    using dvd_int_mod_1 [of "wval m" "wval (big_c fin)" "wval a"] c assms(3) that by simp
  ultimately show ?thesis
    using f(1) by (simp add: ct_option_new_def inv_shape_def)
qed

text \<open>
  C28.  The constant-time inverse modulo an odd \<open>m \<ge> 3\<close>: the fixed \<open>2 bits(m)\<close> masked steps suffice for every
  operand, the flag is set exactly when operand and modulus are coprime, and the value is then the
  reduced inverse.
\<close>

theorem inv_mod_odd_ct_correct:
  assumes "length a = length m" and "odd (wval m)" and "1 < wval m"
  shows "case inv_mod_odd_ct a m of
      None \<Rightarrow> False
    | Some r \<Rightarrow> is_some r = choice_of_bool (gcd (wval a) (wval m) = 1) \<and> wval (ct_value r) < wval m
        \<and> (gcd (wval a) (wval m) = 1 \<longrightarrow> (wval a * wval (ct_value r)) mod wval m = 1)"
  using inv_mod_odd_ct_val [OF assms] by auto

theorem inv_mod_odd_ct_correct_witness:
  "case inv_mod_odd_ct [3, 1] [9, 7] of
      None \<Rightarrow> False
    | Some r \<Rightarrow> is_some r = choice_of_bool (gcd (wval [3, 1 :: u64]) (wval [9, 7 :: u64]) = 1)
        \<and> wval (ct_value r) < wval [9, 7 :: u64]
        \<and> (gcd (wval [3, 1 :: u64]) (wval [9, 7 :: u64]) = 1
            \<longrightarrow> (wval [3, 1 :: u64] * wval (ct_value r)) mod wval [9, 7 :: u64] = 1)"
  by (rule inv_mod_odd_ct_correct) (simp_all add: \<beta>_def)

section \<open>The inverse modulo a power of two and modulo an even number\<close>

lemma wrapping_mul_cong:
  assumes "length a = length b"
  shows "int (\<beta> ^ length b) dvd int (wval a) * int (wval b) - int (wval (fst (uint_mul_wide a b)))"
    and "length (fst (uint_mul_wide a b)) = length b"
  using uint_wrapping_mul_val [OF assms] assms
  by (simp_all add: uint_wrapping_mul_def zmod_int dvd_minus_mod)

lemma wrapping_sub_cong:
  assumes "length a = length b"
  shows "int (\<beta> ^ length b) dvd int (wval a) - int (wval b) - int (wval (uint_wrapping_sub a b))"
proof -
  have "wval b \<le> \<beta> ^ length b + wval a" using lval_lt [of b] by simp
  then show ?thesis using uint_wrapping_sub_val [OF assms] assms by (auto simp: of_nat_diff)
qed

lemma newton_square:
  fixes M e x y d z :: int
  assumes "M dvd e * x - y" and "M dvd 2 - y - d" and "M dvd x * d - z" and "K dvd M" and "K dvd (e * x - 1) * (e * x - 1)"
  shows "K dvd e * z - 1"
proof -
  obtain a b c f where q: "e * x - y = K * a" "2 - y - d = K * b" "x * d - z = K * c"
      "(e * x - 1) * (e * x - 1) = K * f"
    using dvd_trans [OF assms(4,1)] dvd_trans [OF assms(4,2)] dvd_trans [OF assms(4,3)] assms(5)
    by (auto elim!: dvdE)
  have y: "y = e * x - K * a" and d: "d = 2 - y - K * b" and z: "z = x * d - K * c" using q(1-3) by simp_all
  have "e * z - 1 = K * (e * x * (a - b) - e * c) - (e * x - 1) * (e * x - 1)"
    unfolding z d y by (simp add: algebra_simps)
  also have "\<dots> = K * (e * x * (a - b) - e * c - f)" unfolding q(4) by (simp add: algebra_simps)
  finally show ?thesis by simp
qed

lemma inv_mod_pow2_loop_val:
  assumes "0 < length e" and "length x = length e" and "0 < k"
    and "(2 :: int) ^ min k (64 * length e) dvd int (wval e) * int (wval x) - 1"
  shows "length (inv_mod_pow2_loop e x k) = length e
    \<and> int (\<beta> ^ length e) dvd int (wval e) * int (wval (inv_mod_pow2_loop e x k)) - 1"
  using assms(2-)
proof (induction e x k rule: inv_mod_pow2_loop.induct)
  case (1 e x k)
  let ?L = "length e"
  have B: "int (\<beta> ^ ?L) = 2 ^ (64 * ?L)" by (simp add: \<beta>_def power_mult)
  show ?case
  proof (cases "k < ?L * 64")
    case False
    then have m: "min k (64 * ?L) = 64 * ?L" and eq: "inv_mod_pow2_loop e x k = x"
      by (simp_all add: inv_mod_pow2_loop.simps [of e x k])
    then show ?thesis using "1.prems"(1,3) unfolding eq B m by (intro conjI)
  next
    case True
    define y where "y = fst (uint_mul_wide e x)"
    define d where "d = uint_wrapping_sub (uint_from_u64 ?L 2) y"
    define z where "z = fst (uint_mul_wide x d)"
    have two: "length (uint_from_u64 ?L 2) = ?L" "wval (uint_from_u64 ?L 2) = 2"
      using True by (cases ?L; simp add: uint_from_u64_def lval_zeros list_all_iff)+
    have y: "length y = ?L" "int (\<beta> ^ ?L) dvd int (wval e) * int (wval x) - int (wval y)"
      using wrapping_mul_cong [of e x] "1.prems"(1) by (simp_all add: y_def)
    have d: "length d = ?L" "int (\<beta> ^ ?L) dvd 2 - int (wval y) - int (wval d)"
      using wrapping_sub_cong [of "uint_from_u64 ?L 2" y] y(1) two by (simp_all add: d_def)
    have z: "length z = ?L" "int (\<beta> ^ ?L) dvd int (wval x) * int (wval d) - int (wval z)"
      using wrapping_mul_cong [of x d] "1.prems"(1) d(1) by (simp_all add: z_def)
    have m: "min k (64 * ?L) = k" using True by simp
    have "(2 :: int) ^ min (k * 2) (64 * ?L) dvd 2 ^ k * 2 ^ k"
      unfolding power_add [symmetric] by (rule le_imp_power_dvd) simp
    moreover have "2 ^ k * 2 ^ k dvd (int (wval e) * int (wval x) - 1) * (int (wval e) * int (wval x) - 1)"
      using "1.prems"(3) unfolding m by (intro mult_dvd_mono)
    ultimately have sq: "(2 :: int) ^ min (k * 2) (64 * ?L)
        dvd (int (wval e) * int (wval x) - 1) * (int (wval e) * int (wval x) - 1)" by (rule dvd_trans)
    have "(2 :: int) ^ min (k * 2) (64 * ?L) dvd int (\<beta> ^ ?L)" unfolding B by (rule le_imp_power_dvd) simp
    then have n: "(2 :: int) ^ min (k * 2) (64 * ?L) dvd int (wval e) * int (wval z) - 1"
      by (rule newton_square [OF y(2) d(2) z(2) _ sq])
    have "inv_mod_pow2_loop e x k = inv_mod_pow2_loop e z (k * 2)"
      using True "1.prems"(2) by (simp add: inv_mod_pow2_loop.simps [of e x k] Let_def y_def d_def z_def)
    then show ?thesis
      using "1.IH" [OF _ y_def refl z_def [unfolded d_def]] True "1.prems"(2) z(1) n by simp
  qed
qed

lemma inv_mod_pow2_val:
  assumes "odd (wval e)"
  shows "length (inv_mod_pow2 e) = length e \<and> int (\<beta> ^ length e) dvd int (wval e) * int (wval (inv_mod_pow2 e)) - 1"
proof -
  have L: "0 < length e" using assms by (cases e) auto
  obtain b where b: "int (wval e) = 2 * b + 1" using assms by (metis even_of_nat_iff oddE)
  have "even (b * (b + 1))" by simp
  then obtain c where c: "b * (b + 1) = 2 * c" by (elim evenE)
  have "int (wval e) * int (wval e) - 1 = 4 * (b * (b + 1))" unfolding b by (simp add: algebra_simps)
  then have "int (wval e) * int (wval e) - 1 = 2 ^ 3 * c" unfolding c by simp
  moreover have "min 3 (64 * length e) = 3" using L by linarith
  ultimately have "(2 :: int) ^ min 3 (64 * length e) dvd int (wval e) * int (wval e) - 1"
    by (metis dvd_triv_left)
  then show ?thesis unfolding inv_mod_pow2_def by (intro inv_mod_pow2_loop_val [OF L]) simp_all
qed

lemma dvd_eq_small:
  assumes "int M dvd int x - int y" and "x < M" and "y < M"
  shows "x = y"
  using assms by (metis mod_eq_dvd_iff mod_less of_nat_eq_iff of_nat_mod)

lemma exact_quotient:
  fixes e y phi :: nat
  assumes "1 < e" and "y < e" and "(t' * y) mod e = 1" and "t' = (e - phi mod e) mod e"
  obtains D where "D * e = phi * y + 1" and "D \<le> phi" and "0 < phi"
proof -
  have "int e dvd int phi + int t'"
  proof -
    have "phi mod e \<le> e" using assms(1) by (simp add: less_imp_le)
    then have "(int phi + int t') mod int e = 0"
      unfolding assms(4) by (simp add: zmod_int of_nat_diff mod_simps)
    then show ?thesis by presburger
  qed
  moreover have "int e dvd int (t' * y) - 1" using assms(1,3) by (metis of_nat_mod of_nat_1 dvd_minus_mod)
  ultimately have "int e dvd (int phi + int t') * int y - (int (t' * y) - 1)"
    by (rule dvd_diff [OF dvd_mult2])
  then have "int e dvd int (phi * y + 1)" by (simp add: algebra_simps)
  then obtain D where D: "phi * y + 1 = e * D" by (metis dvdE int_dvd_int_iff)
  have phi: "0 < phi" using D assms(1) by (cases "phi = 0") auto
  have "phi * y + 1 \<le> phi * y + phi" using phi by simp
  also have "\<dots> = phi * Suc y" by simp
  also have "\<dots> \<le> phi * e" using assms(2) by (intro mult_le_mono2) simp
  finally have "e * D \<le> e * phi" unfolding D by (simp add: mult.commute)
  then show ?thesis using that [of D] D phi assms(1) by (simp add: mult.commute)
qed

text \<open>The wrapping product with the inverse modulo the word range is the exact quotient.\<close>

lemma exact_division_val:
  assumes "length e = length phi" "length y = length phi" "0 < length phi" "odd (wval e)"
    and D: "D * wval e = wval phi * wval y + 1" "D \<le> wval phi"
  shows "wval (fst (uint_mul_wide (uint_wrapping_add (fst (uint_mul_wide phi y)) (uint_one (length e)))
    (inv_mod_pow2 e))) = D"
proof -
  let ?L = "length phi" and ?M = "int (\<beta> ^ length phi)" and ?e = "wval e" and ?p = "wval phi" and ?i = "inv_mod_pow2 e"
  let ?q = "fst (uint_mul_wide phi y)"
  define num where "num = uint_wrapping_add ?q (uint_one (length e))"
  define d where "d = fst (uint_mul_wide num ?i)"
  have i: "length ?i = ?L" "?M dvd int ?e * int (wval ?i) - 1"
    using inv_mod_pow2_val [OF assms(4)] assms(1) by simp_all
  have q: "?M dvd int ?p * int (wval y) - int (wval ?q)" "length ?q = ?L"
    using wrapping_mul_cong [of phi y] assms(2) by simp_all
  have one: "wval (uint_one (length e)) = 1" "length (uint_one (length e)) = ?L" using wval_one assms(1,3) by simp_all
  have n: "length num = ?L" "?M dvd int (wval ?q) + 1 - int (wval num)"
    using uint_wrapping_add_val [of ?q "uint_one (length e)"] q(2) one
    unfolding num_def by (simp_all add: zmod_int dvd_minus_mod add.commute)
  have dv: "length d = ?L" "?M dvd int (wval num) * int (wval ?i) - int (wval d)"
    using wrapping_mul_cong [of num ?i] n(1) i(1) by (simp_all add: d_def)
  have "int D * int ?e = int ?p * int (wval y) + 1" using arg_cong [OF D(1), of int] by simp
  then have "int D * int ?e * int (wval ?i) = (int ?p * int (wval y) + 1) * int (wval ?i)" by (simp only:)
  then have "int D - int (wval d) = - int D * (int ?e * int (wval ?i) - 1)
      + ((int ?p * int (wval y) - int (wval ?q)) + (int (wval ?q) + 1 - int (wval num))) * int (wval ?i)
      + (int (wval num) * int (wval ?i) - int (wval d))"
    by (simp add: algebra_simps)
  then have "?M dvd int D - int (wval d)"
    using i(2) q(1) n(2) dv(2) by (simp only:) (intro dvd_add dvd_mult dvd_mult2; assumption)
  then have "D = wval d"
    using D(2) lval_lt [of phi] lval_lt [of d] dv(1) by (intro dvd_eq_small [of "\<beta> ^ ?L"]) simp_all
  then show ?thesis by (simp add: d_def num_def)
qed

text \<open>
  C29.  The constant-time inverse modulo a number of either parity (the RSA private exponent): for an odd
  \<open>e \<ge> 3\<close> the flag is set exactly when \<open>e\<close> and \<open>phi\<close> are coprime, and the value is then \<open>d \<le> phi\<close> with
  \<open>e d = 1\<close> modulo \<open>phi\<close>; the multiplication by the inverse of \<open>e\<close> modulo the word range is the exact
  division of \<open>1 + phi y\<close> by \<open>e\<close>.
\<close>

theorem inv_mod_ct_correct:
  assumes "length e = length phi" and "odd (wval e)" and "1 < wval e"
  shows "case inv_mod_ct e phi of
      None \<Rightarrow> False
    | Some r \<Rightarrow> is_some r = choice_of_bool (gcd (wval e) (wval phi) = 1)
        \<and> (gcd (wval e) (wval phi) = 1 \<longrightarrow>
             wval (ct_value r) \<le> wval phi \<and> (wval e * wval (ct_value r)) mod wval phi = 1 mod wval phi)"
proof -
  let ?L = "length phi" and ?z = "uint_zero (length e)" and ?e = "wval e" and ?p = "wval phi"
  have ne: "e \<noteq> []" and L: "0 < ?L" using assms(1,3) by (cases e; auto)+
  obtain t where t: "uint_reduce phi e = Some t" "wval t = ?p mod ?e" "length t = ?L"
    using uint_reduce_val [of e phi] assms by auto
  have z: "wval ?z = 0" "length ?z = ?L" using assms(1) by (simp_all add: uint_zero_def lval_zeros list_all_iff)
  define nt where "nt = sub_mod_ct ?z t e"
  have nt: "length nt = length e" "wval nt = (?e - ?p mod ?e) mod ?e"
    using sub_mod_ct_val [of ?z e t] z t assms by (simp_all add: nt_def)
  obtain y where y: "inv_mod_odd_ct nt e = Some y" "is_some y = choice_of_bool (gcd (wval nt) ?e = 1)"
      "length (ct_value y) = length e" "wval (ct_value y) < ?e"
      "gcd (wval nt) ?e = 1 \<longrightarrow> (wval nt * wval (ct_value y)) mod ?e = 1"
    using inv_mod_odd_ct_val [OF nt(1) assms(2,3)] by auto
  have "?p mod ?e \<le> ?e" using assms(3) by (simp add: less_imp_le)
  then have "gcd (?e - ?p mod ?e) ?e = gcd (?p mod ?e) ?e" by (rule gcd_diff2_nat)
  then have g: "gcd (wval nt) ?e = gcd ?e ?p"
    using gcd_red_nat [of "?e - ?p mod ?e" ?e] gcd_red_nat [of ?p ?e] unfolding nt(2) by (simp add: gcd.commute)
  define num where "num = uint_wrapping_add (fst (uint_mul_wide phi (ct_unwrap_or uint_conditional_select y ?z)))
    (uint_one (length e))"
  define d where "d = fst (uint_mul_wide num (inv_mod_pow2 e))"
  have r: "inv_mod_ct e phi = Some (ct_option_new d (is_some y))"
    using ne assms(2) t(1) y(1) by (simp add: inv_mod_ct_def uint_is_odd_eq choice_simps Let_def nt_def num_def d_def)
  have "wval d \<le> ?p \<and> (?e * wval d) mod ?p = 1 mod ?p" if gcd: "gcd ?e ?p = 1"
  proof -
    let ?y = "ct_value y"
    have yv: "ct_unwrap_or uint_conditional_select y ?z = ?y"
      using y(2,3) g gcd by (simp add: ct_unwrap_or_def uint_conditional_select_eq)
    obtain D where D: "D * ?e = ?p * wval ?y + 1" "D \<le> ?p"
      using exact_quotient [OF assms(3) y(4) _ nt(2)] y(5) g gcd by auto
    have "wval d = D"
      using exact_division_val [OF assms(1) _ L assms(2) D] y(3) assms(1)
      unfolding d_def num_def yv by simp
    moreover have "(?p * wval ?y + 1) mod ?p = 1 mod ?p" by (simp only: mod_mult_self4)
    ultimately show ?thesis using D by (simp add: mult.commute)
  qed
  then show ?thesis using y(2) g by (simp add: r ct_option_new_def)
qed

theorem inv_mod_ct_correct_witness:
  "case inv_mod_ct [65537, 0] [0x123456789, 7] of
      None \<Rightarrow> False
    | Some r \<Rightarrow> is_some r = choice_of_bool (gcd (wval [65537, 0 :: u64]) (wval [0x123456789, 7 :: u64]) = 1)
        \<and> (gcd (wval [65537, 0 :: u64]) (wval [0x123456789, 7 :: u64]) = 1 \<longrightarrow>
             wval (ct_value r) \<le> wval [0x123456789, 7 :: u64]
             \<and> (wval [65537, 0 :: u64] * wval (ct_value r)) mod wval [0x123456789, 7 :: u64]
                 = 1 mod wval [0x123456789, 7 :: u64])"
  by (rule inv_mod_ct_correct) simp_all

end
