(* ===== verification/TlsError.thy ===== *)
theory TlsError
  imports Prelude
begin

text \<open>
  The error and alert vocabulary of \<open>tls/error.rs\<close>, shared by the TLS, DTLS and QUIC components: the
  alert descriptions with their one-byte codes, and the error type every fallible operation of
  these components returns (all optional features of the crate enabled).
\<close>

datatype alert_description =
    AlCloseNotify
  | AlUnexpectedMessage
  | AlBadRecordMac
  | AlRecordOverflow
  | AlHandshakeFailure
  | AlBadCertificate
  | AlUnsupportedCertificate
  | AlCertificateExpired
  | AlCertificateUnknown
  | AlIllegalParameter
  | AlDecodeError
  | AlDecryptError
  | AlProtocolVersion
  | AlInternalError
  | AlMissingExtension
  | AlUnsupportedExtension
  | AlUnrecognizedName
  | AlNoApplicationProtocol
  | AlCertificateRequired
  | AlUserCanceled
  | AlNoRenegotiation
  | AlUnknown u8

fun as_u8 :: "alert_description \<Rightarrow> u8" where
  "as_u8 AlCloseNotify = 0"
| "as_u8 AlUnexpectedMessage = 10"
| "as_u8 AlBadRecordMac = 20"
| "as_u8 AlRecordOverflow = 22"
| "as_u8 AlHandshakeFailure = 40"
| "as_u8 AlBadCertificate = 42"
| "as_u8 AlUnsupportedCertificate = 43"
| "as_u8 AlCertificateExpired = 45"
| "as_u8 AlCertificateUnknown = 46"
| "as_u8 AlIllegalParameter = 47"
| "as_u8 AlDecodeError = 50"
| "as_u8 AlDecryptError = 51"
| "as_u8 AlProtocolVersion = 70"
| "as_u8 AlInternalError = 80"
| "as_u8 AlMissingExtension = 109"
| "as_u8 AlUnsupportedExtension = 110"
| "as_u8 AlUnrecognizedName = 112"
| "as_u8 AlNoApplicationProtocol = 120"
| "as_u8 AlCertificateRequired = 116"
| "as_u8 AlUserCanceled = 90"
| "as_u8 AlNoRenegotiation = 100"
| "as_u8 (AlUnknown v) = v"

definition from_u8 :: "u8 \<Rightarrow> alert_description" where
  "from_u8 v = (
     if v = 0 then AlCloseNotify else
     if v = 10 then AlUnexpectedMessage else
     if v = 20 then AlBadRecordMac else
     if v = 22 then AlRecordOverflow else
     if v = 40 then AlHandshakeFailure else
     if v = 42 then AlBadCertificate else
     if v = 43 then AlUnsupportedCertificate else
     if v = 45 then AlCertificateExpired else
     if v = 46 then AlCertificateUnknown else
     if v = 47 then AlIllegalParameter else
     if v = 50 then AlDecodeError else
     if v = 51 then AlDecryptError else
     if v = 70 then AlProtocolVersion else
     if v = 80 then AlInternalError else
     if v = 109 then AlMissingExtension else
     if v = 110 then AlUnsupportedExtension else
     if v = 112 then AlUnrecognizedName else
     if v = 120 then AlNoApplicationProtocol else
     if v = 116 then AlCertificateRequired else
     if v = 90 then AlUserCanceled else
     if v = 100 then AlNoRenegotiation else
     AlUnknown v)"

datatype tls_error =
    DecodeErr
  | UnexpectedMessageErr
  | BadRecordMacErr
  | HandshakeFailureErr
  | UnsupportedVersionErr
  | BadCertificateErr
  | PeerMisbehavedErr
  | AlertReceivedErr alert_description
  | InappropriateStateErr
  | IllegalParameterErr
  | RecordOverflowErr
  | TooManyRecordsErr
  | InappropriateFallbackErr
  | NoApplicationProtocolErr
  | UnsupportedExtensionErr
  | MissingExtensionErr
  | DecryptErrorErr
  | CertificateRequiredErr
  | UnknownIssuerErr
  | CertificateExpiredErr
  | CertificateRejectedErr alert_description
  | CertificateRevokedErr
  | OcspResponseInvalidErr
  | EchRejectedErr bytes
  | EchDecodeErrorErr
  | EchDecryptionFailedErr
  | EchInnerMalformedErr
  | EchConfigUnusableErr
  | CertDecompressionFailedErr
  | MissingServerNameErr
  | NoUsableCipherSuitesErr
  | MissingEntropySourceErr
  | TooManyConnectionIdsRequestedErr
  | IdentityKeyMismatchErr
  | UnsupportedKeyTypeErr
  | RenegotiationLimitExceededErr
  | PeerCertificateChangedErr
  | RenegotiationBufferFullErr

record alert =
  fatal :: bool
  description :: alert_description

definition is_unknown_code :: "u8 \<Rightarrow> bool" where
  "is_unknown_code v \<longleftrightarrow> from_u8 v = AlUnknown v"

lemma as_u8_from_u8 [simp]: "as_u8 (from_u8 v) = v"
  by (simp add: from_u8_def)

lemma from_u8_as_u8: "from_u8 (as_u8 a) = a \<longleftrightarrow> (\<forall>v. a = AlUnknown v \<longrightarrow> is_unknown_code v)"
  by (cases a) (simp_all add: from_u8_def is_unknown_code_def)

fun is_certificate_error :: "tls_error \<Rightarrow> bool" where
  "is_certificate_error BadCertificateErr = True"
| "is_certificate_error UnknownIssuerErr = True"
| "is_certificate_error CertificateExpiredErr = True"
| "is_certificate_error CertificateRevokedErr = True"
| "is_certificate_error OcspResponseInvalidErr = True"
| "is_certificate_error (CertificateRejectedErr a) = True"
| "is_certificate_error _ = False"

fun certificate_alert :: "tls_error \<Rightarrow> alert_description option" where
  "certificate_alert UnknownIssuerErr = Some (AlUnknown 48)"
| "certificate_alert CertificateExpiredErr = Some AlCertificateExpired"
| "certificate_alert CertificateRevokedErr = Some (AlUnknown 44)"
| "certificate_alert (CertificateRejectedErr a) = Some a"
| "certificate_alert _ = None"

lemma certificate_alert_is_certificate_error: "certificate_alert e = Some a \<Longrightarrow> is_certificate_error e"
  by (cases e) simp_all

end
