(* ===== verification/Varint.thy ===== *)
theory Varint
  imports TlsError
begin

text \<open>
  QUIC variable-length integers (\<open>quic/varint.rs\<close>).  A writer is modelled by the bytes it appends to
  its output; a reader returns the value with the number of bytes consumed.  The encoding clamps to
  \<open>MAX\<close>, as the release build does where the debug assertion is compiled out.
\<close>

definition varint_MAX :: u64 where
  "varint_MAX = push_bit 62 1 - 1"

definition encoded_len :: "u64 \<Rightarrow> nat" where
  "encoded_len value =
     (if value < push_bit 6 1 then 1 else if value < push_bit 14 1 then 2
      else if value < push_bit 30 1 then 4 else 8)"

definition varint_encode :: "u64 \<Rightarrow> bytes" where
  "varint_encode v = (
     let value = min v varint_MAX in
     if value < push_bit 6 1 then [ucast value]
     else if value < push_bit 14 1 then
       let b = to_be_bytes (ucast value :: u16) in [b ! 0 OR 0x40, b ! 1]
     else if value < push_bit 30 1 then
       let b = to_be_bytes (ucast value :: u32) in [b ! 0 OR 0x80, b ! 1, b ! 2, b ! 3]
     else let b = to_be_bytes value in (b ! 0 OR 0xC0) # drop 1 b)"

definition varint_decode :: "bytes \<Rightarrow> tls_error + u64 \<times> nat" where
  "varint_decode buf = (
     if buf = [] then Inl DecodeErr
     else
       let tag = drop_bit 6 (buf ! 0);
           len = 2 ^ unat tag
       in if length buf < len then Inl DecodeErr
          else Inr (fold (\<lambda>b value. push_bit 8 value OR ucast b) (take (len - 1) (drop 1 buf))
                         (ucast (buf ! 0 AND 0x3F)), len))"

definition bounded_len :: "u64 \<Rightarrow> nat \<Rightarrow> tls_error + nat" where
  "bounded_len len available = (if unat len \<le> available then Inr (unat len) else Inl DecodeErr)"

section \<open>Decoding\<close>

lemma unat_and_3F: "unat (b AND 0x3F :: u8) = unat b mod 64"
  using unat_and_mask [of b 6] by (simp add: mask_eq_exp_minus_1)

lemma tag_cases:
  fixes b :: u8
  obtains "unat b div 64 = 0" | "unat b div 64 = 1" | "unat b div 64 = 2" | "unat b div 64 = 3"
proof -
  have "unat b div 64 < 4" using unat_lt [of b] by (simp add: less_mult_imp_div_less)
  then show thesis using that by linarith
qed

lemma varint_decode_Cons:
  "varint_decode (b # bs) = (
     let n = 2 ^ (unat b div 64) in
     if length bs < n - 1 then Inl DecodeErr
     else Inr (word_of_nat (unat b mod 64 * 256 ^ (n - 1) + be_val (take (n - 1) bs)), n))"
proof -
  let ?n = "2 ^ (unat b div 64) :: nat" and ?c = "ucast (b AND 0x3F) :: u64"
  let ?bs = "take (?n - 1) bs"
  have t: "unat (drop_bit 6 b) = unat b div 64" by (simp add: unat_drop_bit)
  have c: "unat ?c = unat b mod 64" using unat_and_3F [of b] by (simp add: unat_ucast)
  have "unat (fold (\<lambda>b value. push_bit 8 value OR ucast b) ?bs ?c) = unat b mod 64 * 256 ^ (?n - 1) + be_val ?bs"
    if "\<not> length bs < ?n - 1"
  proof -
    have l: "length ?bs = ?n - 1" using that by simp
    have "be_val ?bs < 256 ^ (?n - 1)" using be_val_lt [of ?bs] unfolding l .
    moreover have "unat b mod 64 \<le> 63" by (simp add: mod_less_divisor less_Suc_eq_le [symmetric])
    moreover have "(256::nat) ^ (?n - 1) * 64 \<le> 2 ^ 64"
      by (rule tag_cases [of b]) simp_all
    ultimately have "unat b mod 64 * 256 ^ (?n - 1) + be_val ?bs < 2 ^ 64"
      using mult_le_mono1 [of "unat b mod 64" 63 "256 ^ (?n - 1)"] by linarith
    then show ?thesis using be_fold_val [of ?c ?bs] unfolding c l by simp
  qed
  then have "\<not> length bs < ?n - 1 \<Longrightarrow> fold (\<lambda>b value. push_bit 8 value OR ucast b) ?bs ?c
      = word_of_nat (unat b mod 64 * 256 ^ (?n - 1) + be_val ?bs)"
    by (blast intro: word_eq_of_nat)
  moreover have "Suc (length bs) < ?n \<longleftrightarrow> length bs < ?n - 1" by linarith
  ultimately show ?thesis
    unfolding varint_decode_def by (simp add: t Let_def)
qed

section \<open>Encoding\<close>

lemma decode_tagged:
  assumes "unat b < 64" "t < 4" "Suc (length bs) = 2 ^ t"
  shows "varint_decode ((b OR push_bit 6 (word_of_nat t)) # bs @ rest) = Inr (word_of_nat (be_val (b # bs)), 2 ^ t)"
proof -
  have t: "unat (word_of_nat t :: u8) = t" using assms(2) by (simp add: unat_of_nat)
  have "unat (b OR push_bit 6 (word_of_nat t)) = unat b + t * 64"
    using unat_or_shift [of b 6 "word_of_nat t"] assms unfolding t by simp
  moreover have "length bs = 2 ^ t - 1" using assms(3) by simp
  ultimately show ?thesis
    using assms(1) by (simp add: varint_decode_Cons be_val_Cons Let_def)
qed

lemma to_be_bytes_shape:
  fixes w :: "'a::len word"
  assumes "8 dvd LENGTH('a)" "LENGTH('a) div 8 = Suc k" "unat w < 64 * 256 ^ k"
  obtains b bs where "to_be_bytes w = b # bs" "unat b < 64" "length bs = k" "be_val (b # bs) = unat w"
proof -
  have l: "length (to_be_bytes w) = Suc k" using assms(2) by simp
  then obtain b bs where e: "to_be_bytes w = b # bs" "length bs = k" by (cases "to_be_bytes w") auto
  then have v: "be_val (b # bs) = unat w" using be_val_to_be_bytes [OF assms(1), of w] by simp
  then have "unat b * 256 ^ k < 64 * 256 ^ k"
    using assms(3) unfolding be_val_Cons e(2) by linarith
  then have "unat b < 64" by simp
  then show thesis using that e v by blast
qed

lemma varint_MAX_val [simp]: "unat varint_MAX = 2 ^ 62 - 1"
  by (simp add: varint_MAX_def push_bit_of_1)

lemma varint_encode_shape:
  assumes "v \<le> varint_MAX"
  obtains b bs t where "varint_encode v = (b OR push_bit 6 (word_of_nat t)) # bs"
    "unat b < 64" "t < 4" "Suc (length bs) = 2 ^ t" "be_val (b # bs) = unat v" "2 ^ t = encoded_len v"
proof -
  have m: "min v varint_MAX = v" using assms by simp
  have lt: "unat v < 2 ^ 62" using assms by (simp add: word_le_nat_alt)
  consider (a) "unat v < 64" | (b) "64 \<le> unat v" "unat v < 2 ^ 14" | (c) "2 ^ 14 \<le> unat v" "unat v < 2 ^ 30"
    | (d) "2 ^ 30 \<le> unat v" by linarith
  then show thesis
  proof cases
    case a
    then have "varint_encode v = [ucast v]" "encoded_len v = 1" "unat (ucast v :: u8) = unat v"
      by (simp_all add: varint_encode_def m encoded_len_def word_less_nat_alt push_bit_of_1 unat_ucast)
    then show thesis using that [of "ucast v" 0 "[]"] a by simp
  next
    case b
    have u: "unat (ucast v :: u16) = unat v" using b by (simp add: unat_ucast)
    obtain x xs where x: "to_be_bytes (ucast v :: u16) = x # xs" "unat x < 64" "length xs = 1" "be_val (x # xs) = unat v"
      by (rule to_be_bytes_shape [of 1 "ucast v :: u16"]) (use b u in simp_all)
    have "varint_encode v = (x OR 0x40) # xs" "encoded_len v = 2"
      using b x by (cases xs; simp add: varint_encode_def m encoded_len_def word_less_nat_alt push_bit_of_1)+
    then show thesis using that [of x 1 xs] x by simp
  next
    case c
    have u: "unat (ucast v :: u32) = unat v" using c by (simp add: unat_ucast)
    obtain x xs where x: "to_be_bytes (ucast v :: u32) = x # xs" "unat x < 64" "length xs = 3" "be_val (x # xs) = unat v"
      by (rule to_be_bytes_shape [of 3 "ucast v :: u32"]) (use c u in simp_all)
    obtain p q r where xs: "xs = [p, q, r]" using x(3) by (auto simp: numeral_3_eq_3 length_Suc_conv)
    have "varint_encode v = (x OR 0x80) # xs" "encoded_len v = 4"
      using c x(1) unfolding xs by (simp_all add: varint_encode_def m encoded_len_def word_less_nat_alt push_bit_of_1)
    then show thesis using that [of x 2 xs] x by simp
  next
    case d
    obtain x xs where x: "to_be_bytes v = x # xs" "unat x < 64" "length xs = 7" "be_val (x # xs) = unat v"
      by (rule to_be_bytes_shape [of 7 v]) (use d lt in simp_all)
    have "varint_encode v = (x OR 0xC0) # xs" "encoded_len v = 8"
      using d x by (simp_all add: varint_encode_def m encoded_len_def word_less_nat_alt push_bit_of_1)
    then show thesis using that [of x 3 xs] x by simp
  qed
qed

lemma varint_encode_min: "varint_encode v = varint_encode (min v varint_MAX)"
  by (simp only: varint_encode_def min.assoc min.idem)

lemma varint_decode_encode [simp]:
  assumes "v \<le> varint_MAX"
  shows "varint_decode (varint_encode v @ rest) = Inr (v, length (varint_encode v))"
proof -
  obtain b bs t where e: "varint_encode v = (b OR push_bit 6 (word_of_nat t)) # bs" "unat b < 64" "t < 4"
      "Suc (length bs) = 2 ^ t" "be_val (b # bs) = unat v"
    by (rule varint_encode_shape [OF assms]) blast
  show ?thesis using decode_tagged [OF e(2-4), of rest] e(5) by (simp add: e(1,4))
qed

lemma length_varint_encode: "v \<le> varint_MAX \<Longrightarrow> length (varint_encode v) = encoded_len v"
  by (rule varint_encode_shape [of v]) simp_all

lemma varint_encode_ne [simp]: "varint_encode v \<noteq> []" "0 < length (varint_encode v)"
  by (simp_all only: varint_encode_def Let_def split: if_split) simp_all

lemma varint_decode_bounds:
  assumes "varint_decode buf = Inr (v, n)"
  shows "v \<le> varint_MAX" "0 < n" "n \<le> length buf" "n \<in> {1, 2, 4, 8}"
proof -
  obtain b bs where buf: "buf = b # bs" using assms by (cases buf) (simp_all add: varint_decode_def)
  let ?n = "2 ^ (unat b div 64) :: nat"
  have n: "n = ?n" "\<not> length bs < ?n - 1"
      and v: "v = word_of_nat (unat b mod 64 * 256 ^ (?n - 1) + be_val (take (?n - 1) bs))"
    using assms unfolding buf varint_decode_Cons Let_def by (auto split: if_splits)
  have r: "n \<in> {1, 2, 4, 8}" by (rule tag_cases [of b]) (simp_all add: n(1))
  then show "n \<in> {1, 2, 4, 8}" .
  have le: "(256::nat) ^ (n - 1) * 64 \<le> 2 ^ 62" by (rule tag_cases [of b]) (simp_all add: n(1))
  show "0 < n" using r by auto
  then show "n \<le> length buf" using n buf by auto
  have "be_val (take (n - 1) bs) < 256 ^ (n - 1)" using be_val_lt [of "take (n - 1) bs"] n by simp
  moreover have "unat b mod 64 \<le> 63" by (simp add: mod_less_divisor less_Suc_eq_le [symmetric])
  ultimately have "unat b mod 64 * 256 ^ (n - 1) + be_val (take (n - 1) bs) < 2 ^ 62"
    using mult_le_mono1 [of "unat b mod 64" 63 "256 ^ (n - 1)"] le by linarith
  then have "unat v < 2 ^ 62" unfolding v n(1) [symmetric] by (simp only: unat_of_nat) simp
  then show "v \<le> varint_MAX" by (simp add: word_le_nat_alt)
qed

lemma varint_decode_pos: "varint_decode buf = Inr (v, n) \<Longrightarrow> 0 < n \<and> n \<le> length buf"
  using varint_decode_bounds by blast

lemma varint_decode_prefix:
  assumes "varint_decode buf = Inr (v, n)"
  shows "varint_decode (take n buf @ rest) = Inr (v, n)"
proof -
  obtain b bs where buf: "buf = b # bs" using assms by (cases buf) (simp_all add: varint_decode_def)
  have n: "n = 2 ^ (unat b div 64)" "n - 1 \<le> length bs" "0 < n"
    using assms varint_decode_bounds(2) [OF assms]
    unfolding buf varint_decode_Cons Let_def by (auto split: if_splits)
  obtain m where m: "n = Suc m" using n(3) by (cases n) auto
  then have "m \<le> length bs" "2 ^ (unat b div 64) - 1 = m" using n by simp_all
  then show ?thesis using assms unfolding buf m by (simp add: varint_decode_Cons Let_def split: if_splits)
qed

lemma bounded_len_Inr_iff [simp]: "bounded_len len available = Inr n \<longleftrightarrow> n = unat len \<and> n \<le> available"
  by (auto simp: bounded_len_def)

end

