(* ===== verification/PacketNumber.thy ===== *)
theory PacketNumber
  imports UintBits
begin

text \<open>
  QUIC packet numbers (\<open>quic/pn.rs\<close>): the bounded set of received packet numbers kept as descending
  inclusive ranges, and the truncation and recovery of packet numbers on the wire.
\<close>

section \<open>Acknowledgement ranges\<close>

type_synonym range_inclusive = "u64 \<times> u64"
type_synonym ack_ranges = "range_inclusive list"

definition MAX_ACK_RANGES :: nat where
  "MAX_ACK_RANGES = 32"

definition ar_new :: ack_ranges where
  "ar_new = []"

definition range_contains :: "u64 \<Rightarrow> range_inclusive \<Rightarrow> bool" where
  "range_contains pn r \<longleftrightarrow> fst r \<le> pn \<and> pn \<le> snd r"

fun insert_idx :: "u64 \<Rightarrow> ack_ranges \<Rightarrow> nat" where
  "insert_idx pn [] = 0"
| "insert_idx pn (r # rs) = (if fst r \<le> pn then 0 else Suc (insert_idx pn rs))"

definition ar_insert :: "u64 \<Rightarrow> ack_ranges \<Rightarrow> ack_ranges" where
  "ar_insert pn rs = (
     if list_ex (range_contains pn) rs then rs
     else
       let i = insert_idx pn rs;
           extended_above = (0 < i \<and> fst (rs ! (i - 1)) = pn + 1);
           rs1 = (if extended_above then rs[i - 1 := (pn, snd (rs ! (i - 1)))] else rs);
           extended_below = (i < length rs1 \<and> snd (rs1 ! i) + 1 = pn);
           rs2 = (if extended_below then rs1[i := (fst (rs1 ! i), pn)] else rs1)
       in if extended_above \<and> extended_below then
            let below = rs2 ! i;
                rs3 = take i rs2 @ drop (Suc i) rs2
            in rs3[i - 1 := (fst below, snd (rs3 ! (i - 1)))]
          else if extended_above \<or> extended_below then rs2
          else if MAX_ACK_RANGES \<le> length rs2 \<and> length rs2 \<le> i then rs2
          else
            let rs3 = take i rs2 @ (pn, pn) # drop i rs2
            in if MAX_ACK_RANGES < length rs3 then take MAX_ACK_RANGES rs3 else rs3)"

definition ar_contains :: "u64 \<Rightarrow> ack_ranges \<Rightarrow> bool" where
  "ar_contains pn rs \<longleftrightarrow> list_ex (range_contains pn) rs"

definition ar_largest :: "ack_ranges \<Rightarrow> u64 option" where
  "ar_largest rs = (case rs of [] \<Rightarrow> None | r # _ \<Rightarrow> Some (snd r))"

definition ar_is_empty :: "ack_ranges \<Rightarrow> bool" where
  "ar_is_empty rs \<longleftrightarrow> rs = []"

definition ar_clear :: "ack_ranges \<Rightarrow> ack_ranges" where
  "ar_clear rs = []"

text \<open>
  The invariant: non-empty ranges, in descending order, no two of them adjacent, at most
  \<open>MAX_ACK_RANGES\<close> of them.  \<open>ar_set\<close> is the set of packet numbers a list of ranges stands for.
\<close>

definition range_above :: "range_inclusive \<Rightarrow> range_inclusive \<Rightarrow> bool" where
  "range_above r q \<longleftrightarrow> unat (snd q) + 1 < unat (fst r)"

definition ar_inv :: "ack_ranges \<Rightarrow> bool" where
  "ar_inv rs \<longleftrightarrow> (\<forall>r \<in> set rs. fst r \<le> snd r) \<and> sorted_wrt range_above rs \<and> length rs \<le> MAX_ACK_RANGES"

definition ar_set :: "ack_ranges \<Rightarrow> u64 set" where
  "ar_set rs = (\<Union>r \<in> set rs. {fst r..snd r})"

lemma ar_contains_iff [simp]: "ar_contains pn rs \<longleftrightarrow> pn \<in> ar_set rs"
  by (auto simp: ar_contains_def ar_set_def range_contains_def list_ex_iff)

lemma ar_set_simps [simp]:
  "ar_set [] = {}" "ar_set (r # rs) = {fst r..snd r} \<union> ar_set rs" "ar_set (rs @ qs) = ar_set rs \<union> ar_set qs"
  by (simp_all add: ar_set_def)

lemma insert_idx_split:
  "rs = take (insert_idx pn rs) rs @ drop (insert_idx pn rs) rs"
  "\<forall>r \<in> set (take (insert_idx pn rs) rs). pn < fst r"
  "drop (insert_idx pn rs) rs = q # qs \<Longrightarrow> fst q \<le> pn"
  "insert_idx pn rs \<le> length rs"
proof -
  show "\<forall>r \<in> set (take (insert_idx pn rs) rs). pn < fst r" by (induction rs) (auto simp: not_le)
  show "drop (insert_idx pn rs) rs = q # qs \<Longrightarrow> fst q \<le> pn" by (induction rs) (auto split: if_splits)
  show "insert_idx pn rs \<le> length rs" by (induction rs) auto
qed simp

text \<open>The four outcomes of an insertion between the ranges above and those below.\<close>

lemma ar_insert_cases:
  assumes i: "insert_idx pn (as @ bs) = length as" and new: "pn \<notin> ar_set (as @ bs)"
  shows "as = as' @ [(pn + 1, e)] \<Longrightarrow> bs = (s, pn - 1) # bs' \<Longrightarrow> ar_insert pn (as @ bs) = as' @ (s, e) # bs'"
    and "as = as' @ [(pn + 1, e)] \<Longrightarrow> (bs = [] \<or> snd (hd bs) + 1 \<noteq> pn) \<Longrightarrow> ar_insert pn (as @ bs) = as' @ (pn, e) # bs"
    and "(as = [] \<or> fst (last as) \<noteq> pn + 1) \<Longrightarrow> bs = (s, pn - 1) # bs' \<Longrightarrow> ar_insert pn (as @ bs) = as @ (s, pn) # bs'"
    and "(as = [] \<or> fst (last as) \<noteq> pn + 1) \<Longrightarrow> (bs = [] \<or> snd (hd bs) + 1 \<noteq> pn) \<Longrightarrow> length (as @ bs) \<le> MAX_ACK_RANGES \<Longrightarrow>
          ar_insert pn (as @ bs) = take MAX_ACK_RANGES (as @ (pn, pn) # bs)"
proof -
  have n: "\<not> list_ex (range_contains pn) (as @ bs)" using new by (simp flip: ar_contains_def)
  show "ar_insert pn (as @ bs) = as' @ (s, e) # bs'" if "as = as' @ [(pn + 1, e)]" "bs = (s, pn - 1) # bs'"
    using i n unfolding ar_insert_def that by (simp add: Let_def nth_append list_update_append)
  show "ar_insert pn (as @ bs) = as' @ (pn, e) # bs" if "as = as' @ [(pn + 1, e)]" "bs = [] \<or> snd (hd bs) + 1 \<noteq> pn"
    using i n that(2) unfolding ar_insert_def that(1)
    by (cases bs) (simp_all add: Let_def nth_append list_update_append)
  show "ar_insert pn (as @ bs) = as @ (s, pn) # bs'"
    if "as = [] \<or> fst (last as) \<noteq> pn + 1" "bs = (s, pn - 1) # bs'"
    using i n that(1) unfolding ar_insert_def that(2)
    by (cases as rule: rev_cases) (simp_all add: Let_def nth_append list_update_append)
  show "ar_insert pn (as @ bs) = take MAX_ACK_RANGES (as @ (pn, pn) # bs)"
    if "as = [] \<or> fst (last as) \<noteq> pn + 1" "bs = [] \<or> snd (hd bs) + 1 \<noteq> pn" "length (as @ bs) \<le> MAX_ACK_RANGES"
  proof -
    note le = that(3)
    have a: "\<not> (0 < length as \<and> fst ((as @ bs) ! (length as - 1)) = pn + 1)"
      using that(1) by (cases as rule: rev_cases) (simp_all add: nth_append)
    have b: "\<not> (length as < length (as @ bs) \<and> snd ((as @ bs) ! length as) + 1 = pn)"
      using that(2) by (cases bs) simp_all
    have l: "take (length as) (as @ bs) @ (pn, pn) # drop (length as) (as @ bs) = as @ (pn, pn) # bs" by simp
    have "ar_insert pn (as @ bs) =
        (if MAX_ACK_RANGES \<le> length (as @ bs) \<and> length (as @ bs) \<le> length as then as @ bs
         else if MAX_ACK_RANGES < length (as @ (pn, pn) # bs) then take MAX_ACK_RANGES (as @ (pn, pn) # bs)
         else as @ (pn, pn) # bs)"
      unfolding ar_insert_def i Let_def by (simp only: n a b l simp_thms if_False)
    then show ?thesis using le by (cases "bs = []") (simp_all add: take_Cons')
  qed
qed

lemma unat_Suc_word: "a < (b :: u64) \<Longrightarrow> unat (a + 1) = unat a + 1"
  using unat_lt [of b] by (simp add: unat_word_ariths word_less_nat_alt)

lemma unat_pred_word: "a < (b :: u64) \<Longrightarrow> unat (b - 1) = unat b - 1"
  by (rule unat_minus_one) auto

lemma wf_lists:
  assumes "ar_inv (as @ bs)" and "pn \<notin> ar_set (as @ bs)"
    and "\<forall>r \<in> set as. pn < fst r" and "\<And>q qs. bs = q # qs \<Longrightarrow> fst q \<le> pn"
  shows "\<forall>r \<in> set bs. snd r < pn"
proof (cases bs)
  case (Cons q qs)
  have q: "snd q < pn" using assms(2,4) Cons by (auto simp: not_le)
  have "snd r < pn" if r: "r \<in> set qs" for r
  proof -
    have "range_above q r" "fst q \<le> snd q" using assms(1) r unfolding Cons by (auto simp: ar_inv_def sorted_wrt_append)
    then show ?thesis using q by (simp add: range_above_def word_less_nat_alt word_le_nat_alt)
  qed
  with q show ?thesis by (simp add: Cons)
qed simp

lemma ar_set_take_drop:
  assumes "sorted_wrt range_above rs" "\<forall>r \<in> set rs. fst r \<le> snd r"
    and "x \<in> ar_set (drop n rs)" "y \<in> ar_set (take n rs)"
  shows "x < y"
proof -
  obtain q r where qr: "q \<in> set (drop n rs)" "r \<in> set (take n rs)" "x \<le> snd q" "fst r \<le> y"
    using assms(3,4) unfolding ar_set_def UN_iff atLeastAtMost_iff by blast
  have "sorted_wrt range_above (take n rs @ drop n rs)" using assms(1) by (simp only: append_take_drop_id)
  then have "range_above r q" using qr(1,2) unfolding sorted_wrt_append by blast
  with qr(3,4) show ?thesis by (simp add: range_above_def word_less_nat_alt word_le_nat_alt)
qed

text \<open>
  What an insertion does: the invariant is kept and the new packet number is added; when the bound on
  the number of ranges is hit, only packet numbers below every one that is kept are dropped.
\<close>

definition inserted :: "u64 \<Rightarrow> ack_ranges \<Rightarrow> ack_ranges \<Rightarrow> bool" where
  "inserted pn rs rs' \<longleftrightarrow> ar_inv rs' \<and> ar_set rs' \<noteq> {} \<and> ar_set rs' \<subseteq> insert pn (ar_set rs)
     \<and> (\<forall>x \<in> insert pn (ar_set rs) - ar_set rs'. \<forall>y \<in> ar_set rs'. x < y)
     \<and> (length rs < MAX_ACK_RANGES \<longrightarrow> ar_set rs' = insert pn (ar_set rs))"

lemma insertedI:
  "ar_inv rs' \<Longrightarrow> ar_set rs' = insert pn (ar_set rs) \<Longrightarrow> inserted pn rs rs'"
  by (simp add: inserted_def)

lemma atLeastAtMost_pred: "fst q \<le> (pn :: u64) - 1 \<Longrightarrow> pn \<noteq> 0 \<Longrightarrow> {fst q..pn} = insert pn {fst q..pn - 1}"
  using unat_minus_one [of pn] by (auto simp: word_le_nat_alt word_unat_eq_iff)

lemma atLeastAtMost_succ: "(pn :: u64) + 1 \<le> e \<Longrightarrow> pn < pn + 1 \<Longrightarrow> {pn..e} = insert pn {pn + 1..e}"
  using unat_Suc_word [of pn "pn + 1"] by (auto simp: word_le_nat_alt word_less_nat_alt word_unat_eq_iff)

lemma inserted_take:
  assumes "\<forall>r \<in> set rs'. fst r \<le> snd r" "sorted_wrt range_above rs'"
    and "ar_set rs' = insert pn (ar_set rs)" "length rs' = Suc (length rs)"
  shows "inserted pn rs (take MAX_ACK_RANGES rs')"
proof -
  have s: "ar_set rs' = ar_set (take MAX_ACK_RANGES rs') \<union> ar_set (drop MAX_ACK_RANGES rs')"
    by (metis append_take_drop_id ar_set_simps(3))
  have "ar_inv (take MAX_ACK_RANGES rs')"
    using assms(1,2) by (auto simp: ar_inv_def dest: in_set_takeD)
  moreover have "ar_set (take MAX_ACK_RANGES rs') \<noteq> {}"
    using assms(1,4) by (cases rs') (auto simp: MAX_ACK_RANGES_def)
  moreover have "drop MAX_ACK_RANGES rs' = []" if "length rs < MAX_ACK_RANGES" using that assms(4) by simp
  ultimately show ?thesis
    using ar_set_take_drop [OF assms(2,1), of _ MAX_ACK_RANGES]
    unfolding inserted_def assms(3) [symmetric] s by fastforce
qed

lemma gap_below:
  assumes "ar_inv bs" "\<forall>r \<in> set bs. snd r < pn" "bs = [] \<or> snd (hd bs) + 1 \<noteq> pn" "r \<in> set bs"
  shows "unat (snd r) + 1 < unat pn"
proof (cases bs)
  case (Cons q qs)
  have "snd q < pn" "snd q + 1 \<noteq> pn" using assms(2,3) Cons by simp_all
  then have q: "unat (snd q) + 1 < unat pn"
    using unat_Suc_word [of "snd q" pn] by (simp add: word_less_nat_alt word_unat_eq_iff)
  have "range_above q r \<and> fst q \<le> snd q" if "r \<in> set qs"
    using assms(1) that unfolding Cons by (simp add: ar_inv_def)
  then show ?thesis using q assms(4) Cons by (auto simp: range_above_def word_le_nat_alt)
qed (use assms(4) in simp)

lemma gap_above:
  assumes "ar_inv as" "\<forall>r \<in> set as. pn < fst r" "as = [] \<or> fst (last as) \<noteq> pn + 1" "r \<in> set as"
  shows "unat pn + 1 < unat (fst r)"
proof (cases as rule: rev_cases)
  case (snoc as' q)
  have "pn < fst q" "fst q \<noteq> pn + 1" using assms(2,3) snoc by simp_all
  then have q: "unat pn + 1 < unat (fst q)"
    using unat_Suc_word [of pn "fst q"] by (simp add: word_less_nat_alt word_unat_eq_iff)
  have "range_above r q \<and> fst q \<le> snd q" if "r \<in> set as'"
    using assms(1) that unfolding snoc by (simp add: ar_inv_def sorted_wrt_append)
  then show ?thesis using q assms(4) snoc by (auto simp: range_above_def word_le_nat_alt)
qed (use assms(4) in simp)

lemma ar_inv_append:
  "ar_inv (as @ bs) \<longleftrightarrow> ar_inv as \<and> ar_inv bs \<and> (\<forall>r \<in> set as. \<forall>q \<in> set bs. range_above r q)
     \<and> length as + length bs \<le> MAX_ACK_RANGES"
  by (auto simp: ar_inv_def sorted_wrt_append)

lemma ar_inv_Cons:
  "ar_inv (r # rs) \<longleftrightarrow> fst r \<le> snd r \<and> ar_inv rs \<and> (\<forall>q \<in> set rs. range_above r q) \<and> length rs < MAX_ACK_RANGES"
  by (auto simp: ar_inv_def)

lemmas range_arith = range_above_def word_le_nat_alt word_less_nat_alt word_unat_eq_iff

lemma inserted_merge:
  assumes inv: "ar_inv (as @ bs)" and a: "as = as' @ [(pn + 1, e)]" "pn < pn + 1"
    and b: "bs = (s, pn - 1) # bs'" "pn \<noteq> 0" "pn - 1 < pn"
  shows "inserted pn (as @ bs) (as' @ (s, e) # bs')"
proof (rule insertedI)
  have le: "s \<le> pn - 1" "pn + 1 \<le> e" using inv unfolding a b by (simp_all add: ar_inv_append ar_inv_Cons)
  have "{s..e} = insert pn ({pn + 1..e} \<union> {s..pn - 1})"
    using le a(2) b(2,3) unat_Suc_word [OF a(2)] unat_minus_one [OF b(2)] by (auto simp: range_arith)
  then show "ar_set (as' @ (s, e) # bs') = insert pn (ar_set (as @ bs))" unfolding a b by auto
  show "ar_inv (as' @ (s, e) # bs')"
    using inv le a(2) b(3) unfolding a b(1) by (auto simp: ar_inv_append ar_inv_Cons range_arith)
qed

lemma inserted_above:
  assumes inv: "ar_inv (as @ bs)" and a: "as = as' @ [(pn + 1, e)]" "pn < pn + 1"
    and gap: "\<And>r. r \<in> set bs \<Longrightarrow> unat (snd r) + 1 < unat pn"
  shows "inserted pn (as @ bs) (as' @ (pn, e) # bs)"
proof (rule insertedI)
  have le: "pn + 1 \<le> e" using inv unfolding a by (simp add: ar_inv_append ar_inv_Cons)
  show "ar_set (as' @ (pn, e) # bs) = insert pn (ar_set (as @ bs))"
    unfolding a using atLeastAtMost_succ [OF le a(2)] by auto
  show "ar_inv (as' @ (pn, e) # bs)"
    using inv le a(2) gap unat_Suc_word [OF a(2)] unfolding a(1)
    by (auto simp: ar_inv_append ar_inv_Cons range_arith)
qed

lemma inserted_below:
  assumes inv: "ar_inv (as @ bs)" and b: "bs = (s, pn - 1) # bs'" "pn \<noteq> 0" "pn - 1 < pn"
    and gap: "\<And>r. r \<in> set as \<Longrightarrow> unat pn + 1 < unat (fst r)"
  shows "inserted pn (as @ bs) (as @ (s, pn) # bs')"
proof (rule insertedI)
  have le: "s \<le> pn - 1" using inv unfolding b by (simp add: ar_inv_append ar_inv_Cons)
  show "ar_set (as @ (s, pn) # bs') = insert pn (ar_set (as @ bs))"
    unfolding b using atLeastAtMost_pred [of "(s, s)" pn] le b(2) by auto
  show "ar_inv (as @ (s, pn) # bs')"
    using inv le b(3) gap unat_minus_one [OF b(2)] unfolding b(1)
    by (auto simp: ar_inv_append ar_inv_Cons range_arith)
qed

lemma inserted_new:
  assumes inv: "ar_inv (as @ bs)"
    and gap: "\<And>r. r \<in> set as \<Longrightarrow> unat pn + 1 < unat (fst r)" "\<And>r. r \<in> set bs \<Longrightarrow> unat (snd r) + 1 < unat pn"
  shows "inserted pn (as @ bs) (take MAX_ACK_RANGES (as @ (pn, pn) # bs))"
proof (rule inserted_take)
  show "\<forall>r \<in> set (as @ (pn, pn) # bs). fst r \<le> snd r" using inv by (auto simp: ar_inv_def)
  show "sorted_wrt range_above (as @ (pn, pn) # bs)"
    using inv gap by (auto simp: ar_inv_def sorted_wrt_append range_above_def)
qed auto

lemma ar_insert_inserted:
  assumes "ar_inv rs" and new: "pn \<notin> ar_set rs"
  shows "inserted pn rs (ar_insert pn rs)"
proof -
  define as bs where "as = take (insert_idx pn rs) rs" and "bs = drop (insert_idx pn rs) rs"
  have rs: "rs = as @ bs" and above: "\<forall>r \<in> set as. pn < fst r" and hd: "\<And>q qs. bs = q # qs \<Longrightarrow> fst q \<le> pn"
    using insert_idx_split [where pn = pn and rs = rs] by (simp_all add: as_def bs_def)
  have idx: "insert_idx pn (as @ bs) = length as"
    using insert_idx_split(4) [where pn = pn and rs = rs] by (simp add: as_def bs_def)
  have inv: "ar_inv (as @ bs)" "ar_inv as" "ar_inv bs" using assms(1) by (simp_all add: rs ar_inv_append)
  have below: "\<forall>r \<in> set bs. snd r < pn" using wf_lists [OF inv(1) _ above hd] new rs by simp
  note c = ar_insert_cases [OF idx new [unfolded rs]]
  let ?A = "as = [] \<or> fst (last as) \<noteq> pn + 1" and ?B = "bs = [] \<or> snd (hd bs) + 1 \<noteq> pn"
  have A: "\<exists>as' e. as = as' @ [(pn + 1, e)] \<and> pn < pn + 1" if "\<not> ?A"
    using that above by (cases as rule: rev_cases) auto
  have B: "\<exists>s bs'. bs = (s, pn - 1) # bs' \<and> pn \<noteq> 0 \<and> pn - 1 < pn" if "\<not> ?B"
    using that below by (cases bs) auto
  note gaps = gap_above [OF inv(2) above] gap_below [OF inv(3) below]
  consider "?A" "?B" | "?A" "\<not> ?B" | "\<not> ?A" "?B" | "\<not> ?A" "\<not> ?B" by blast
  then have "inserted pn (as @ bs) (ar_insert pn (as @ bs))"
  proof cases
    case 1
    then show ?thesis
      using inserted_new [OF inv(1) gaps(1) gaps(2)] c(4) inv(1) by (simp add: ar_inv_def)
  next
    case 2
    then show ?thesis using B inserted_below [OF inv(1) _ _ _ gaps(1)] c(3) by metis
  next
    case 3
    then show ?thesis using A inserted_above [OF inv(1) _ _ gaps(2)] c(2) by metis
  next
    case 4
    then show ?thesis using A B inserted_merge [OF inv(1)] c(1) by metis
  qed
  then show ?thesis by (simp only: rs)
qed

lemma ar_insert_contained: "pn \<in> ar_set rs \<Longrightarrow> ar_insert pn rs = rs"
  using ar_contains_iff [of pn rs] by (simp only: ar_insert_def ar_contains_def if_True)

lemma ar_insert_keeps:
  assumes "ar_inv rs"
  shows "inserted pn rs (ar_insert pn rs)"
proof (cases "pn \<in> ar_set rs")
  case True
  then show ?thesis using assms by (auto simp: ar_insert_contained inserted_def insert_absorb)
next
  case False
  then show ?thesis using assms by (rule ar_insert_inserted [rotated])
qed

lemma ar_largest_ge:
  assumes "ar_inv rs" "x \<in> ar_set rs"
  shows "\<exists>m. ar_largest rs = Some m \<and> m \<in> ar_set rs \<and> x \<le> m"
proof (cases rs)
  case (Cons r qs)
  have "x \<le> snd r" if q: "q \<in> set qs" "x \<le> snd q" for q
  proof -
    have "range_above r q" "fst r \<le> snd r" using assms(1) q(1) Cons by (simp_all add: ar_inv_Cons)
    then show ?thesis using q(2) by (simp add: range_arith)
  qed
  then have "x \<le> snd r" using assms(2) Cons by (auto simp: ar_set_def)
  then show ?thesis using assms(1) Cons by (simp add: ar_largest_def ar_inv_Cons)
qed (use assms(2) in simp)

section \<open>Packet numbers on the wire\<close>

definition decode_packet_number :: "u64 \<Rightarrow> u64 \<Rightarrow> nat \<Rightarrow> u64" where
  "decode_packet_number largest_pn truncated_pn pn_nbits = (
     let expected_pn = largest_pn + 1;
         pn_win = push_bit pn_nbits 1;
         pn_hwin = drop_bit 1 pn_win;
         pn_mask = pn_win - 1;
         candidate_pn = (expected_pn AND NOT pn_mask) OR truncated_pn
     in if candidate_pn + pn_hwin \<le> expected_pn \<and> candidate_pn < push_bit 62 1 - pn_win
        then candidate_pn + pn_win
        else if expected_pn + pn_hwin < candidate_pn \<and> pn_win \<le> candidate_pn
        then candidate_pn - pn_win
        else candidate_pn)"

definition encode_packet_number_length :: "u64 \<Rightarrow> u64 option \<Rightarrow> nat" where
  "encode_packet_number_length pn largest_acked = (
     let gap = (case largest_acked of Some la \<Rightarrow> if la \<le> pn then pn - la else 0
                  | None \<Rightarrow> if pn = - 1 then - 1 else pn + 1);
         needed_bits = (if gap = 0 then 1 else 64 - leading_zeros gap) + 1
     in if needed_bits \<le> 8 then 8 else if needed_bits \<le> 16 then 16 else if needed_bits \<le> 24 then 24 else 32)"

lemma word_and_not_mask: "w AND NOT (mask n) = push_bit n (drop_bit n (w :: 'a::len word))"
  by (rule bit_word_eqI) (auto simp: bit_simps)

lemma candidate_val:
  assumes "unat t < 2 ^ n" "n < 64"
  shows "unat ((e AND NOT (push_bit n 1 - 1)) OR (t :: u64)) = unat e div 2 ^ n * 2 ^ n + unat t"
proof -
  have m: "push_bit n 1 - 1 = (mask n :: u64)" by (simp add: mask_eq_exp_minus_1 push_bit_of_1)
  have "unat (t OR push_bit n (drop_bit n e)) = unat t + unat (drop_bit n e) * 2 ^ n"
  proof (rule unat_or_shift [OF assms(1)])
    have "unat e div 2 ^ n * 2 ^ n \<le> unat e" by simp
    then show "unat (drop_bit n e) * 2 ^ n < 2 ^ LENGTH(64)"
      using unat_lt [of e] unfolding unat_drop_bit by linarith
  qed
  then show ?thesis unfolding m word_and_not_mask by (simp add: or.commute unat_drop_bit)
qed

lemma window_recover:
  fixes E p w h :: nat
  assumes w: "w = 2 * h" "0 < h" and win: "E < p + h" "p \<le> E + h"
  defines "c \<equiv> E div w * w + p mod w"
  shows "c + h \<le> E \<Longrightarrow> c + w = p" "E + h < c \<Longrightarrow> c = p + w" "E < c + h \<Longrightarrow> c \<le> E + h \<Longrightarrow> c = p"
proof -
  define q r P t where "q = E div w" and "r = E mod w" and "P = p div w" and "t = p mod w"
  have E: "E = q * w + r" "r < w" and p: "p = P * w + t" "t < w" and c: "c = q * w + t"
    using w(2) unfolding q_def r_def P_def t_def c_def w(1) by (simp_all only: div_mult_mod_eq mod_less_divisor)
  have less: "x < y + k" if "x * w < y * w + k * w" for x y k
    using that unfolding add_mult_distrib [symmetric] by simp
  show "c + w = p" if "c + h \<le> E"
  proof -
    have "q * w < P * w + 0 * w" using that win w E p c by linarith
    moreover have "P * w < q * w + 2 * w" using that win w E p c by linarith
    ultimately have "P = q + 1" using less [of q P 0] less [of P q 2] by simp
    then show ?thesis using p c by simp
  qed
  show "c = p + w" if "E + h < c"
  proof -
    have "P * w < q * w + 0 * w" using that win w E p c by linarith
    moreover have "q * w < P * w + 2 * w" using that win w E p c by linarith
    ultimately have "q = P + 1" using less [of P q 0] less [of q P 2] by simp
    then show ?thesis using p c by simp
  qed
  show "c = p" if "E < c + h" "c \<le> E + h"
  proof -
    have "P * w < q * w + 1 * w" using that win w E p c by linarith
    moreover have "q * w < P * w + 1 * w" using that win w E p c by linarith
    ultimately have "P = q" using less [of P q 1] less [of q P 1] by simp
    then show ?thesis using p c by simp
  qed
qed

lemma window_select:
  fixes C W H e :: u64
  assumes v: "unat e = E" "unat W = w" "unat H = h" "unat (push_bit 62 1 - W) = 2 ^ 62 - w"
    and bd: "unat C < 2 ^ 63" "E < 2 ^ 63" "w < 2 ^ 62" "h < 2 ^ 62" "p < 2 ^ 62"
    and rec: "unat C + h \<le> E \<Longrightarrow> unat C + w = p" "E + h < unat C \<Longrightarrow> unat C = p + w"
      "E < unat C + h \<Longrightarrow> unat C \<le> E + h \<Longrightarrow> unat C = p"
  shows "unat (if C + H \<le> e \<and> C < push_bit 62 1 - W then C + W
     else if e + H < C \<and> W \<le> C then C - W else C) = p"
proof -
  have s: "unat (C + H) = unat C + h" "unat (e + H) = E + h" "unat (C + W) = unat C + w"
    using bd v by (simp_all add: unat_word_ariths)
  consider (lo) "unat C + h \<le> E" | (hi) "E + h < unat C" | (mid) "E < unat C + h" "unat C \<le> E + h"
    by linarith
  then show ?thesis
  proof cases
    case lo
    then have "C + H \<le> e" "C < push_bit 62 1 - W"
      using rec(1) bd by (simp_all only: s v word_le_nat_alt word_less_nat_alt) simp
    then show ?thesis using rec(1) lo by (simp only: simp_thms if_True s)
  next
    case hi
    then have "\<not> C + H \<le> e" "e + H < C" "W \<le> C"
      using rec(2) by (simp_all only: s v word_le_nat_alt word_less_nat_alt not_le)
    then show ?thesis using rec(2) hi v by (simp add: unat_sub)
  next
    case mid
    then have "\<not> C + H \<le> e" "\<not> e + H < C"
      by (simp_all only: s v word_le_nat_alt word_less_nat_alt not_le not_less)
    then show ?thesis using rec(3) mid by (simp only: simp_thms if_False)
  qed
qed

text \<open>
  A packet number within half a window of the expected one is recovered from its low bits.
\<close>

lemma decode_packet_number_val:
  fixes pn largest :: u64
  assumes n: "n \<in> {8, 16, 24, 32}" and lt: "unat pn < 2 ^ 62" "unat largest < 2 ^ 62"
    and win: "unat largest + 1 < unat pn + 2 ^ (n - 1)" "unat pn \<le> unat largest + 1 + 2 ^ (n - 1)"
  shows "decode_packet_number largest (pn AND mask n) n = pn"
proof -
  let ?E = "unat largest + 1" and ?w = "2 ^ n :: nat" and ?h = "2 ^ (n - 1) :: nat" and ?t = "pn AND mask n"
  let ?c = "(largest + 1 AND NOT (push_bit n 1 - 1)) OR ?t"
  have n64: "n < 64" "?w = 2 * ?h" "?w \<le> 2 ^ 32" using n by auto
  have E: "unat (largest + 1) = ?E" using lt by (simp add: unat_word_ariths)
  have t: "unat ?t = unat pn mod ?w"
    by (simp add: take_bit_eq_mask [symmetric] unsigned_take_bit_eq take_bit_eq_mod [where ?'a = nat])
  have c: "unat ?c = ?E div ?w * ?w + unat pn mod ?w"
    using candidate_val [of ?t n "largest + 1"] n64 unfolding t E by simp
  have w: "unat (push_bit n 1 :: u64) = ?w" "unat (drop_bit 1 (push_bit n 1) :: u64) = ?h"
    using n by (auto simp: push_bit_of_1 unat_drop_bit)
  have M: "unat (push_bit 62 1 - push_bit n 1 :: u64) = 2 ^ 62 - ?w"
    using n by (auto simp: push_bit_of_1)
  have "?E div ?w * ?w \<le> ?E" by simp
  moreover have "unat pn mod ?w < ?w" by simp
  ultimately have "unat ?c < unat largest + 1 + 2 ^ 32" using c n64(3) by linarith
  then have cb: "unat ?c < 2 ^ 63" using lt by simp
  have h: "0 < ?h" by simp
  have bd: "?E < 2 ^ 63" "?w < 2 ^ 62" "?h < 2 ^ 62" using lt n64(3) by (simp_all add: n64(2))
  have "unat (decode_packet_number largest ?t n) = unat pn"
    unfolding decode_packet_number_def Let_def
    by (rule window_select [OF E w M cb bd lt(1) window_recover [OF n64(2) h win, folded c]])
  then show ?thesis by (simp add: word_unat_eq_iff)
qed

lemma encode_length_cases:
  "encode_packet_number_length pn acked \<in> {8, 16, 24, 32}"
  by (simp add: encode_packet_number_length_def Let_def)

lemma encode_length_gap:
  assumes gap: "gap = (case acked of Some la \<Rightarrow> if la \<le> pn then pn - la else 0 | None \<Rightarrow> if pn = - 1 then - 1 else pn + 1)"
    and "unat gap < 2 ^ 31"
  shows "unat gap < 2 ^ (encode_packet_number_length pn acked - 1)"
proof (cases "gap = 0")
  case False
  define nb where "nb = (64 - leading_zeros gap) + 1"
  have lt: "unat gap < 2 ^ (nb - 1)" using leading_zeros_bounds(3) [OF False] by (simp add: nb_def)
  have e: "encode_packet_number_length pn acked
      = (if nb \<le> 8 then 8 else if nb \<le> 16 then 16 else if nb \<le> 24 then 24 else 32)"
    using False unfolding encode_packet_number_length_def gap [symmetric] Let_def nb_def by (simp only: if_False)
  have "unat gap < 2 ^ (m - 1)" if "nb \<le> m" for m
  proof -
    have "(2::nat) ^ (nb - 1) \<le> 2 ^ (m - 1)" using that by simp
    with lt show ?thesis by linarith
  qed
  from this [of 8] this [of 16] this [of 24] show ?thesis unfolding e using assms(2) by simp
qed simp

text \<open>
  C34.  Recording a received packet number: the ranges stay non-empty, descending, separated and at most 32
  in number, and the number is added to the set they stand for; when the bound forces an eviction, only
  numbers below every one still recorded are lost, so the largest received number is always reported.
\<close>

theorem ar_insert_correct:
  assumes "ar_inv rs"
  shows "ar_inv (ar_insert pn rs)
    \<and> ar_set (ar_insert pn rs) \<subseteq> insert pn (ar_set rs)
    \<and> (\<forall>x \<in> insert pn (ar_set rs) - ar_set (ar_insert pn rs). \<forall>y \<in> ar_set (ar_insert pn rs). x < y)
    \<and> (length rs < MAX_ACK_RANGES \<longrightarrow> ar_set (ar_insert pn rs) = insert pn (ar_set rs))
    \<and> (\<forall>x \<in> insert pn (ar_set rs). \<exists>m. ar_largest (ar_insert pn rs) = Some m \<and> x \<le> m)"
proof -
  have i: "inserted pn rs (ar_insert pn rs)" using assms by (rule ar_insert_keeps)
  have "\<exists>m. ar_largest (ar_insert pn rs) = Some m \<and> x \<le> m" if x: "x \<in> insert pn (ar_set rs)" for x
  proof -
    have "ar_set (ar_insert pn rs) \<noteq> {}" using i by (simp add: inserted_def)
    then obtain y where y: "y \<in> ar_set (ar_insert pn rs)" "x \<le> y"
      using x i unfolding inserted_def by (metis DiffI all_not_in_conv less_imp_le order_refl)
    then show ?thesis using ar_largest_ge [of "ar_insert pn rs" y] i by (auto simp: inserted_def)
  qed
  then show ?thesis using i unfolding inserted_def by blast
qed

theorem ar_insert_correct_witness:
  "ar_inv (ar_insert 7 [(9, 12), (3, 6)]) \<and> ar_set (ar_insert 7 [(9, 12), (3, 6)]) = insert 7 (ar_set [(9, 12), (3, 6)])"
  using ar_insert_correct [of "[(9, 12), (3, 6)]" 7]
  by (simp add: ar_inv_def range_above_def MAX_ACK_RANGES_def)

text \<open>
  C17.  Packet numbers survive truncation: with the number of bits the sender picks from the largest
  acknowledged number, a receiver whose largest number is at least that one recovers the packet number
  from its low bits, as long as fewer than \<open>2\<^sup>3\<^sup>1\<close> numbers are in flight and the packet is not overtaken by
  half a window.
\<close>

theorem packet_number_recovered:
  fixes pn largest :: u64
  assumes "unat pn < 2 ^ 62" "unat largest < 2 ^ 62"
    and "case acked of Some la \<Rightarrow> la \<le> largest \<and> unat pn < unat la + 2 ^ 31 | None \<Rightarrow> unat pn + 1 < 2 ^ 31"
    and n: "n = encode_packet_number_length pn acked"
    and "unat largest + 1 < unat pn + 2 ^ (n - 1)"
  shows "decode_packet_number largest (pn AND mask n) n = pn"
proof (rule decode_packet_number_val)
  define gap where "gap = (case acked of Some la \<Rightarrow> if la \<le> pn then pn - la else 0 | None \<Rightarrow> if pn = - 1 then - 1 else pn + 1)"
  have "unat (pn + 1) = unat pn + 1" "pn \<noteq> - 1"
    using assms(1) unat_neg [of "1 :: u64"] by (auto simp: unat_word_ariths)
  then have g: "unat gap = (case acked of Some la \<Rightarrow> unat pn - unat la | None \<Rightarrow> unat pn + 1)"
    by (auto simp: gap_def unat_sub word_le_nat_alt split: option.splits)
  have "unat gap < 2 ^ 31" using assms(3) by (auto simp: g split: option.splits)
  then have "unat gap < 2 ^ (n - 1)" using encode_length_gap [OF gap_def] n by simp
  then show "unat pn \<le> unat largest + 1 + 2 ^ (n - 1)"
    using assms(3) by (auto simp: g word_le_nat_alt split: option.splits)
qed (use assms encode_length_cases in auto)

theorem packet_number_recovered_witness:
  "decode_packet_number 0xabe8bc (0xac5c02 AND mask 16) 16 = 0xac5c02"
  by (rule packet_number_recovered [of _ _ "Some 0xabe8b3"])
    (simp_all add: encode_packet_number_length_def leading_zeros_def upt_rec bit_numeral_rec)

end
