(* ===== verification/Frame.thy ===== *)
theory Frame
  imports Varint PacketNumber
begin

text \<open>
  QUIC frames (\<open>quic/frame.rs\<close>): the frame type, its decoder and encoder, the iterators over a packet
  payload and over the ranges of an acknowledgement, and the conversion between acknowledgement
  ranges and their wire form.  A slice borrowed from the input is the list of its bytes; a panic of
  the encoder is \<open>None\<close>.
\<close>

definition MAX_STREAMS_LIMIT :: u64 where
  "MAX_STREAMS_LIMIT = push_bit 60 1"

datatype stream_dir = Bidi | Uni

record ecn_counts =
  ect0 :: u64
  ect1 :: u64
  ce :: u64

datatype frame =
    Padding nat
  | Ping
  | Ack u64 u64 bytes u64 "ecn_counts option"
  | ResetStream u64 u64 u64
  | StopSending u64 u64
  | Crypto u64 bytes
  | NewToken bytes
  | Stream u64 u64 bool bytes
  | MaxData u64
  | MaxStreamData u64 u64
  | MaxStreams stream_dir u64
  | DataBlocked u64
  | StreamDataBlocked u64 u64
  | StreamsBlocked stream_dir u64
  | NewConnectionId u64 u64 bytes bytes
  | RetireConnectionId u64
  | PathChallenge bytes
  | PathResponse bytes
  | ConnectionClose u64 "u64 option" bytes
  | HandshakeDone
  | Datagram bytes

section \<open>Decoding\<close>

text \<open>The reading idiom of the decoder: a varint at position \<open>p\<close>, with the position after it.\<close>

definition read_varint :: "bytes \<Rightarrow> nat \<Rightarrow> tls_error + u64 \<times> nat" where
  "read_varint buf p = and_then (varint_decode (drop p buf)) (\<lambda>(v, n). Inr (v, p + n))"

definition bytes_at :: "bytes \<Rightarrow> nat \<Rightarrow> nat \<Rightarrow> bytes" where
  "bytes_at buf p q = take (q - p) (drop p buf)"

definition decode_padding :: "bytes \<Rightarrow> tls_error + frame \<times> nat" where
  "decode_padding buf = (let n = 1 + length (takeWhile (\<lambda>b. b = 0) (drop 1 buf)) in Inr (Padding n, n))"

text \<open>Two consecutive varints, skipped \<open>range_count\<close> times.\<close>

fun skip_pairs :: "nat \<Rightarrow> bytes \<Rightarrow> nat \<Rightarrow> tls_error + nat" where
  "skip_pairs 0 buf p = Inr p"
| "skip_pairs (Suc k) buf p =
     and_then (read_varint buf p) (\<lambda>(_, p). and_then (read_varint buf p) (\<lambda>(_, p). skip_pairs k buf p))"

definition decode_ecn :: "u8 \<Rightarrow> bytes \<Rightarrow> nat \<Rightarrow> tls_error + ecn_counts option \<times> nat" where
  "decode_ecn t buf p =
     (if t = 0x03 then
        and_then (read_varint buf p) (\<lambda>(e0, p).
        and_then (read_varint buf p) (\<lambda>(e1, p).
        and_then (read_varint buf p) (\<lambda>(c, p).
          Inr (Some \<lparr>ect0 = e0, ect1 = e1, ce = c\<rparr>, p))))
      else Inr (None, p))"

definition decode_ack :: "u8 \<Rightarrow> bytes \<Rightarrow> tls_error + frame \<times> nat" where
  "decode_ack t buf =
     and_then (read_varint buf 1) (\<lambda>(largest, p).
     and_then (read_varint buf p) (\<lambda>(ack_delay, p).
     and_then (read_varint buf p) (\<lambda>(range_count, p).
     and_then (read_varint buf p) (\<lambda>(first_range, raw_start).
     and_then (skip_pairs (unat range_count) buf raw_start) (\<lambda>raw_end.
     and_then (decode_ecn t buf raw_end) (\<lambda>(ecn, p).
       Inr (Ack largest ack_delay (bytes_at buf raw_start raw_end) first_range ecn, p)))))))"

definition decode_reset_stream :: "bytes \<Rightarrow> tls_error + frame \<times> nat" where
  "decode_reset_stream buf =
     and_then (read_varint buf 1) (\<lambda>(id, p).
     and_then (read_varint buf p) (\<lambda>(code, p).
     and_then (read_varint buf p) (\<lambda>(final_size, p). Inr (ResetStream id code final_size, p))))"

definition decode_stop_sending :: "bytes \<Rightarrow> tls_error + frame \<times> nat" where
  "decode_stop_sending buf =
     and_then (read_varint buf 1) (\<lambda>(id, p).
     and_then (read_varint buf p) (\<lambda>(code, p). Inr (StopSending id code, p)))"

text \<open>\<open>offset.checked_add(length)\<close> against the largest offset of a stream.\<close>

definition offset_ok :: "u64 \<Rightarrow> u64 \<Rightarrow> bool" where
  "offset_ok offset len \<longleftrightarrow> unat offset + unat len < 2 ^ 64 \<and> offset + len \<le> varint_MAX"

definition decode_crypto :: "bytes \<Rightarrow> tls_error + frame \<times> nat" where
  "decode_crypto buf =
     and_then (read_varint buf 1) (\<lambda>(offset, p).
     and_then (read_varint buf p) (\<lambda>(len, p).
       if \<not> offset_ok offset len then Inl DecodeErr
       else and_then (bounded_len len (length buf - p)) (\<lambda>n.
         Inr (Crypto offset (bytes_at buf p (p + n)), p + n))))"

definition decode_new_token :: "bytes \<Rightarrow> tls_error + frame \<times> nat" where
  "decode_new_token buf =
     and_then (read_varint buf 1) (\<lambda>(len, p).
     and_then (bounded_len len (length buf - p)) (\<lambda>n.
       if n = 0 then Inl DecodeErr else Inr (NewToken (bytes_at buf p (p + n)), p + n)))"

definition stream_offset :: "bool \<Rightarrow> bytes \<Rightarrow> nat \<Rightarrow> tls_error + u64 \<times> nat" where
  "stream_offset has_off buf p = (if has_off then read_varint buf p else Inr (0, p))"

definition stream_data :: "bool \<Rightarrow> u64 \<Rightarrow> bytes \<Rightarrow> nat \<Rightarrow> tls_error + bytes \<times> nat" where
  "stream_data has_len offset buf p =
     (if has_len then
        and_then (read_varint buf p) (\<lambda>(len, p).
          if \<not> offset_ok offset len then Inl DecodeErr
          else and_then (bounded_len len (length buf - p)) (\<lambda>n. Inr (bytes_at buf p (p + n), p + n)))
      else
        let d = drop p buf in
        if \<not> offset_ok offset (word_of_nat (length d)) then Inl DecodeErr
        else Inr (d, length buf))"

definition decode_stream :: "u8 \<Rightarrow> bytes \<Rightarrow> tls_error + frame \<times> nat" where
  "decode_stream t buf = (
     let fin = (t AND 0x01 \<noteq> 0); has_len = (t AND 0x02 \<noteq> 0); has_off = (t AND 0x04 \<noteq> 0) in
     and_then (read_varint buf 1) (\<lambda>(id, p).
     and_then (stream_offset has_off buf p) (\<lambda>(offset, p).
     and_then (stream_data has_len offset buf p) (\<lambda>(d, p). Inr (Stream id offset fin d, p)))))"

definition decode_max_stream_data :: "bytes \<Rightarrow> tls_error + frame \<times> nat" where
  "decode_max_stream_data buf =
     and_then (read_varint buf 1) (\<lambda>(id, p).
     and_then (read_varint buf p) (\<lambda>(limit, p). Inr (MaxStreamData id limit, p)))"

definition decode_max_streams :: "u8 \<Rightarrow> bytes \<Rightarrow> tls_error + frame \<times> nat" where
  "decode_max_streams t buf =
     and_then (read_varint buf 1) (\<lambda>(limit, p).
       if MAX_STREAMS_LIMIT < limit then Inl DecodeErr
       else Inr (MaxStreams (if t = 0x12 then Bidi else Uni) limit, p))"

definition decode_stream_data_blocked :: "bytes \<Rightarrow> tls_error + frame \<times> nat" where
  "decode_stream_data_blocked buf =
     and_then (read_varint buf 1) (\<lambda>(id, p).
     and_then (read_varint buf p) (\<lambda>(limit, p). Inr (StreamDataBlocked id limit, p)))"

definition decode_streams_blocked :: "u8 \<Rightarrow> bytes \<Rightarrow> tls_error + frame \<times> nat" where
  "decode_streams_blocked t buf =
     and_then (read_varint buf 1) (\<lambda>(limit, p).
       if MAX_STREAMS_LIMIT < limit then Inl DecodeErr
       else Inr (StreamsBlocked (if t = 0x16 then Bidi else Uni) limit, p))"

definition decode_new_connection_id :: "bytes \<Rightarrow> tls_error + frame \<times> nat" where
  "decode_new_connection_id buf =
     and_then (read_varint buf 1) (\<lambda>(seq, p).
     and_then (read_varint buf p) (\<lambda>(retire_prior_to, p).
       if length buf - p < 1 then Inl DecodeErr
       else
         let cid_len = unat (buf ! p); p = p + 1 in
         if cid_len = 0 \<or> 20 < cid_len then Inl DecodeErr
         else if length buf - p < cid_len + 16 then Inl DecodeErr
         else
           let cid = bytes_at buf p (p + cid_len); p = p + cid_len in
           Inr (NewConnectionId seq retire_prior_to cid (bytes_at buf p (p + 16)), p + 16)))"

definition decode_path_data :: "(bytes \<Rightarrow> frame) \<Rightarrow> bytes \<Rightarrow> tls_error + frame \<times> nat" where
  "decode_path_data con buf =
     (if length buf - 1 < 8 then Inl DecodeErr else Inr (con (bytes_at buf 1 (1 + 8)), 1 + 8))"

definition decode_connection_close :: "u8 \<Rightarrow> bytes \<Rightarrow> tls_error + frame \<times> nat" where
  "decode_connection_close t buf =
     and_then (read_varint buf 1) (\<lambda>(error, p).
     and_then (if t = 0x1C then and_then (read_varint buf p) (\<lambda>(ft, p). Inr (Some ft, p)) else Inr (None, p))
       (\<lambda>(frame_type, p).
     and_then (read_varint buf p) (\<lambda>(reason_len, p).
     and_then (bounded_len reason_len (length buf - p)) (\<lambda>n.
       Inr (ConnectionClose error frame_type (bytes_at buf p (p + n)), p + n)))))"

definition decode_datagram :: "bytes \<Rightarrow> tls_error + frame \<times> nat" where
  "decode_datagram buf =
     and_then (read_varint buf 1) (\<lambda>(len, p).
     and_then (bounded_len len (length buf - p)) (\<lambda>n. Inr (Datagram (bytes_at buf p (p + n)), p + n)))"

definition decode_one :: "(u64 \<Rightarrow> frame) \<Rightarrow> bytes \<Rightarrow> tls_error + frame \<times> nat" where
  "decode_one con buf = and_then (read_varint buf 1) (\<lambda>(v, p). Inr (con v, p))"

definition frame_decode :: "bytes \<Rightarrow> tls_error + frame \<times> nat" where
  "frame_decode buf = (
     if buf = [] then Inl DecodeErr
     else
       let t = buf ! 0 in
       if t = 0x00 then decode_padding buf
       else if t = 0x01 then Inr (Ping, 1)
       else if t = 0x02 \<or> t = 0x03 then decode_ack t buf
       else if t = 0x04 then decode_reset_stream buf
       else if t = 0x05 then decode_stop_sending buf
       else if t = 0x06 then decode_crypto buf
       else if t = 0x07 then decode_new_token buf
       else if 0x08 \<le> t \<and> t \<le> 0x0F then decode_stream t buf
       else if t = 0x10 then decode_one MaxData buf
       else if t = 0x11 then decode_max_stream_data buf
       else if t = 0x12 \<or> t = 0x13 then decode_max_streams t buf
       else if t = 0x14 then decode_one DataBlocked buf
       else if t = 0x15 then decode_stream_data_blocked buf
       else if t = 0x16 \<or> t = 0x17 then decode_streams_blocked t buf
       else if t = 0x18 then decode_new_connection_id buf
       else if t = 0x19 then decode_one RetireConnectionId buf
       else if t = 0x1A then decode_path_data PathChallenge buf
       else if t = 0x1B then decode_path_data PathResponse buf
       else if t = 0x1C \<or> t = 0x1D then decode_connection_close t buf
       else if t = 0x1E then Inr (HandshakeDone, 1)
       else if t = 0x30 then Inr (Datagram (drop 1 buf), length buf)
       else if t = 0x31 then decode_datagram buf
       else Inl DecodeErr)"

section \<open>Encoding\<close>

function count_pairs :: "bytes \<Rightarrow> u64 \<Rightarrow> u64 option" where
  "count_pairs raw count =
     (if raw = [] then Some count
      else case varint_decode raw of
        Inl _ \<Rightarrow> None
      | Inr (_, n) \<Rightarrow>
          (case varint_decode (drop n raw) of
             Inl _ \<Rightarrow> None
           | Inr (_, m) \<Rightarrow> count_pairs (drop m (drop n raw)) (count + 1)))"
  by pat_completeness auto
termination
  by (relation "measure (length \<circ> fst)")
    (auto dest!: varint_decode_pos simp: less_imp_diff_less)

declare count_pairs.simps [simp del]

definition encode_ecn :: "ecn_counts option \<Rightarrow> bytes" where
  "encode_ecn ecn = (case ecn of None \<Rightarrow> []
     | Some c \<Rightarrow> varint_encode (ect0 c) @ varint_encode (ect1 c) @ varint_encode (ce c))"

definition len64 :: "bytes \<Rightarrow> u64" where
  "len64 bs = word_of_nat (length bs)"

fun frame_encode :: "frame \<Rightarrow> bytes option" where
  "frame_encode (Padding n) = Some (replicate n 0)"
| "frame_encode Ping = Some [0x01]"
| "frame_encode (Ack largest ack_delay ranges_raw first_range ecn) =
     (case count_pairs ranges_raw 0 of
        None \<Rightarrow> None
      | Some count \<Rightarrow> Some ((if ecn \<noteq> None then 0x03 else 0x02) # varint_encode largest @ varint_encode ack_delay
          @ varint_encode count @ varint_encode first_range @ ranges_raw @ encode_ecn ecn))"
| "frame_encode (ResetStream sid code final_size) =
     Some (0x04 # varint_encode sid @ varint_encode code @ varint_encode final_size)"
| "frame_encode (StopSending sid code) = Some (0x05 # varint_encode sid @ varint_encode code)"
| "frame_encode (Crypto offset d) = Some (0x06 # varint_encode offset @ varint_encode (len64 d) @ d)"
| "frame_encode (NewToken token) = Some (0x07 # varint_encode (len64 token) @ token)"
| "frame_encode (Stream sid offset fin d) = (
     let t = (if offset \<noteq> 0 then 0x08 OR 0x04 else 0x08) OR 0x02;
         t = (if fin then t OR 0x01 else t)
     in Some (t # varint_encode sid @ (if offset \<noteq> 0 then varint_encode offset else [])
          @ varint_encode (len64 d) @ d))"
| "frame_encode (MaxData v) = Some (0x10 # varint_encode v)"
| "frame_encode (MaxStreamData sid limit) = Some (0x11 # varint_encode sid @ varint_encode limit)"
| "frame_encode (MaxStreams dir limit) =
     Some ((case dir of Bidi \<Rightarrow> 0x12 | Uni \<Rightarrow> 0x13) # varint_encode limit)"
| "frame_encode (DataBlocked v) = Some (0x14 # varint_encode v)"
| "frame_encode (StreamDataBlocked sid limit) = Some (0x15 # varint_encode sid @ varint_encode limit)"
| "frame_encode (StreamsBlocked dir limit) =
     Some ((case dir of Bidi \<Rightarrow> 0x16 | Uni \<Rightarrow> 0x17) # varint_encode limit)"
| "frame_encode (NewConnectionId seq retire_prior_to cid reset_token) =
     (if length cid \<le> 20 then
        Some (0x18 # varint_encode seq @ varint_encode retire_prior_to @ word_of_nat (length cid) # cid @ reset_token)
      else None)"
| "frame_encode (RetireConnectionId seq) = Some (0x19 # varint_encode seq)"
| "frame_encode (PathChallenge d) = Some (0x1A # d)"
| "frame_encode (PathResponse d) = Some (0x1B # d)"
| "frame_encode (ConnectionClose error frame_type reason) =
     Some ((if frame_type \<noteq> None then 0x1C else 0x1D) # varint_encode error
       @ (case frame_type of Some ft \<Rightarrow> varint_encode ft | None \<Rightarrow> [])
       @ varint_encode (len64 reason) @ reason)"
| "frame_encode HandshakeDone = Some [0x1E]"
| "frame_encode (Datagram d) = Some (0x31 # varint_encode (len64 d) @ d)"

section \<open>Round trip\<close>

text \<open>
  The frames the wire format can carry: values in the range of a varint, stream ends in range, and
  the array and length bounds of each frame type.
\<close>

definition vi :: "u64 \<Rightarrow> bool" where
  "vi v \<longleftrightarrow> v \<le> varint_MAX"

definition data_ok :: "bytes \<Rightarrow> bool" where
  "data_ok d \<longleftrightarrow> length d < 2 ^ 62"

fun frame_wf :: "frame \<Rightarrow> bool" where
  "frame_wf (Padding n) \<longleftrightarrow> 0 < n"
| "frame_wf Ping \<longleftrightarrow> True"
| "frame_wf (Ack largest ack_delay ranges_raw first_range ecn) \<longleftrightarrow>
     vi largest \<and> vi ack_delay \<and> vi first_range \<and> count_pairs ranges_raw 0 \<noteq> None \<and> data_ok ranges_raw
     \<and> (\<forall>c. ecn = Some c \<longrightarrow> vi (ect0 c) \<and> vi (ect1 c) \<and> vi (ce c))"
| "frame_wf (ResetStream sid code final_size) \<longleftrightarrow> vi sid \<and> vi code \<and> vi final_size"
| "frame_wf (StopSending sid code) \<longleftrightarrow> vi sid \<and> vi code"
| "frame_wf (Crypto offset d) \<longleftrightarrow> unat offset + length d < 2 ^ 62"
| "frame_wf (NewToken token) \<longleftrightarrow> token \<noteq> [] \<and> data_ok token"
| "frame_wf (Stream sid offset fin d) \<longleftrightarrow> vi sid \<and> unat offset + length d < 2 ^ 62"
| "frame_wf (MaxData v) \<longleftrightarrow> vi v"
| "frame_wf (MaxStreamData sid limit) \<longleftrightarrow> vi sid \<and> vi limit"
| "frame_wf (MaxStreams dir limit) \<longleftrightarrow> limit \<le> MAX_STREAMS_LIMIT"
| "frame_wf (DataBlocked v) \<longleftrightarrow> vi v"
| "frame_wf (StreamDataBlocked sid limit) \<longleftrightarrow> vi sid \<and> vi limit"
| "frame_wf (StreamsBlocked dir limit) \<longleftrightarrow> limit \<le> MAX_STREAMS_LIMIT"
| "frame_wf (NewConnectionId seq retire_prior_to cid reset_token) \<longleftrightarrow>
     vi seq \<and> vi retire_prior_to \<and> cid \<noteq> [] \<and> length cid \<le> 20 \<and> length reset_token = 16"
| "frame_wf (RetireConnectionId seq) \<longleftrightarrow> vi seq"
| "frame_wf (PathChallenge d) \<longleftrightarrow> length d = 8"
| "frame_wf (PathResponse d) \<longleftrightarrow> length d = 8"
| "frame_wf (ConnectionClose error frame_type reason) \<longleftrightarrow>
     vi error \<and> (\<forall>ft. frame_type = Some ft \<longrightarrow> vi ft) \<and> data_ok reason"
| "frame_wf HandshakeDone \<longleftrightarrow> True"
| "frame_wf (Datagram d) \<longleftrightarrow> data_ok d"

lemma read_varint_encode:
  "drop p buf = varint_encode v @ rest \<Longrightarrow> vi v \<Longrightarrow> read_varint buf p = Inr (v, p + length (varint_encode v))"
  by (simp add: read_varint_def vi_def)

lemma unat_len64: "data_ok d \<Longrightarrow> unat (len64 d) = length d"
  by (simp add: data_ok_def len64_def unat_of_nat)

lemma vi_len64 [simp]: "data_ok d \<Longrightarrow> vi (len64 d)"
  by (simp add: vi_def word_le_nat_alt unat_len64) (simp add: data_ok_def)

lemma limit_vi: "limit \<le> MAX_STREAMS_LIMIT \<Longrightarrow> vi limit"
  by (simp add: vi_def MAX_STREAMS_LIMIT_def push_bit_of_1 word_le_nat_alt)

lemma offset_ok_iff:
  "data_ok d \<Longrightarrow> offset_ok off (len64 d) \<longleftrightarrow> unat off + length d < 2 ^ 62"
  by (auto simp: offset_ok_def unat_len64 word_le_nat_alt unat_word_ariths)

lemma offset_data: "unat off + length d < 2 ^ 62 \<Longrightarrow> data_ok d" "unat off + length d < 2 ^ 62 \<Longrightarrow> vi off"
  by (auto simp: data_ok_def vi_def word_le_nat_alt)

lemma bounded_len_ok: "data_ok d \<Longrightarrow> length d \<le> k \<Longrightarrow> bounded_len (len64 d) k = Inr (length d)"
  by (simp add: unat_len64)

lemma varint_decode_append: "varint_decode buf = Inr (v, n) \<Longrightarrow> varint_decode (buf @ rest) = Inr (v, n)"
  using varint_decode_prefix [of buf v n "drop n buf @ rest"] by (metis append.assoc append_take_drop_id)

text \<open>Counting the pairs of a well-formed range list and skipping that many of them agree.\<close>

lemma skip_counted:
  assumes "count_pairs raw c = Some d"
  shows "\<exists>k. d = c + word_of_nat k \<and> k \<le> length raw
    \<and> (\<forall>buf p post. drop p buf = raw @ post \<longrightarrow> skip_pairs k buf p = Inr (p + length raw))"
  using assms
proof (induction raw c rule: count_pairs.induct)
  case (1 raw c)
  show ?case
  proof (cases "raw = []")
    case True
    then have "d = c" using "1.prems" by (simp add: count_pairs.simps)
    then show ?thesis using True by (intro exI [of _ 0]) simp
  next
    case False
    obtain v n w m where v: "varint_decode raw = Inr (v, n)" "varint_decode (drop n raw) = Inr (w, m)"
        and d: "count_pairs (drop m (drop n raw)) (c + 1) = Some d"
      using "1.prems" False by (subst (asm) count_pairs.simps) (auto split: sum.splits)
    obtain k where k: "d = c + 1 + word_of_nat k" "k \<le> length (drop m (drop n raw))"
        "\<And>buf p post. drop p buf = drop m (drop n raw) @ post \<Longrightarrow> skip_pairs k buf p = Inr (p + length (drop m (drop n raw)))"
      using "1.IH" [OF False v(1) refl v(2) refl d] by blast
    have nm: "0 < n" "n \<le> length raw" "0 < m" "m \<le> length raw - n"
      using v [THEN varint_decode_pos] by simp_all
    have "skip_pairs (Suc k) buf p = Inr (p + length raw)" if buf: "drop p buf = raw @ post" for buf p post
    proof -
      have "drop (p + n) buf = drop n raw @ post" "drop (p + n + m) buf = drop m (drop n raw) @ post"
        using buf nm by (simp_all add: add.commute flip: drop_drop)
      then show ?thesis
        using buf v nm k(3) [of "p + n + m" buf post] by (simp add: read_varint_def varint_decode_append)
    qed
    then show ?thesis using k(1,2) nm by (intro exI [of _ "Suc k"]) auto
  qed
qed

lemmas arm_defs = decode_one_def decode_reset_stream_def decode_stop_sending_def decode_crypto_def decode_new_token_def
  decode_max_stream_data_def decode_max_streams_def decode_stream_data_blocked_def decode_streams_blocked_def
  decode_new_connection_id_def decode_path_data_def decode_connection_close_def decode_datagram_def
lemmas wire_simps = read_varint_def bounded_len_ok bytes_at_def offset_ok_iff Let_def

lemma frame_dispatch:
  "frame_decode (0x00 # bs) = decode_padding (0x00 # bs)"
  "frame_decode (0x01 # bs) = Inr (Ping, 1)"
  "frame_decode (0x02 # bs) = decode_ack 0x02 (0x02 # bs)"
  "frame_decode (0x03 # bs) = decode_ack 0x03 (0x03 # bs)"
  "frame_decode (0x04 # bs) = decode_reset_stream (0x04 # bs)"
  "frame_decode (0x05 # bs) = decode_stop_sending (0x05 # bs)"
  "frame_decode (0x06 # bs) = decode_crypto (0x06 # bs)"
  "frame_decode (0x07 # bs) = decode_new_token (0x07 # bs)"
  "frame_decode (0x0A # bs) = decode_stream 0x0A (0x0A # bs)"
  "frame_decode (0x0B # bs) = decode_stream 0x0B (0x0B # bs)"
  "frame_decode (0x0E # bs) = decode_stream 0x0E (0x0E # bs)"
  "frame_decode (0x0F # bs) = decode_stream 0x0F (0x0F # bs)"
  "frame_decode (0x10 # bs) = decode_one MaxData (0x10 # bs)"
  "frame_decode (0x11 # bs) = decode_max_stream_data (0x11 # bs)"
  "frame_decode (0x12 # bs) = decode_max_streams 0x12 (0x12 # bs)"
  "frame_decode (0x13 # bs) = decode_max_streams 0x13 (0x13 # bs)"
  "frame_decode (0x14 # bs) = decode_one DataBlocked (0x14 # bs)"
  "frame_decode (0x15 # bs) = decode_stream_data_blocked (0x15 # bs)"
  "frame_decode (0x16 # bs) = decode_streams_blocked 0x16 (0x16 # bs)"
  "frame_decode (0x17 # bs) = decode_streams_blocked 0x17 (0x17 # bs)"
  "frame_decode (0x18 # bs) = decode_new_connection_id (0x18 # bs)"
  "frame_decode (0x19 # bs) = decode_one RetireConnectionId (0x19 # bs)"
  "frame_decode (0x1A # bs) = decode_path_data PathChallenge (0x1A # bs)"
  "frame_decode (0x1B # bs) = decode_path_data PathResponse (0x1B # bs)"
  "frame_decode (0x1C # bs) = decode_connection_close 0x1C (0x1C # bs)"
  "frame_decode (0x1D # bs) = decode_connection_close 0x1D (0x1D # bs)"
  "frame_decode (0x1E # bs) = Inr (HandshakeDone, 1)"
  "frame_decode (0x31 # bs) = decode_datagram (0x31 # bs)"
  by (simp_all add: frame_decode_def)

definition roundtrips :: "frame \<Rightarrow> bytes \<Rightarrow> bool" where
  "roundtrips f rest \<longleftrightarrow> (\<exists>bs. frame_encode f = Some bs \<and> bs \<noteq> [] \<and> frame_decode (bs @ rest) = Inr (f, length bs))"

lemma roundtripsI:
  "frame_encode f = Some bs \<Longrightarrow> bs \<noteq> [] \<Longrightarrow> frame_decode (bs @ rest) = Inr (f, length bs) \<Longrightarrow> roundtrips f rest"
  by (simp add: roundtrips_def)

lemmas vi_len = vi_len64 [unfolded vi_def]

lemma roundtrip_fixed:
  "roundtrips Ping rest" "roundtrips HandshakeDone rest"
  "vi a \<Longrightarrow> vi b \<Longrightarrow> vi c \<Longrightarrow> roundtrips (ResetStream a b c) rest"
  "vi a \<Longrightarrow> vi b \<Longrightarrow> roundtrips (StopSending a b) rest"
  "vi a \<Longrightarrow> roundtrips (MaxData a) rest" "vi a \<Longrightarrow> roundtrips (DataBlocked a) rest"
  "vi a \<Longrightarrow> vi b \<Longrightarrow> roundtrips (MaxStreamData a b) rest"
  "vi a \<Longrightarrow> vi b \<Longrightarrow> roundtrips (StreamDataBlocked a b) rest"
  "vi a \<Longrightarrow> roundtrips (RetireConnectionId a) rest"
  by (simp_all add: roundtrips_def frame_dispatch arm_defs wire_simps vi_def)

lemma roundtrip_limits:
  assumes "limit \<le> MAX_STREAMS_LIMIT"
  shows "roundtrips (MaxStreams dir limit) rest" "roundtrips (StreamsBlocked dir limit) rest"
  using assms limit_vi [OF assms]
  by (cases dir; simp add: roundtrips_def frame_dispatch arm_defs wire_simps vi_def not_less)+

lemma roundtrip_data:
  "unat off + length d < 2 ^ 62 \<Longrightarrow> roundtrips (Crypto off d) rest"
  "token \<noteq> [] \<Longrightarrow> data_ok token \<Longrightarrow> roundtrips (NewToken token) rest"
  "data_ok d \<Longrightarrow> roundtrips (Datagram d) rest"
  "length d = 8 \<Longrightarrow> roundtrips (PathChallenge d) rest" "length d = 8 \<Longrightarrow> roundtrips (PathResponse d) rest"
  using offset_data [of off d]
  by (simp_all add: roundtrips_def frame_dispatch arm_defs wire_simps vi_def vi_len)

lemma roundtrip_close:
  assumes "vi error" "\<forall>ft. frame_type = Some ft \<longrightarrow> vi ft" "data_ok reason"
  shows "roundtrips (ConnectionClose error frame_type reason) rest"
  using assms by (cases frame_type) (simp_all add: roundtrips_def frame_dispatch arm_defs wire_simps vi_def vi_len)

lemma roundtrip_stream:
  assumes "vi sid" "unat off + length d < 2 ^ 62"
  shows "roundtrips (Stream sid off fin d) rest"
  using assms offset_data [OF assms(2)]
  by (cases fin; cases "off = 0") (simp_all add: roundtrips_def frame_dispatch decode_stream_def stream_offset_def stream_data_def wire_simps vi_def vi_len)

lemma roundtrip_new_connection_id:
  assumes "vi seq" "vi rpt" "cid \<noteq> []" "length cid \<le> 20" "length token = 16"
  shows "roundtrips (NewConnectionId seq rpt cid token) rest"
proof -
  have "unat (word_of_nat (length cid) :: u8) = length cid" using assms(4) by (simp add: unat_of_nat)
  then show ?thesis
    using assms by (simp add: roundtrips_def frame_dispatch arm_defs wire_simps vi_def nth_append)
qed

lemma roundtrip_padding:
  assumes "0 < n" "rest = [] \<or> hd rest \<noteq> 0"
  shows "roundtrips (Padding n) rest"
proof -
  obtain m where n: "n = Suc m" using assms(1) by (cases n) auto
  have "takeWhile (\<lambda>b. b = 0) (replicate m 0 @ rest) = replicate m 0"
    using assms(2) by (induction m) (cases rest, simp_all)
  then show ?thesis by (simp add: roundtrips_def n frame_dispatch decode_padding_def)
qed

lemma roundtrip_ack:
  assumes "vi largest" "vi delay" "vi first" "count_pairs raw 0 \<noteq> None" "data_ok raw"
    and "\<forall>c. ecn = Some c \<longrightarrow> vi (ect0 c) \<and> vi (ect1 c) \<and> vi (ce c)"
  shows "roundtrips (Ack largest delay raw first ecn) rest"
proof -
  obtain count where c: "count_pairs raw 0 = Some count" using assms(4) by blast
  obtain k where k: "count = word_of_nat k" "k \<le> length raw"
      "\<And>buf p post. drop p buf = raw @ post \<Longrightarrow> skip_pairs k buf p = Inr (p + length raw)"
    using skip_counted [OF c] by auto
  have "unat count = k" "vi count"
    using k(1,2) assms(5) by (simp_all add: unat_of_nat data_ok_def vi_def word_le_nat_alt)
  then show ?thesis
    using assms k(3) by (cases ecn)
      (simp_all add: roundtrips_def c frame_dispatch decode_ack_def decode_ecn_def encode_ecn_def wire_simps vi_def)
qed

section \<open>Decoded frames are well formed\<close>

lemma read_varint_bounds:
  assumes "read_varint buf p = Inr (v, q)"
  shows "vi v" "p < q" "q \<le> length buf"
  using assms varint_decode_bounds [of "drop p buf"] varint_decode_pos [of "drop p buf"]
  by (fastforce simp: read_varint_def and_then_Inr_iff vi_def)+

lemma count_pairs_step:
  assumes "varint_decode raw = Inr (v, n)" "varint_decode (drop n raw) = Inr (w, m)"
    and "\<And>c. count_pairs (drop (n + m) raw) c \<noteq> None"
  shows "count_pairs raw c \<noteq> None"
proof -
  have "raw \<noteq> []" using varint_decode_pos [OF assms(1)] by auto
  then show ?thesis using assms by (subst count_pairs.simps) (simp add: add.commute)
qed

lemma bytes_at_split: "p \<le> q \<Longrightarrow> q \<le> r \<Longrightarrow> r \<le> length buf \<Longrightarrow> bytes_at buf p r = bytes_at buf p q @ bytes_at buf q r"
  by (auto simp: bytes_at_def le_iff_add take_add add.commute add.left_commute)

lemma skip_pairs_counts:
  "skip_pairs k buf p = Inr q \<Longrightarrow> p \<le> length buf \<Longrightarrow>
   p \<le> q \<and> q \<le> length buf \<and> (\<forall>c. count_pairs (bytes_at buf p q) c \<noteq> None)"
proof (induction k arbitrary: p)
  case 0
  then show ?case by (simp add: bytes_at_def count_pairs.simps)
next
  case (Suc k)
  obtain v p1 w p2 where r: "read_varint buf p = Inr (v, p1)" "read_varint buf p1 = Inr (w, p2)"
      and s: "skip_pairs k buf p2 = Inr q"
    using Suc.prems(1) by (auto simp: and_then_Inr_iff)
  note b = read_varint_bounds [OF r(1)] read_varint_bounds [OF r(2)]
  have ih: "p2 \<le> q" "q \<le> length buf" "\<And>c. count_pairs (bytes_at buf p2 q) c \<noteq> None"
    using Suc.IH [OF s] b by blast+
  obtain n m where n: "varint_decode (drop p buf) = Inr (v, n)" "p1 = p + n"
      and m: "varint_decode (drop p1 buf) = Inr (w, m)" "p2 = p1 + m"
    using r by (auto simp: read_varint_def and_then_Inr_iff)
  have "varint_decode (bytes_at buf p q) = Inr (v, n)" "varint_decode (drop n (bytes_at buf p q)) = Inr (w, m)"
    using varint_decode_prefix [OF n(1), of "bytes_at buf p1 q"] varint_decode_prefix [OF m(1), of "bytes_at buf p2 q"]
      bytes_at_split [of p p1 q buf] bytes_at_split [of p1 p2 q buf] ih b n(2) m(2)
    by (simp_all add: bytes_at_def)
  moreover have "drop (n + m) (bytes_at buf p q) = bytes_at buf p2 q"
    using n(2) m(2) ih by (simp add: bytes_at_def drop_take add.commute add.left_commute)
  ultimately show ?case using count_pairs_step [of "bytes_at buf p q" v n w m] ih b by auto
qed

lemma length_bytes_at0: "p \<le> q \<Longrightarrow> q \<le> length buf \<Longrightarrow> length (bytes_at buf p q) = q - p"
  by (simp add: bytes_at_def)

text \<open>What a decoder promises: a well-formed frame, and that it consumed a non-empty part of the input.\<close>

definition decodes_wf :: "bytes \<Rightarrow> tls_error + frame \<times> nat \<Rightarrow> bool" where
  "decodes_wf buf r \<longleftrightarrow> (\<forall>f n. r = Inr (f, n) \<longrightarrow> frame_wf f \<and> 0 < n \<and> n \<le> length buf)"

lemma decodes_wf_Inl [simp]: "decodes_wf buf (Inl e)"
  by (simp add: decodes_wf_def)

lemma decodes_wf_if:
  "(c \<Longrightarrow> decodes_wf buf x) \<Longrightarrow> (\<not> c \<Longrightarrow> decodes_wf buf y) \<Longrightarrow> decodes_wf buf (if c then x else y)"
  by simp

lemma read_varint_ok: "read_varint buf p = Inr (v, q) \<Longrightarrow> vi v \<and> p < q \<and> q \<le> length buf"
  using read_varint_bounds by blast

lemma small_data_ok: "length buf < 2 ^ 62 \<Longrightarrow> data_ok (bytes_at buf p q)"
  by (simp add: data_ok_def bytes_at_def)

lemma offset_ok_end: "offset_ok off len \<Longrightarrow> unat off + unat len < 2 ^ 62"
  by (auto simp: offset_ok_def word_le_nat_alt unat_word_ariths)

lemma length_bytes_at: "p + n \<le> length buf \<Longrightarrow> length (bytes_at buf p (p + n)) = n"
  by (simp add: bytes_at_def)

lemmas decodes_simps = decodes_wf_def and_then_Inr_iff Let_def not_less length_bytes_at

lemma decodes_fixed:
  "decodes_wf buf (decode_reset_stream buf)" "decodes_wf buf (decode_stop_sending buf)"
  "decodes_wf buf (decode_max_stream_data buf)" "decodes_wf buf (decode_stream_data_blocked buf)"
  "decodes_wf buf (decode_max_streams t buf)" "decodes_wf buf (decode_streams_blocked t buf)"
  "decodes_wf buf (decode_one MaxData buf)" "decodes_wf buf (decode_one DataBlocked buf)"
  "decodes_wf buf (decode_one RetireConnectionId buf)"
  by (auto simp: arm_defs decodes_simps split: if_splits dest!: read_varint_ok)

lemma decodes_padding: "decodes_wf (b # bs) (decode_padding (b # bs))"
  by (simp add: decode_padding_def decodes_simps length_takeWhile_le)

lemma decodes_path:
  "decodes_wf buf (decode_path_data PathChallenge buf)" "decodes_wf buf (decode_path_data PathResponse buf)"
  by (auto simp: decode_path_data_def decodes_simps bytes_at_def)

lemma decodes_data:
  assumes "length buf < 2 ^ 62"
  shows "decodes_wf buf (decode_new_token buf)" "decodes_wf buf (decode_datagram buf)"
    "decodes_wf buf (decode_connection_close t buf)"
  using assms
  by (auto simp: decode_new_token_def decode_datagram_def decode_connection_close_def decodes_simps bytes_at_def data_ok_def
      split: if_splits dest!: read_varint_ok)

lemma decodes_crypto: "decodes_wf buf (decode_crypto buf)"
  by (auto simp: decode_crypto_def decodes_simps split: if_splits dest!: read_varint_ok offset_ok_end)

lemma decodes_new_connection_id: "decodes_wf buf (decode_new_connection_id buf)"
  by (auto simp: decode_new_connection_id_def decodes_simps bytes_at_def split: if_splits dest!: read_varint_ok)

lemma stream_data_ok:
  assumes "length buf < 2 ^ 62" "stream_data has_len off buf p = Inr (d, q)"
  shows "unat off + length d < 2 ^ 62 \<and> (0 < p \<longrightarrow> p \<le> length buf \<longrightarrow> 0 < q \<and> q \<le> length buf)"
proof (cases has_len)
  case True
  obtain x where x: "read_varint buf p = Inr x" "(case x of (len, p) \<Rightarrow> if \<not> offset_ok off len then Inl DecodeErr
      else and_then (bounded_len len (length buf - p)) (\<lambda>n. Inr (bytes_at buf p (p + n), p + n))) = Inr (d, q)"
    using assms(2) True unfolding stream_data_def and_then_Inr_iff by (simp only: if_True and_then_Inr_iff) blast
  obtain len p' where lp: "x = (len, p')" by (cases x)
  have len: "read_varint buf p = Inr (len, p')" "offset_ok off len" "unat len \<le> length buf - p'"
      "d = bytes_at buf p' (p' + unat len)" "q = p' + unat len"
    using x unfolding lp by (auto simp: and_then_Inr_iff split: if_splits)
  have "p' + unat len \<le> length buf" using read_varint_ok [OF len(1)] len(3) by linarith
  then show ?thesis using read_varint_ok [OF len(1)] offset_ok_end [OF len(2)] len(4,5) by (simp add: length_bytes_at)
next
  case False
  then have "d = drop p buf" "q = length buf" "offset_ok off (word_of_nat (length d))"
    using assms(2) by (auto simp: stream_data_def Let_def split: if_splits)
  moreover from this(1) have "unat (word_of_nat (length d) :: u64) = length d" using assms(1) by (simp add: unat_of_nat)
  ultimately show ?thesis using offset_ok_end [of off] by fastforce
qed

lemma decodes_stream:
  assumes "length buf < 2 ^ 62"
  shows "decodes_wf buf (decode_stream t buf)"
  by (auto simp: decode_stream_def decodes_wf_def and_then_Inr_iff Let_def stream_offset_def
      split: if_splits dest!: read_varint_ok stream_data_ok [OF assms])

lemma decode_ecn_ok:
  "decode_ecn t buf p = Inr (e, q) \<Longrightarrow> p \<le> length buf \<Longrightarrow>
     p \<le> q \<and> q \<le> length buf \<and> (\<forall>c. e = Some c \<longrightarrow> vi (ect0 c) \<and> vi (ect1 c) \<and> vi (ce c))"
  by (auto simp: decode_ecn_def and_then_Inr_iff split: if_splits dest!: read_varint_ok)

lemma decodes_ack:
  assumes "length buf < 2 ^ 62"
  shows "decodes_wf buf (decode_ack t buf)"
  unfolding decodes_wf_def
proof (intro allI impI)
  fix f n assume "decode_ack t buf = Inr (f, n)"
  then obtain largest p1 delay p2 count p3 first p4 p5 ecn where
      r: "read_varint buf 1 = Inr (largest, p1)" "read_varint buf p1 = Inr (delay, p2)"
        "read_varint buf p2 = Inr (count, p3)" "read_varint buf p3 = Inr (first, p4)"
      and s: "skip_pairs (unat count) buf p4 = Inr p5" and e: "decode_ecn t buf p5 = Inr (ecn, n)"
      and f: "f = Ack largest delay (bytes_at buf p4 p5) first ecn"
    by (auto simp: decode_ack_def and_then_Inr_iff)
  note b = r [THEN read_varint_ok]
  have s': "p4 \<le> p5" "p5 \<le> length buf" "count_pairs (bytes_at buf p4 p5) 0 \<noteq> None"
    using skip_pairs_counts [OF s] b by auto
  show "frame_wf f \<and> 0 < n \<and> n \<le> length buf"
    using b s' decode_ecn_ok [OF e s'(2)] small_data_ok [OF assms] unfolding f by auto
qed

lemma frame_decode_wf:
  assumes "length buf < 2 ^ 62"
  shows "decodes_wf buf (frame_decode buf)"
proof (cases buf)
  case Nil
  then show ?thesis by (simp add: frame_decode_def)
next
  case (Cons b bs)
  have w: "decodes_wf buf (Inr (Ping, 1))" "decodes_wf buf (Inr (HandshakeDone, 1))"
      "decodes_wf buf (Inr (Datagram (drop 1 buf), length buf))" "decodes_wf buf (decode_padding buf)"
    using assms decodes_padding [of b bs] unfolding Cons by (simp_all add: decodes_wf_def data_ok_def)
  show ?thesis
    unfolding frame_decode_def Let_def
    by (intro decodes_wf_if w decodes_fixed decodes_path decodes_data [OF assms] decodes_crypto
        decodes_new_connection_id decodes_stream [OF assms] decodes_ack [OF assms] decodes_wf_Inl)
qed

section \<open>Iterating over the frames of a packet\<close>

definition frame_iter_next :: "bytes \<Rightarrow> (tls_error + frame) option \<times> bytes" where
  "frame_iter_next buf =
     (if buf = [] then (None, buf)
      else case frame_decode buf of
        Inr (f, n) \<Rightarrow> (Some (Inr f), drop n buf)
      | Inl e \<Rightarrow> (Some (Inl e), []))"

text \<open>The items the iterator yields until it returns \<open>None\<close>, with at most one step per byte and one more.\<close>

fun frame_iter_run :: "nat \<Rightarrow> bytes \<Rightarrow> (tls_error + frame) list option" where
  "frame_iter_run 0 buf = None"
| "frame_iter_run (Suc fuel) buf =
     (case frame_iter_next buf of
        (None, _) \<Rightarrow> Some []
      | (Some item, buf') \<Rightarrow> map_option (\<lambda>items. item # items) (frame_iter_run fuel buf'))"

definition frame_iter :: "bytes \<Rightarrow> (tls_error + frame) list option" where
  "frame_iter buf = frame_iter_run (Suc (length buf)) buf"

definition not_padding :: "frame \<Rightarrow> bool" where
  "not_padding f \<longleftrightarrow> (\<forall>n. f \<noteq> Padding n)"

lemma frame_iter_run_mono:
  "frame_iter_run k buf = Some items \<Longrightarrow> k \<le> m \<Longrightarrow> frame_iter_run m buf = Some items"
proof (induction k arbitrary: buf items m)
  case (Suc k)
  then obtain j where m: "m = Suc j" "k \<le> j" by (cases m) auto
  show ?case using Suc.prems(1) Suc.IH [OF _ m(2)] unfolding m(1)
    by (auto split: option.splits prod.splits)
qed simp

lemma frame_iter_run_total:
  "length buf < k \<Longrightarrow> length buf < 2 ^ 62 \<Longrightarrow> \<exists>items. frame_iter_run k buf = Some items \<and> length items \<le> length buf"
proof (induction k arbitrary: buf)
  case (Suc k)
  show ?case
  proof (cases "buf = []")
    case False
    show ?thesis
    proof (cases "frame_decode buf")
      case (Inl e)
      have "\<exists>items. frame_iter_run k [] = Some items \<and> length items \<le> 0"
        using Suc.IH [of "[]"] Suc.prems False by (cases k) simp_all
      then show ?thesis using False Inl by (auto simp: frame_iter_next_def Suc_le_eq)
    next
      case (Inr r)
      obtain f n where r: "frame_decode buf = Inr (f, n)" using Inr by (cases r) auto
      have n: "0 < n" "n \<le> length buf" using frame_decode_wf [OF Suc.prems(2)] r by (auto simp: decodes_wf_def)
      then have "length (drop n buf) < k" "length (drop n buf) < 2 ^ 62" using Suc.prems by simp_all
      then obtain items where "frame_iter_run k (drop n buf) = Some items" "length items \<le> length buf - n"
        using Suc.IH [of "drop n buf"] by auto
      then show ?thesis using False r n by (auto simp: frame_iter_next_def)
    qed
  qed (simp add: frame_iter_next_def)
qed simp

text \<open>A list of frames with no two adjacent runs of padding, and the payload that carries it.\<close>

fun separated :: "frame list \<Rightarrow> bool" where
  "separated (f # g # fs) \<longleftrightarrow> (not_padding f \<or> not_padding g) \<and> separated (g # fs)"
| "separated _ \<longleftrightarrow> True"

fun encode_all :: "frame list \<Rightarrow> bytes option" where
  "encode_all [] = Some []"
| "encode_all (f # fs) =
     (case frame_encode f of None \<Rightarrow> None
      | Some bs \<Rightarrow> (case encode_all fs of None \<Rightarrow> None | Some cs \<Rightarrow> Some (bs @ cs)))"

lemma encode_hd: "not_padding f \<Longrightarrow> frame_encode f = Some bs \<Longrightarrow> bs \<noteq> [] \<and> hd bs \<noteq> 0"
  by (cases f) (auto simp: not_padding_def Let_def split: option.splits if_splits stream_dir.splits)

lemma frame_roundtrips:
  assumes "frame_wf f" "not_padding f \<or> rest = [] \<or> hd rest \<noteq> 0"
  shows "roundtrips f rest"
  using assms by (cases f)
    (simp_all add: roundtrip_fixed roundtrip_limits roundtrip_data roundtrip_close roundtrip_stream
      roundtrip_new_connection_id roundtrip_padding roundtrip_ack not_padding_def)

lemma frame_iter_encode_all:
  assumes "\<forall>f \<in> set fs. frame_wf f" "separated fs"
  shows "\<exists>bs. encode_all fs = Some bs \<and> frame_iter_run (Suc (length bs)) bs = Some (map Inr fs)
    \<and> (fs \<noteq> [] \<longrightarrow> not_padding (hd fs) \<longrightarrow> bs \<noteq> [] \<and> hd bs \<noteq> 0)"
  using assms
proof (induction fs)
  case Nil
  then show ?case by (simp add: frame_iter_next_def)
next
  case (Cons f fs)
  obtain cs where cs: "encode_all fs = Some cs" "frame_iter_run (Suc (length cs)) cs = Some (map Inr fs)"
      "fs \<noteq> [] \<Longrightarrow> not_padding (hd fs) \<Longrightarrow> cs \<noteq> [] \<and> hd cs \<noteq> 0"
    using Cons.IH Cons.prems by (cases fs) (auto simp del: frame_iter_run.simps)
  have "not_padding f \<or> cs = [] \<or> hd cs \<noteq> 0"
    using Cons.prems(2) cs(1,3) by (cases fs) auto
  then obtain bs where bs: "frame_encode f = Some bs" "bs \<noteq> []" "frame_decode (bs @ cs) = Inr (f, length bs)"
    using frame_roundtrips [of f cs] Cons.prems(1) by (auto simp: roundtrips_def)
  have "frame_iter_run (length (bs @ cs)) cs = Some (map Inr fs)"
    using bs(2) by (intro frame_iter_run_mono [OF cs(2)]) (cases bs, auto)
  then have "frame_iter_run (Suc (length (bs @ cs))) (bs @ cs) = Some (map Inr (f # fs))"
    using bs by (simp add: frame_iter_next_def)
  then show ?case using bs cs encode_hd [OF _ bs(1)] by (auto simp del: frame_iter_run.simps)
qed

text \<open>
  C16.  Frames round trip: a well-formed frame is encoded without a panic, and decoding the bytes, whatever
  follows them in the packet, returns the frame and consumes exactly these bytes (a run of padding
  also swallows the zero bytes after it).
\<close>

theorem frame_roundtrip:
  assumes "frame_wf f" "not_padding f \<or> rest = [] \<or> hd rest \<noteq> 0"
  shows "\<exists>bs. frame_encode f = Some bs \<and> bs \<noteq> [] \<and> frame_decode (bs @ rest) = Inr (f, length bs)"
  using frame_roundtrips [OF assms] by (simp add: roundtrips_def)

theorem frame_roundtrip_witness:
  "\<exists>bs. frame_encode (Stream 4 1000 True [1, 2, 3]) = Some bs \<and> bs \<noteq> []
     \<and> frame_decode (bs @ [1]) = Inr (Stream 4 1000 True [1, 2, 3], length bs)"
  by (rule frame_roundtrip) (simp_all add: not_padding_def vi_def varint_MAX_def push_bit_of_1)

text \<open>
  C32.  The decoder is safe on arbitrary input: what it returns is a well-formed frame (stream ends, stream
  limits, identifier and token lengths in range) and a non-zero number of bytes that lies within the
  input, so the frame can be re-encoded and the next read starts inside the buffer.
\<close>

theorem frame_decode_safe:
  assumes "length buf < 2 ^ 62" "frame_decode buf = Inr (f, n)"
  shows "frame_wf f \<and> 0 < n \<and> n \<le> length buf \<and> frame_encode f \<noteq> None"
proof -
  have "frame_wf f \<and> 0 < n \<and> n \<le> length buf"
    using frame_decode_wf [OF assms(1)] assms(2) by (simp add: decodes_wf_def)
  then show ?thesis using frame_roundtrips [of f "[]"] by (auto simp: roundtrips_def)
qed

theorem frame_decode_safe_witness:
  "frame_wf (MaxStreams Uni 5) \<and> 0 < (2 :: nat) \<and> 2 \<le> length [0x13, 0x05, 0xFF :: u8] \<and> frame_encode (MaxStreams Uni 5) \<noteq> None"
  by (rule frame_decode_safe)
    (simp_all add: frame_dispatch decode_max_streams_def read_varint_def varint_decode_def MAX_STREAMS_LIMIT_def push_bit_of_1)

text \<open>
  C33.  Iterating over a packet: on every input the iterator stops, after at most one item per byte; on the
  concatenated encodings of well-formed frames (runs of padding merged) it yields exactly these frames.
\<close>

theorem frame_iter_correct:
  "(length buf < 2 ^ 62 \<longrightarrow> (\<exists>items. frame_iter buf = Some items \<and> length items \<le> length buf))
   \<and> ((\<forall>f \<in> set fs. frame_wf f) \<and> separated fs \<longrightarrow>
        (\<exists>bs. encode_all fs = Some bs \<and> frame_iter bs = Some (map Inr fs)))"
proof (intro conjI impI)
  show "\<exists>items. frame_iter buf = Some items \<and> length items \<le> length buf" if "length buf < 2 ^ 62"
    using frame_iter_run_total [OF _ that, of "Suc (length buf)"] by (simp only: frame_iter_def)
  show "\<exists>bs. encode_all fs = Some bs \<and> frame_iter bs = Some (map Inr fs)"
    if "(\<forall>f \<in> set fs. frame_wf f) \<and> separated fs"
    using frame_iter_encode_all [of fs] that by (auto simp only: frame_iter_def)
qed

theorem frame_iter_correct_witness:
  "(\<exists>items. frame_iter [0x01, 0x1E] = Some items \<and> length items \<le> length [0x01, 0x1E :: u8])
   \<and> (\<exists>bs. encode_all [Ping, Padding 3, MaxData 7] = Some bs
        \<and> frame_iter bs = Some (map Inr [Ping, Padding 3, MaxData 7]))"
  using frame_iter_correct [of "[0x01, 0x1E]" "[Ping, Padding 3, MaxData 7]"]
  by (simp add: not_padding_def vi_def varint_MAX_def push_bit_of_1)

end
