(* ===== verification/AckCodec.thy ===== *)
theory AckCodec
  imports Frame
begin

text \<open>
  Acknowledgement ranges on the wire: the builder and the readers of \<open>quic/frame.rs\<close>, the reader
  inlined in the connection's frame handler (\<open>quic/connection.rs\<close>), and the stand-alone codec of
  \<open>quic/ack.rs\<close>.  A \<open>Duration\<close> is its number of nanoseconds.
\<close>

section \<open>The ranges of an ACK frame\<close>

definition ack_range_iter_next :: "bytes \<Rightarrow> (tls_error + u64 \<times> u64) option \<times> bytes" where
  "ack_range_iter_next buf =
     (if buf = [] then (None, buf)
      else case varint_decode buf of
        Inl e \<Rightarrow> (Some (Inl e), buf)
      | Inr (gap, n) \<Rightarrow>
          let buf = drop n buf in
          case varint_decode buf of
            Inl e \<Rightarrow> (Some (Inl e), buf)
          | Inr (range_length, n) \<Rightarrow> (Some (Inr (gap, range_length)), drop n buf))"

text \<open>The pairs for each range after the first, relative to the range before it.\<close>

fun ack_pairs_raw :: "ack_ranges \<Rightarrow> bytes" where
  "ack_pairs_raw (prev # cur # rs) =
     varint_encode (fst prev - snd cur - 2) @ varint_encode (snd cur - fst cur) @ ack_pairs_raw (cur # rs)"
| "ack_pairs_raw _ = []"

definition build_ack_ranges_raw :: "ack_ranges \<Rightarrow> (u64 \<times> u64 \<times> bytes) option" where
  "build_ack_ranges_raw stored =
     (case stored of [] \<Rightarrow> None
      | r # _ \<Rightarrow> (let largest = snd r in Some (largest, largest - fst r, ack_pairs_raw stored)))"

text \<open>One pair below a block that starts at \<open>smallest\<close>: the next range, or an error on underflow.\<close>

definition next_block :: "u64 \<Rightarrow> u64 \<Rightarrow> u64 \<Rightarrow> tls_error + range_inclusive" where
  "next_block smallest gap range_length =
     (if 2 ^ 64 \<le> unat gap + 2 then Inl DecodeErr
      else
        let gap_plus_two = gap + 2 in
        if smallest < gap_plus_two then Inl DecodeErr
        else
          let next_largest = smallest - gap_plus_two in
          if next_largest < range_length then Inl DecodeErr
          else Inr (next_largest - range_length, next_largest))"

lemma iter_next_shorter:
  "ack_range_iter_next buf = (Some (Inr x), buf') \<Longrightarrow> length buf' < length buf"
  by (auto simp: ack_range_iter_next_def Let_def split: if_splits sum.splits dest!: varint_decode_pos)

text \<open>The frame handler's loop over the iterator; every step consumes input.\<close>

function acked_loop :: "u64 \<Rightarrow> bytes \<Rightarrow> ack_ranges \<Rightarrow> tls_error + ack_ranges" where
  "acked_loop smallest buf acked =
     (case ack_range_iter_next buf of
        (None, _) \<Rightarrow> Inr acked
      | (Some (Inl e), _) \<Rightarrow> Inl e
      | (Some (Inr (gap, range_length)), buf') \<Rightarrow>
          and_then (next_block smallest gap range_length) (\<lambda>r. acked_loop (fst r) buf' (acked @ [r])))"
  by pat_completeness auto

termination
  by (relation "measure (\<lambda>(_, buf, _). length buf)") (auto dest: iter_next_shorter [OF sym])

declare acked_loop.simps [simp del]

definition acked_ranges :: "u64 \<Rightarrow> u64 \<Rightarrow> bytes \<Rightarrow> tls_error + ack_ranges" where
  "acked_ranges largest first_range ranges_raw =
     (if largest < first_range then Inl DecodeErr
      else acked_loop (largest - first_range) ranges_raw [(largest - first_range, largest)])"

text \<open>\<open>parse_ack_ranges\<close> inserts the packet numbers one by one.\<close>

definition insert_range :: "range_inclusive \<Rightarrow> ack_ranges \<Rightarrow> ack_ranges" where
  "insert_range r rs = fold ar_insert (map word_of_nat [unat (fst r)..<Suc (unat (snd r))]) rs"

function parse_loop :: "u64 \<Rightarrow> bytes \<Rightarrow> ack_ranges \<Rightarrow> tls_error + ack_ranges" where
  "parse_loop smallest buf acc =
     (case ack_range_iter_next buf of
        (None, _) \<Rightarrow> Inr acc
      | (Some (Inl e), _) \<Rightarrow> Inl e
      | (Some (Inr (gap, range_length)), buf') \<Rightarrow>
          and_then (next_block smallest gap range_length) (\<lambda>r. parse_loop (fst r) buf' (insert_range r acc)))"
  by pat_completeness auto

termination
  by (relation "measure (\<lambda>(_, buf, _). length buf)") (auto dest: iter_next_shorter [OF sym])

declare parse_loop.simps [simp del]

definition parse_ack_ranges :: "u64 \<Rightarrow> u64 \<Rightarrow> bytes \<Rightarrow> tls_error + ack_ranges" where
  "parse_ack_ranges largest first_range ranges_raw =
     (if largest < first_range then Inl DecodeErr
      else parse_loop (largest - first_range) ranges_raw (insert_range (largest - first_range, largest) ar_new))"

section \<open>The stand-alone codec\<close>

text \<open>The trailing pairs with their count; a range that touches the one before it is skipped.\<close>

fun ack_trailing :: "ack_ranges \<Rightarrow> u64 \<times> bytes" where
  "ack_trailing (prev # cur # rs) = (
     let (count, rest) = ack_trailing (cur # rs) in
     if fst prev < snd cur \<or> fst prev - snd cur < 2 then (count, rest)
     else (count + 1, varint_encode (fst prev - snd cur - 2) @ varint_encode (snd cur - fst cur) @ rest))"
| "ack_trailing _ = (0, [])"

definition ack_delay_scaled :: "nat \<Rightarrow> nat \<Rightarrow> u8 \<Rightarrow> u64" where
  "ack_delay_scaled largest_arrival now ack_delay_exponent =
     drop_bit (min (unat ack_delay_exponent) 62) (word_of_nat ((now - largest_arrival) div 1000))"

definition build_ack_payload :: "ack_ranges \<Rightarrow> nat \<Rightarrow> nat \<Rightarrow> u8 \<Rightarrow> bytes" where
  "build_ack_payload stored largest_arrival now ack_delay_exponent =
     (case stored of [] \<Rightarrow> []
      | r # _ \<Rightarrow>
          let largest = snd r; first_range = largest - fst r;
              scaled = ack_delay_scaled largest_arrival now ack_delay_exponent;
              (count, trailing) = ack_trailing stored
          in varint_encode largest @ varint_encode scaled @ varint_encode count @ varint_encode first_range @ trailing)"

definition build_ack_frame :: "ack_ranges \<Rightarrow> nat \<Rightarrow> nat \<Rightarrow> u8 \<Rightarrow> bytes" where
  "build_ack_frame ranges largest_arrival now ack_delay_exponent =
     (if ar_is_empty ranges then []
      else 0x02 # build_ack_payload ranges largest_arrival now ack_delay_exponent)"

fun parse_ack_loop :: "nat \<Rightarrow> bytes \<Rightarrow> nat \<Rightarrow> u64 \<Rightarrow> ack_ranges \<Rightarrow> tls_error + ack_ranges" where
  "parse_ack_loop 0 body p smallest ranges = Inr ranges"
| "parse_ack_loop (Suc k) body p smallest ranges =
     and_then (read_varint body p) (\<lambda>(gap_wire, p).
     and_then (read_varint body p) (\<lambda>(len_wire, p).
     and_then (next_block smallest gap_wire len_wire) (\<lambda>r.
       parse_ack_loop k body p (fst r) (ranges @ [r]))))"

definition parse_ack_payload :: "bytes \<Rightarrow> tls_error + ack_ranges \<times> u64" where
  "parse_ack_payload body =
     and_then (read_varint body 0) (\<lambda>(largest, p).
     and_then (read_varint body p) (\<lambda>(ack_delay_raw, p).
     and_then (read_varint body p) (\<lambda>(range_count, p).
     and_then (read_varint body p) (\<lambda>(first_range, p).
       if largest < first_range then Inl DecodeErr
       else and_then (parse_ack_loop (unat range_count) body p (largest - first_range)
                       [(largest - first_range, largest)]) (\<lambda>ranges. Inr (ranges, ack_delay_raw))))))"

section \<open>Building and reading agree\<close>

text \<open>Stored ranges whose packet numbers fit in a varint.\<close>

definition ack_wf :: "ack_ranges \<Rightarrow> bool" where
  "ack_wf rs \<longleftrightarrow> ar_inv rs \<and> (\<forall>r \<in> set rs. vi (snd r))"

lemma ack_wf_Cons: "ack_wf (r # rs) \<Longrightarrow> ack_wf rs"
  by (simp add: ack_wf_def ar_inv_Cons)

lemma next_block_pair:
  assumes "ack_wf (r # q # rs)"
  shows "next_block (fst r) (fst r - snd q - 2) (snd q - fst q) = Inr q"
    and "vi (fst r - snd q - 2)" and "vi (snd q - fst q)"
    and "\<not> fst r < snd q" and "\<not> fst r - snd q < 2"
proof -
  have le: "fst r \<le> snd r" "fst q \<le> snd q" and gap: "unat (snd q) + 1 < unat (fst r)"
    and vi: "unat (snd r) < 2 ^ 62"
    using assms by (simp_all add: ack_wf_def ar_inv_Cons range_above_def vi_def word_le_nat_alt)
  have d: "unat (fst r - snd q) = unat (fst r) - unat (snd q)" using gap by (simp add: unat_sub word_le_nat_alt)
  then show "\<not> fst r < snd q" "\<not> fst r - snd q < 2" using gap by (auto simp: word_less_nat_alt)
  have g: "unat (fst r - snd q - 2) = unat (fst r) - unat (snd q) - 2"
    using d gap by (subst unat_sub) (simp_all add: word_le_nat_alt)
  have l: "unat (snd q - fst q) = unat (snd q) - unat (fst q)" using le by (simp add: unat_sub word_le_nat_alt)
  show "vi (fst r - snd q - 2)" "vi (snd q - fst q)"
    using g l le gap vi by (simp_all add: vi_def word_le_nat_alt)
  have g2: "unat (fst r - snd q - 2 + 2) = unat (fst r) - unat (snd q)" by (simp add: d)
  have "fst r - (fst r - snd q - 2 + 2) = snd q" by simp
  moreover have "snd q - (snd q - fst q) = fst q" by simp
  moreover have "\<not> fst r < fst r - snd q - 2 + 2" unfolding word_less_nat_alt g2 by simp
  moreover have "\<not> snd q < snd q - fst q" unfolding word_less_nat_alt l by simp
  moreover have "\<not> 2 ^ 64 \<le> unat (fst r - snd q - 2) + 2" using g vi le by (simp add: word_le_nat_alt)
  ultimately show "next_block (fst r) (fst r - snd q - 2) (snd q - fst q) = Inr q"
    unfolding next_block_def Let_def by (simp only: if_False prod.collapse)
qed

lemma iter_next_pair:
  "vi a \<Longrightarrow> vi b \<Longrightarrow> ack_range_iter_next (varint_encode a @ varint_encode b @ rest) = (Some (Inr (a, b)), rest)"
  by (simp add: ack_range_iter_next_def vi_def)

lemma acked_loop_pairs:
  "ack_wf (r # rs) \<Longrightarrow> acked_loop (fst r) (ack_pairs_raw (r # rs)) acc = Inr (acc @ rs)"
proof (induction rs arbitrary: r acc)
  case Nil
  then show ?case by (simp add: acked_loop.simps ack_range_iter_next_def)
next
  case (Cons q rs)
  note n = next_block_pair [OF Cons.prems]
  show ?case
    using Cons.IH [OF ack_wf_Cons [OF Cons.prems]] n(1)
    by (subst acked_loop.simps) (simp add: iter_next_pair n(2,3))
qed

lemma ack_trailing_eq: "ack_wf rs \<Longrightarrow> ack_trailing rs = (word_of_nat (length rs - 1), ack_pairs_raw rs)"
proof (induction rs rule: ack_trailing.induct)
  case (1 prev cur rs)
  then show ?case
    using next_block_pair(4,5) [OF "1.prems"] ack_wf_Cons [OF "1.prems"] by (simp add: not_less)
qed simp_all

lemma drop_plus: "drop (p + n) xs = drop n (drop p xs)"
  by (simp add: add.commute)

lemma parse_ack_loop_pairs:
  "ack_wf (r # rs) \<Longrightarrow> drop p body = ack_pairs_raw (r # rs) \<Longrightarrow>
   parse_ack_loop (length rs) body p (fst r) acc = Inr (acc @ rs)"
proof (induction rs arbitrary: r acc p)
  case (Cons q rs)
  note n = next_block_pair [OF Cons.prems(1)]
  let ?a = "varint_encode (fst r - snd q - 2)" and ?b = "varint_encode (snd q - fst q)"
  have d: "drop p body = ?a @ ?b @ ack_pairs_raw (q # rs)" using Cons.prems(2) by simp
  then have "drop (p + length ?a) body = ?b @ ack_pairs_raw (q # rs)"
    "drop (p + length ?a + length ?b) body = ack_pairs_raw (q # rs)"
    unfolding drop_plus by simp_all
  then show ?case
    using Cons.IH [OF ack_wf_Cons [OF Cons.prems(1)]] n(1-3) d by (simp add: read_varint_encode)
qed simp

lemma count_pairs_raw:
  "ack_wf rs \<Longrightarrow> count_pairs (ack_pairs_raw rs) c = Some (c + word_of_nat (length rs - 1))"
proof (induction rs arbitrary: c rule: ack_pairs_raw.induct)
  case (1 prev cur rs)
  then show ?case
    using next_block_pair(2,3) [OF "1.prems"] ack_wf_Cons [OF "1.prems"]
    by (subst count_pairs.simps) (simp add: vi_def add.assoc)
qed (simp_all add: count_pairs.simps)

text \<open>Inserting the packet numbers of a range below all stored ranges appends that range.\<close>

lemma insert_idx_all: "\<forall>r \<in> set rs. pn < fst r \<Longrightarrow> insert_idx pn (rs @ qs) = length rs + insert_idx pn qs"
  by (induction rs) (auto simp: not_le [symmetric])

lemma insert_below:
  assumes "\<forall>r \<in> set rs. unat pn + 1 < unat (fst r)" "length rs < MAX_ACK_RANGES"
  shows "ar_insert pn rs = rs @ [(pn, pn)]"
    and "lo < pn \<Longrightarrow> ar_insert pn (rs @ [(lo, pn - 1)]) = rs @ [(lo, pn)]"
proof -
  have a: "\<forall>r \<in> set rs. pn < fst r" using assms(1) by (auto simp: word_less_nat_alt)
  have n: "pn \<notin> ar_set rs" using a by (auto simp: ar_set_def not_le)
  have g: "rs = [] \<or> fst (last rs) \<noteq> pn + 1"
    using assms(1) unat_Suc_word [of pn "fst (last rs)"] a by (cases rs rule: rev_cases) auto
  show "ar_insert pn rs = rs @ [(pn, pn)]"
    using ar_insert_cases(4) [of pn rs "[]"] insert_idx_all [OF a, of "[]"] n g assms(2) by simp
  show "ar_insert pn (rs @ [(lo, pn - 1)]) = rs @ [(lo, pn)]" if "lo < pn"
  proof -
    have "pn \<noteq> 0" using that by auto
    then have "\<not> pn \<le> pn - 1" using unat_minus_one [of pn] by (simp add: word_le_nat_alt unat_gt_0 [symmetric] unat_eq_zero)
    then have n': "pn \<notin> ar_set (rs @ [(lo, pn - 1)])" using n by simp
    have "insert_idx pn (rs @ [(lo, pn - 1)]) = length rs" using insert_idx_all [OF a] that by simp
    then show ?thesis using ar_insert_cases(3) [of pn rs "[(lo, pn - 1)]" lo "[]"] n' g by simp
  qed
qed

lemma insert_range_below:
  assumes "\<forall>r \<in> set rs. unat hi + 1 < unat (fst r)" "length rs < MAX_ACK_RANGES" "lo \<le> hi"
  shows "insert_range (lo, hi) rs = rs @ [(lo, hi)]"
proof -
  have "fold ar_insert (map word_of_nat [unat lo..<Suc h]) rs = rs @ [(lo, word_of_nat h)]"
    if "unat lo \<le> h" "h \<le> unat hi" for h
    using that
  proof (induction h rule: dec_induct)
    case base
    then show ?case using insert_below(1) [of rs lo] assms by (fastforce simp: word_le_nat_alt)
  next
    case (step h)
    have h: "unat (word_of_nat (Suc h) :: u64) = Suc h"
      using step unat_lt [of hi] by (simp add: unat_of_nat del: of_nat_Suc)
    have "ar_insert (word_of_nat (Suc h)) (rs @ [(lo, word_of_nat (Suc h) - 1)]) = rs @ [(lo, word_of_nat (Suc h))]"
      by (rule insert_below(2)) (use assms step h in \<open>auto simp: word_less_nat_alt simp del: of_nat_Suc\<close>)
    then show ?case using step by simp
  qed
  from this [of "unat hi"] show ?thesis using assms(3) by (simp add: insert_range_def word_le_nat_alt del: upt_Suc)
qed

lemma parse_loop_pairs:
  "ack_wf (pre @ r # rs) \<Longrightarrow> parse_loop (fst r) (ack_pairs_raw (r # rs)) (pre @ [r]) = Inr (pre @ r # rs)"
proof (induction rs arbitrary: pre r)
  case Nil
  then show ?case by (simp add: parse_loop.simps ack_range_iter_next_def)
next
  case (Cons q rs)
  have w: "ack_wf (r # q # rs)" using Cons.prems by (simp add: ack_wf_def ar_inv_append)
  note n = next_block_pair [OF w]
  have "insert_range (fst q, snd q) (pre @ [r]) = (pre @ [r]) @ [(fst q, snd q)]"
    using Cons.prems by (intro insert_range_below) (auto simp: ack_wf_def ar_inv_append ar_inv_Cons range_above_def)
  then show ?case
    using Cons.IH [of "pre @ [r]" q] Cons.prems n(1) by (subst parse_loop.simps) (simp add: iter_next_pair n(2,3))
qed

section \<open>Reading arbitrary input\<close>

lemma next_block_ok:
  assumes "next_block s gap len = Inr q"
  shows "fst q \<le> snd q" "unat (snd q) + 1 < unat s"
proof -
  have g: "unat gap + 2 < 2 ^ 64" "gap + 2 \<le> s" and q: "q = (s - (gap + 2) - len, s - (gap + 2))" "len \<le> s - (gap + 2)"
    using assms by (auto simp: next_block_def Let_def not_less not_le split: if_splits)
  have "unat (gap + 2) = unat gap + 2" using g(1) by (simp add: unat_word_ariths)
  then show "unat (snd q) + 1 < unat s" using q(1) g(2) by (simp add: unat_sub word_le_nat_alt)
  show "fst q \<le> snd q" using q by (simp add: word_le_nat_alt unat_sub)
qed

text \<open>The ranges read so far, in descending order and separated, down to the current block.\<close>

definition descending_to :: "u64 \<Rightarrow> ack_ranges \<Rightarrow> bool" where
  "descending_to s rs \<longleftrightarrow> rs \<noteq> [] \<and> fst (last rs) = s \<and> (\<forall>r \<in> set rs. fst r \<le> snd r) \<and> sorted_wrt range_above rs"

lemma descending_snoc:
  assumes "descending_to s rs" "next_block s gap len = Inr q"
  shows "descending_to (fst q) (rs @ [q])"
proof -
  obtain qs r where rs: "rs = qs @ [r]" "fst r = s" using assms(1) by (cases rs rule: rev_cases) (auto simp: descending_to_def)
  have "range_above p q" if "p \<in> set rs" for p
    using that assms(1) next_block_ok [OF assms(2)] unfolding rs descending_to_def
    by (auto simp: sorted_wrt_append range_above_def word_le_nat_alt)
  then show ?thesis using assms next_block_ok [OF assms(2)] by (auto simp: descending_to_def sorted_wrt_append)
qed

lemma acked_loop_descending:
  "acked_loop s buf rs = Inr rs' \<Longrightarrow> descending_to s rs \<Longrightarrow> \<exists>s'. descending_to s' rs' \<and> hd rs' = hd rs"
proof (induction buf arbitrary: s rs rule: length_induct)
  case (1 buf)
  show ?case
  proof (cases "ack_range_iter_next buf")
    case (Pair item buf')
    consider "item = None" | e where "item = Some (Inl e)" | g l where "item = Some (Inr (g, l))"
      by (metis option.exhaust sum.exhaust surj_pair)
    then show ?thesis
    proof cases
      case 1
      then show ?thesis using "1.prems" Pair by (auto simp: acked_loop.simps)
    next
      case 2
      then show ?thesis using "1.prems" Pair by (subst (asm) acked_loop.simps) simp
    next
      case 3
      then obtain q where q: "next_block s g l = Inr q" "acked_loop (fst q) buf' (rs @ [q]) = Inr rs'"
        using "1.prems"(1) Pair by (subst (asm) acked_loop.simps) (auto simp: and_then_Inr_iff)
      have "length buf' < length buf" using iter_next_shorter Pair 3 by blast
      then have "\<exists>s'. descending_to s' rs' \<and> hd rs' = hd (rs @ [q])"
        using "1.IH" q(2) descending_snoc [OF "1.prems"(2) q(1)] by blast
      then show ?thesis using "1.prems"(2) by (simp add: descending_to_def)
    qed
  qed
qed

section \<open>Composition with the frame codec\<close>

lemma length_varint_encode_le: "length (varint_encode v) \<le> 8"
  using length_varint_encode [of "min v varint_MAX"] varint_encode_min [of v] by (simp add: encoded_len_def split: if_splits)

lemma length_ack_pairs_raw: "length (ack_pairs_raw rs) \<le> 16 * length rs"
proof (induction rs rule: ack_pairs_raw.induct)
  case (1 prev cur rs)
  then show ?case
    using length_varint_encode_le [of "fst prev - snd cur - 2"] length_varint_encode_le [of "snd cur - fst cur"] by simp
qed simp_all

lemma ack_head:
  assumes "ack_wf (r # rs)"
  shows "vi (snd r)" "vi (snd r - fst r)" "\<not> snd r < snd r - fst r" "snd r - (snd r - fst r) = fst r"
    "data_ok (ack_pairs_raw (r # rs))" "length rs < MAX_ACK_RANGES"
proof -
  have le: "fst r \<le> snd r" and v: "vi (snd r)" and l: "length rs < MAX_ACK_RANGES"
    using assms by (simp_all add: ack_wf_def ar_inv_Cons)
  have d: "unat (snd r - fst r) = unat (snd r) - unat (fst r)" using le by (simp add: unat_sub word_le_nat_alt)
  show "vi (snd r)" "length rs < MAX_ACK_RANGES" by (fact v, fact l)
  show "vi (snd r - fst r)" using v d by (simp add: vi_def word_le_nat_alt)
  show "\<not> snd r < snd r - fst r" unfolding word_less_nat_alt d by simp
  show "snd r - (snd r - fst r) = fst r" by simp
  show "data_ok (ack_pairs_raw (r # rs))"
    using length_ack_pairs_raw [of "r # rs"] l by (simp add: data_ok_def MAX_ACK_RANGES_def)
qed

text \<open>
  C7.  Acknowledgements survive transmission: the ranges a receiver has stored are turned into an ACK frame,
  the frame round trips through the wire format, and the peer reconstructs exactly these ranges, in the
  frame handler's reader as in \<open>parse_ack_ranges\<close>.
\<close>

theorem ack_transmission:
  assumes "ack_wf rs" "rs \<noteq> []" "vi delay"
  shows "\<exists>largest first raw bs. build_ack_ranges_raw rs = Some (largest, first, raw)
    \<and> frame_encode (Ack largest delay raw first None) = Some bs
    \<and> frame_decode (bs @ rest) = Inr (Ack largest delay raw first None, length bs)
    \<and> acked_ranges largest first raw = Inr rs \<and> parse_ack_ranges largest first raw = Inr rs"
proof -
  obtain r qs where rs: "rs = r # qs" using assms(2) by (cases rs) auto
  note h = ack_head [OF assms(1) [unfolded rs]]
  have "frame_wf (Ack (snd r) delay (ack_pairs_raw rs) (snd r - fst r) None)"
    using h assms count_pairs_raw [OF assms(1)] by (simp add: rs)
  then obtain bs where "frame_encode (Ack (snd r) delay (ack_pairs_raw rs) (snd r - fst r) None) = Some bs"
      "frame_decode (bs @ rest) = Inr (Ack (snd r) delay (ack_pairs_raw rs) (snd r - fst r) None, length bs)"
    using frame_roundtrips [of "Ack (snd r) delay (ack_pairs_raw rs) (snd r - fst r) None" rest]
    by (auto simp: roundtrips_def not_padding_def)
  moreover have "acked_ranges (snd r) (snd r - fst r) (ack_pairs_raw rs) = Inr rs"
    using acked_loop_pairs [OF assms(1) [unfolded rs]] h(3,4) by (simp add: acked_ranges_def rs)
  moreover have "insert_range (fst r, snd r) ar_new = [r]"
    using insert_range_below [of "[]" "snd r" "fst r"] assms(1)
    by (simp add: rs ar_new_def MAX_ACK_RANGES_def ack_wf_def ar_inv_Cons)
  then have "parse_ack_ranges (snd r) (snd r - fst r) (ack_pairs_raw rs) = Inr rs"
    using parse_loop_pairs [of "[]" r qs] assms(1) h(3,4) by (simp add: parse_ack_ranges_def rs)
  moreover have "build_ack_ranges_raw rs = Some (snd r, snd r - fst r, ack_pairs_raw rs)"
    by (simp add: build_ack_ranges_raw_def rs Let_def)
  ultimately show ?thesis by blast
qed

theorem ack_transmission_witness:
  "\<exists>largest first raw bs. build_ack_ranges_raw [(9, 12), (3, 6)] = Some (largest, first, raw)
    \<and> frame_encode (Ack largest 25 raw first None) = Some bs
    \<and> frame_decode (bs @ [1]) = Inr (Ack largest 25 raw first None, length bs)
    \<and> acked_ranges largest first raw = Inr [(9, 12), (3, 6)] \<and> parse_ack_ranges largest first raw = Inr [(9, 12), (3, 6)]"
  by (rule ack_transmission)
    (simp_all add: ack_wf_def ar_inv_def range_above_def MAX_ACK_RANGES_def vi_def varint_MAX_def push_bit_of_1)

text \<open>
  C30.  The stand-alone acknowledgement codec agrees with the frame codec: the frame it builds is the encoding
  of the ACK frame with the builder's range list and the scaled delay, and its parser returns the stored
  ranges with that delay.
\<close>

theorem ack_codecs_agree:
  assumes "ack_wf rs" "build_ack_ranges_raw rs = Some (largest, first, raw)"
  shows "frame_encode (Ack largest (ack_delay_scaled arrival now e) raw first None) = Some (build_ack_frame rs arrival now e)
    \<and> parse_ack_payload (build_ack_payload rs arrival now e) = Inr (rs, min (ack_delay_scaled arrival now e) varint_MAX)"
proof -
  obtain r qs where rs: "rs = r # qs" and v: "largest = snd r" "first = snd r - fst r" "raw = ack_pairs_raw rs"
    using assms(2) by (cases rs) (auto simp: build_ack_ranges_raw_def)
  note h = ack_head [OF assms(1) [unfolded rs]]
  let ?d = "ack_delay_scaled arrival now e" and ?c = "word_of_nat (length qs) :: u64"
  have c: "unat ?c = length qs" "vi ?c"
    using h(6) by (simp_all add: unat_of_nat MAX_ACK_RANGES_def vi_def word_le_nat_alt)
  have t: "ack_trailing rs = (?c, raw)" using ack_trailing_eq [OF assms(1)] by (simp add: rs v)
  let ?M = "min ?d varint_MAX"
  have p: "build_ack_payload rs arrival now e = varint_encode largest @ varint_encode ?M @ varint_encode ?c @ varint_encode first @ raw"
    using t varint_encode_min [of ?d] by (simp add: build_ack_payload_def rs v Let_def)
  have d: "vi ?M" by (simp add: vi_def)
  have "parse_ack_loop (length qs) (build_ack_payload rs arrival now e)
      (length (varint_encode largest @ varint_encode ?M @ varint_encode ?c @ varint_encode first)) (fst r) [r] = Inr rs"
    using parse_ack_loop_pairs [OF assms(1) [unfolded rs], of _ "build_ack_payload rs arrival now e" "[r]"] unfolding p
    by (simp add: v rs)
  then have "parse_ack_payload (build_ack_payload rs arrival now e) = Inr (rs, ?M)"
    unfolding parse_ack_payload_def p using d c h
    by (simp add: read_varint_def vi_def v add.assoc)
  moreover have "frame_encode (Ack largest ?d raw first None) = Some (build_ack_frame rs arrival now e)"
    using count_pairs_raw [OF assms(1), of 0] p varint_encode_min [of ?d]
    by (simp add: build_ack_frame_def ar_is_empty_def rs v encode_ecn_def)
  ultimately show ?thesis by blast
qed

theorem ack_codecs_agree_witness:
  "frame_encode (Ack 12 (ack_delay_scaled 1000 9001000 3) (ack_pairs_raw [(9, 12), (3, 6)]) 3 None)
      = Some (build_ack_frame [(9, 12), (3, 6)] 1000 9001000 3)
    \<and> parse_ack_payload (build_ack_payload [(9, 12), (3, 6)] 1000 9001000 3)
      = Inr ([(9, 12), (3, 6)], min (ack_delay_scaled 1000 9001000 3) varint_MAX)"
  by (rule ack_codecs_agree)
    (simp_all add: ack_wf_def ar_inv_def range_above_def MAX_ACK_RANGES_def vi_def varint_MAX_def push_bit_of_1
      build_ack_ranges_raw_def del: ack_pairs_raw.simps)

text \<open>
  C31.  Acknowledgements from a hostile peer: whatever the bytes, if the frame handler accepts them the ranges are
  non-empty, strictly descending and separated, and none of them reaches above the largest
  acknowledged number, so no subtraction on the way wrapped.
\<close>

theorem acked_ranges_safe:
  assumes "acked_ranges largest first raw = Inr rs"
  shows "rs \<noteq> [] \<and> hd rs = (largest - first, largest) \<and> first \<le> largest
    \<and> (\<forall>r \<in> set rs. fst r \<le> snd r \<and> snd r \<le> largest) \<and> sorted_wrt range_above rs"
proof -
  have f: "first \<le> largest" and l: "acked_loop (largest - first) raw [(largest - first, largest)] = Inr rs"
    using assms by (auto simp: acked_ranges_def split: if_splits)
  have "descending_to (largest - first) [(largest - first, largest)]"
    using f by (simp add: descending_to_def word_le_nat_alt unat_sub)
  then obtain s where d: "descending_to s rs" and h: "hd rs = (largest - first, largest)"
    using acked_loop_descending [OF l] by auto
  have "snd r \<le> largest" if "r \<in> set rs" for r
  proof (cases rs)
    case (Cons q qs)
    then have "r = q \<or> range_above q r" "fst q \<le> snd q" "q = (largest - first, largest)"
      using that d h by (auto simp: descending_to_def)
    then show ?thesis by (auto simp: range_above_def word_le_nat_alt)
  qed (use that in simp)
  then show ?thesis using d h f by (auto simp: descending_to_def)
qed

theorem acked_ranges_safe_witness:
  "acked_ranges 10 2 [0, 1, 0x40, 0x01, 0] = Inr [(8, 10), (5, 6), (2, 2)]
    \<and> acked_ranges 10 2 [0, 7] = Inl DecodeErr
    \<and> sorted_wrt range_above [(8 :: u64, 10), (5, 6), (2, 2)]
    \<and> list_all (\<lambda>r. fst r \<le> snd r \<and> snd r \<le> 10) [(8 :: u64, 10), (5, 6), (2, 2)]"
proof -
  note run_simps = acked_ranges_def acked_loop.simps ack_range_iter_next_def varint_decode_def next_block_def Let_def
  have run: "acked_ranges 10 2 [0, 1, 0x40, 0x01, 0] = Inr [(8, 10), (5, 6), (2, 2)]"
    by (simp add: run_simps)
  have "acked_ranges 10 2 [0, 7] = Inl DecodeErr"
    by (simp add: run_simps)
  then show ?thesis
    using run acked_ranges_safe [OF run] unfolding list_all_iff by blast
qed

end
