(* ===== verification/Replay.thy ===== *)
theory Replay
  imports Prelude
begin

text \<open>
  The DTLS anti-replay window (\<open>dtls/replay.rs\<close>) and the choice of the read epoch for an incoming record
  (\<open>dtls/epoch13.rs\<close>).
\<close>

section \<open>The sliding window\<close>

definition WINDOW_BITS :: u64 where
  "WINDOW_BITS = 64"

record anti_replay_window =
  highest :: u64
  bitmap :: u64
  seeded :: bool

definition ar_window_new :: anti_replay_window where
  "ar_window_new = \<lparr>highest = 0, bitmap = 0, seeded = False\<rparr>"

definition replay_check :: "anti_replay_window \<Rightarrow> u64 \<Rightarrow> bool" where
  "replay_check w seq =
     (if \<not> seeded w then True
      else if highest w < seq then True
      else
        let delta = highest w - seq in
        if WINDOW_BITS \<le> delta then False
        else
          let b = push_bit (unat delta) 1 in
          bitmap w AND b = 0)"

definition replay_mark :: "anti_replay_window \<Rightarrow> u64 \<Rightarrow> anti_replay_window" where
  "replay_mark w seq =
     (if \<not> seeded w then w\<lparr>highest := seq, bitmap := 1, seeded := True\<rparr>
      else if highest w < seq then
        let delta = seq - highest w in
        w\<lparr>bitmap := (if WINDOW_BITS \<le> delta then 1 else push_bit (unat delta) (bitmap w) OR 1), highest := seq\<rparr>
      else
        let delta = highest w - seq in
        if WINDOW_BITS \<le> delta then w
        else
          let b = push_bit (unat delta) 1 in
          w\<lparr>bitmap := bitmap w OR b\<rparr>)"

definition replay_accept :: "anti_replay_window \<Rightarrow> u64 \<Rightarrow> bool \<times> anti_replay_window" where
  "replay_accept w seq = (if \<not> replay_check w seq then (False, w) else (True, replay_mark w seq))"

text \<open>
  The window stands for the set of the sequence numbers it has been told about: bit \<open>d\<close> of the bitmap says whether
  the number \<open>d\<close> below the highest one is among them.
\<close>

definition window_rel :: "u64 set \<Rightarrow> anti_replay_window \<Rightarrow> bool" where
  "window_rel S w \<longleftrightarrow>
     (if seeded w
      then highest w \<in> S \<and> (\<forall>s \<in> S. s \<le> highest w)
        \<and> (\<forall>s. s \<le> highest w \<longrightarrow> unat (highest w) - unat s < 64 \<longrightarrow>
             bit (bitmap w) (unat (highest w) - unat s) = (s \<in> S))
        \<and> (\<forall>d. unat (highest w) < d \<longrightarrow> \<not> bit (bitmap w) d)
      else S = {})"

lemma window_new: "window_rel {} ar_window_new"
  by (simp add: window_rel_def ar_window_new_def)

lemma window_check:
  assumes "window_rel S w"
  shows "replay_check w s \<longleftrightarrow> s \<notin> S \<and> (\<forall>h \<in> S. unat h < unat s + 64)"
proof (cases "seeded w \<and> s \<le> highest w")
  case True
  have d: "unat (highest w - s) = unat (highest w) - unat s" using True by (simp add: unat_sub word_le_nat_alt)
  have old: "WINDOW_BITS \<le> highest w - s \<longleftrightarrow> unat s + 64 \<le> unat (highest w)"
    using True unfolding word_le_nat_alt d by (simp add: WINDOW_BITS_def) linarith
  have h: "highest w \<in> S" "\<forall>s \<in> S. s \<le> highest w"
    and b: "\<And>s. s \<le> highest w \<Longrightarrow> unat (highest w) - unat s < 64 \<Longrightarrow> bit (bitmap w) (unat (highest w) - unat s) = (s \<in> S)"
    using assms True by (simp_all add: window_rel_def)
  have "(\<forall>h \<in> S. unat h < unat s + 64) \<longleftrightarrow> unat (highest w) < unat s + 64"
    using h by (auto simp: word_le_nat_alt)
  moreover have "\<not> highest w < s" "seeded w" using True by (simp_all add: not_less)
  ultimately show ?thesis
    using True b [of s] old by (auto simp: replay_check_def Let_def d push_bit_of_1 and_exp_eq_0_iff_not_bit)
next
  case False
  have "\<forall>h \<in> S. unat h < unat s" using False assms by (fastforce simp: window_rel_def word_le_nat_alt split: if_splits)
  moreover have "replay_check w s" using False by (auto simp: replay_check_def not_le)
  ultimately show ?thesis by fastforce
qed

lemma window_mark_new:
  assumes "window_rel S w" "seeded w" "highest w < s"
  shows "window_rel (insert s S) (replay_mark w s)"
proof -
  let ?h = "unat (highest w)" and ?d = "unat (s - highest w)"
  have h: "highest w \<in> S" "\<And>t. t \<in> S \<Longrightarrow> t \<le> highest w"
    and b: "\<And>t. t \<le> highest w \<Longrightarrow> ?h - unat t < 64 \<Longrightarrow> bit (bitmap w) (?h - unat t) = (t \<in> S)"
    and z: "\<And>d. ?h < d \<Longrightarrow> \<not> bit (bitmap w) d"
    using assms by (simp_all add: window_rel_def)
  have d: "?d = unat s - ?h" "0 < ?d" "?d \<le> unat s" using assms(3) by (simp_all add: unat_sub word_less_nat_alt word_le_nat_alt)
  have old: "WINDOW_BITS \<le> s - highest w \<longleftrightarrow> 64 \<le> ?d" by (simp add: word_le_nat_alt WINDOW_BITS_def)
  define bm where "bm = (if WINDOW_BITS \<le> s - highest w then 1 else push_bit ?d (bitmap w) OR 1)"
  have bm: "bit bm k \<longleftrightarrow> k = 0 \<or> (?d \<le> k \<and> k < 64 \<and> bit (bitmap w) (k - ?d))" if "k < 64" for k
    using that old by (auto simp: bm_def bit_simps)
  have "bit bm (unat s - unat t) \<longleftrightarrow> t = s \<or> t \<in> S" if t: "t \<le> s" "unat s - unat t < 64" for t
  proof (cases "t \<le> highest w")
    case True
    then have "?d \<le> unat s - unat t" "unat s - unat t - ?d = ?h - unat t" "t \<noteq> s"
      using d assms(3) by (auto simp: word_le_nat_alt word_less_nat_alt)
    then show ?thesis using bm [OF t(2)] b [OF True] t(2) d(2) by auto
  next
    case False
    then have "t \<notin> S" using h(2) by blast
    moreover have "unat s - unat t < ?d" using False d by (simp add: word_le_nat_alt)
    ultimately show ?thesis using bm [OF t(2)] t(1) by (auto simp: word_le_nat_alt word_unat_eq_iff)
  qed
  moreover have "\<not> bit bm k" if "unat s < k" for k
  proof (cases "k < 64")
    case True
    then show ?thesis using bm [OF True] z [of "k - ?d"] that d by auto
  next
    case False
    then show ?thesis using bit_imp_le_length [of bm k] by auto
  qed
  moreover have "replay_mark w s = w\<lparr>bitmap := bm, highest := s\<rparr>"
    using assms(2,3) by (simp add: replay_mark_def bm_def Let_def)
  moreover have "t \<le> s" if "t \<in> S" for t using h(2) [OF that] assms(3) by simp
  ultimately show ?thesis using assms(2) by (simp add: window_rel_def)
qed

lemma window_mark_old:
  assumes "window_rel S w" "seeded w" "s \<le> highest w"
  shows "window_rel (insert s S) (replay_mark w s)"
proof -
  let ?h = "unat (highest w)"
  have d: "unat (highest w - s) = ?h - unat s" using assms(3) by (simp add: unat_sub word_le_nat_alt)
  have old: "WINDOW_BITS \<le> highest w - s \<longleftrightarrow> 64 \<le> ?h - unat s" by (simp add: word_le_nat_alt WINDOW_BITS_def d)
  have eq: "?h - unat t = ?h - unat s \<longleftrightarrow> t = s" if "t \<le> highest w" for t
    using that assms(3) by (auto simp: word_le_nat_alt word_unat_eq_iff)
  have "replay_mark w s = (if 64 \<le> ?h - unat s then w else w\<lparr>bitmap := bitmap w OR push_bit (?h - unat s) 1\<rparr>)"
    using assms(2,3) by (simp add: replay_mark_def Let_def old d)
  moreover have "bit (bitmap w OR push_bit (?h - unat s) 1) k \<longleftrightarrow> bit (bitmap w) k \<or> k = ?h - unat s" if "k < 64" for k
    using that by (auto simp: bit_simps)
  moreover have "\<not> bit (bitmap w OR push_bit (?h - unat s) 1) k" if "?h < k" for k
    using that assms(1,2) by (auto simp: window_rel_def bit_simps)
  moreover have "t \<noteq> s" if "t \<le> highest w" "?h - unat t < 64" "64 \<le> ?h - unat s" for t using that by auto
  ultimately show ?thesis using assms eq by (auto simp: window_rel_def push_bit_of_1 simp del: bit_or_iff)
qed

lemma window_mark:
  assumes "window_rel S w"
  shows "window_rel (insert s S) (replay_mark w s)"
proof (cases "seeded w")
  case True
  then show ?thesis using assms window_mark_new window_mark_old by (metis not_le)
next
  case False
  have "bit (1 :: u64) (unat s - unat t) \<longleftrightarrow> t = s" if "t \<le> s" for t
    using that by (auto simp: bit_1_iff word_le_nat_alt word_unat_eq_iff)
  then show ?thesis using assms False by (simp add: window_rel_def replay_mark_def bit_1_iff)
qed

section \<open>Records of one epoch\<close>

text \<open>
  The records a receiver accepts: each one passes the check, is authenticated, and is then marked.  \<open>received tr w\<close>
  says that the window \<open>w\<close> is reached after accepting the numbers \<open>tr\<close>, latest first.
\<close>

inductive received :: "u64 list \<Rightarrow> anti_replay_window \<Rightarrow> bool" where
  start: "received [] ar_window_new"
| accepted: "received tr w \<Longrightarrow> replay_check w seq \<Longrightarrow> received (seq # tr) (replay_mark w seq)"

inductive_cases received_ConsE: "received (seq # tr) w"

lemma received_window: "received tr w \<Longrightarrow> window_rel (set tr) w"
  by (induction rule: received.induct) (simp_all add: window_new window_mark)

lemma received_distinct: "received tr w \<Longrightarrow> distinct tr"
  by (induction rule: received.induct) (simp_all add: window_check [OF received_window])

text \<open>A run of \<open>replay_accept\<close> over any arrivals is such a history of accepted numbers.\<close>

fun accept_all :: "anti_replay_window \<Rightarrow> u64 list \<Rightarrow> u64 list \<Rightarrow> u64 list \<times> anti_replay_window" where
  "accept_all w acc [] = (acc, w)"
| "accept_all w acc (s # ss) =
     (case replay_accept w s of (ok, w') \<Rightarrow> accept_all w' (if ok then s # acc else acc) ss)"

lemma accept_all_received:
  "received acc w \<Longrightarrow> accept_all w acc ss = (acc', w') \<Longrightarrow> received acc' w' \<and> set acc \<subseteq> set acc'"
proof (induction ss arbitrary: w acc)
  case (Cons s ss)
  show ?case
  proof (cases "replay_check w s")
    case True
    then have "received acc' w' \<and> set (s # acc) \<subseteq> set acc'"
      using Cons.prems by (intro Cons.IH [of "s # acc" "replay_mark w s"]) (simp_all add: replay_accept_def received.accepted)
    then show ?thesis by simp
  next
    case False
    then show ?thesis using Cons.prems by (intro Cons.IH [of acc w]) (simp_all add: replay_accept_def)
  qed
qed simp

text \<open>
  C8.  Replay protection: over any history of accepted records no sequence number is accepted twice, and the
  check accepts exactly the numbers that were not accepted before and lie fewer than 64 below the highest one.
\<close>

theorem replay_window_correct:
  assumes "received tr w"
  shows "distinct tr \<and> (replay_check w s \<longleftrightarrow> s \<notin> set tr \<and> (\<forall>h \<in> set tr. unat h < unat s + 64))"
  using received_distinct [OF assms] window_check [OF received_window [OF assms]] by blast

theorem replay_window_correct_witness:
  "distinct [7, 5 :: u64] \<and> replay_check (replay_mark (replay_mark ar_window_new 5) 7) 6
    \<and> \<not> replay_check (replay_mark (replay_mark ar_window_new 5) 7) 5"
proof -
  have "received [7, 5] (replay_mark (replay_mark ar_window_new 5) 7)"
    by (intro received.intros; simp add: replay_check_def replay_mark_def ar_window_new_def)
  from replay_window_correct [OF this, of 6] replay_window_correct [OF this, of 5] show ?thesis by simp
qed

text \<open>
  Arrival order does not matter for safety: running the window over any sequence of arrivals, repeated
  ones included, leaves a duplicate-free list of accepted numbers in the state the window stands for.
\<close>

theorem accept_all_distinct:
  "case accept_all ar_window_new [] ss of (acc, w) \<Rightarrow> distinct acc \<and> window_rel (set acc) w \<and> set acc \<subseteq> set ss"
proof -
  have sub: "set (fst (accept_all w acc ss)) \<subseteq> set acc \<union> set ss" for w acc
  proof (induction ss arbitrary: w acc)
    case (Cons s ss)
    then show ?case using Cons.IH [of "replay_mark w s" "s # acc"] Cons.IH [of w acc] by (auto simp: replay_accept_def)
  qed simp
  obtain acc w where a: "accept_all ar_window_new [] ss = (acc, w)" by fastforce
  have "received acc w" using accept_all_received [OF received.start a] by simp
  then show ?thesis using a sub [of ar_window_new "[]"] received_distinct received_window by auto
qed

section \<open>Read epochs\<close>

text \<open>The keys of an epoch are opaque: \<open>'k\<close> stands for the record and sequence-number crypters.\<close>

record 'k read_epoch =
  re_epoch :: u16
  re_keys :: 'k
  re_seq :: u64
  re_replay :: anti_replay_window

definition read_epoch_new :: "u16 \<Rightarrow> 'k \<Rightarrow> 'k read_epoch" where
  "read_epoch_new e k = \<lparr>re_epoch = e, re_keys = k, re_seq = 0, re_replay = ar_window_new\<rparr>"

definition matches_low2 :: "'k read_epoch \<Rightarrow> u8 \<Rightarrow> bool" where
  "matches_low2 re epoch_low2 \<longleftrightarrow> ucast (re_epoch re) AND 3 = epoch_low2"

definition select_read_epoch :: "'k read_epoch option \<Rightarrow> 'k read_epoch option \<Rightarrow> u8 \<Rightarrow> ('k read_epoch \<times> bool) option" where
  "select_read_epoch current previous epoch_low2 =
     (case current of
        Some cur \<Rightarrow>
          if matches_low2 cur epoch_low2 then Some (cur, False)
          else (case previous of
              Some prev \<Rightarrow> if matches_low2 prev epoch_low2 then Some (prev, True) else None
            | None \<Rightarrow> None)
      | None \<Rightarrow>
          (case previous of
              Some prev \<Rightarrow> if matches_low2 prev epoch_low2 then Some (prev, True) else None
            | None \<Rightarrow> None))"

lemma low2_val: "unat (ucast (e :: u16) AND 3 :: u8) = unat e mod 4"
proof -
  have "(3 :: u8) = mask 2" by (simp add: mask_eq_exp_minus_1)
  then have "unat (ucast e AND 3 :: u8) = unat (ucast e :: u8) mod 2 ^ 2"
    by (simp only: unat_and_mask)
  then show ?thesis by (simp add: unat_ucast mod_mod_cancel)
qed

lemma next_epoch_low2: "ucast (e + 1 :: u16) AND 3 \<noteq> (ucast e AND 3 :: u8)"
proof
  assume "ucast (e + 1) AND 3 = (ucast e AND 3 :: u8)"
  then have eq: "unat (e + 1) mod 4 = unat e mod 4" using low2_val [of e] low2_val [of "e + 1"] by simp
  have "unat (e + 1) mod 4 = (unat e + 1) mod 4" by (simp add: unat_word_ariths mod_mod_cancel)
  with eq show False by (auto simp: mod_Suc split: if_splits)
qed

text \<open>
  C35.  Epoch selection is unambiguous while at most the current and the immediately preceding epoch are kept:
  a record of either epoch, identified by its two low bits, is matched to the keys and the replay window of
  its own epoch.
\<close>

theorem select_read_epoch_correct:
  assumes "re_epoch cur = re_epoch prev + 1"
  shows "select_read_epoch (Some cur) (Some prev) (ucast (re_epoch cur) AND 3) = Some (cur, False)
    \<and> select_read_epoch (Some cur) (Some prev) (ucast (re_epoch prev) AND 3) = Some (prev, True)"
  using next_epoch_low2 [of "re_epoch prev"] assms by (simp add: select_read_epoch_def matches_low2_def)

theorem select_read_epoch_correct_witness:
  "select_read_epoch (Some (read_epoch_new 4 ())) (Some (read_epoch_new 3 ())) (ucast (re_epoch (read_epoch_new 4 ())) AND 3)
      = Some (read_epoch_new 4 (), False)
    \<and> select_read_epoch (Some (read_epoch_new 4 ())) (Some (read_epoch_new 3 ())) (ucast (re_epoch (read_epoch_new 3 ())) AND 3)
      = Some (read_epoch_new 3 (), True)"
  by (rule select_read_epoch_correct) (simp add: read_epoch_new_def)

end
