(* ===== verification/Der.thy ===== *)
theory Der
  imports Prelude
begin

text \<open>
  DER reading and writing (\<open>der/mod.rs\<close>, \<open>der/writer.rs\<close>).  A reader is the rest of its input; every
  reading operation returns its result together with the reader it leaves behind, also when it fails,
  since the source advances the reader before it notices an error.
\<close>

section \<open>Tags and errors\<close>

abbreviation "tag_BOOLEAN \<equiv> 0x01 :: u8"
abbreviation "tag_INTEGER \<equiv> 0x02 :: u8"
abbreviation "tag_BIT_STRING \<equiv> 0x03 :: u8"
abbreviation "tag_OCTET_STRING \<equiv> 0x04 :: u8"
abbreviation "tag_NULL \<equiv> 0x05 :: u8"
abbreviation "tag_OID \<equiv> 0x06 :: u8"
abbreviation "tag_SEQUENCE \<equiv> 0x30 :: u8"

definition tag_context :: "u8 \<Rightarrow> u8" where
  "tag_context n = 0xA0 OR n"

datatype der_error =
    Truncated
  | UnexpectedTag u8 u8
  | InvalidLength
  | Malformed
  | TrailingData
  | PemError

type_synonym reader = bytes
type_synonym 'a reading = "reader \<Rightarrow> (der_error + 'a) \<times> reader"

text \<open>Sequencing with \<open>?\<close>: the first error ends the operation and leaves the reader where it is.\<close>

definition rseq :: "'a reading \<Rightarrow> ('a \<Rightarrow> 'b reading) \<Rightarrow> 'b reading" where
  "rseq m f r = (case m r of (Inl e, r') \<Rightarrow> (Inl e, r') | (Inr x, r') \<Rightarrow> f x r')"

definition rok :: "'a \<Rightarrow> 'a reading" where
  "rok x r = (Inr x, r)"

definition rfail :: "der_error \<Rightarrow> 'a reading" where
  "rfail e r = (Inl e, r)"

section \<open>The reader\<close>

definition reader_new :: "bytes \<Rightarrow> reader" where
  "reader_new d = d"

definition reader_is_empty :: "reader \<Rightarrow> bool" where
  "reader_is_empty r \<longleftrightarrow> r = []"

definition reader_take :: "nat \<Rightarrow> bytes reading" where
  "reader_take n r = (if length r < n then (Inl Truncated, r) else (Inr (take n r), drop n r))"

definition read_u8 :: "u8 reading" where
  "read_u8 = rseq (reader_take 1) (\<lambda>bs. rok (bs ! 0))"

fun read_length_loop :: "nat \<Rightarrow> u64 \<Rightarrow> u64 reading" where
  "read_length_loop 0 len = rok len"
| "read_length_loop (Suc k) len = rseq read_u8 (\<lambda>b. read_length_loop k (push_bit 8 len OR ucast b))"

definition read_length :: "u64 reading" where
  "read_length = rseq read_u8 (\<lambda>first.
     if first < 0x80 then rok (ucast first)
     else
       let count = unat (first AND 0x7f) in
       if count = 0 \<or> 8 < count then rfail InvalidLength
       else rseq read_u8 (\<lambda>first_len_octet.
         if first_len_octet = 0x00 then rfail InvalidLength
         else rseq (read_length_loop (count - 1) (ucast first_len_octet)) (\<lambda>len.
           if len < 0x80 then rfail InvalidLength else rok len)))"

definition read_tag :: "u8 reading" where
  "read_tag = rseq read_u8 (\<lambda>tag. if tag AND 0x1f = 0x1f then rfail Malformed else rok tag)"

definition read_tlv :: "u8 \<Rightarrow> bytes reading" where
  "read_tlv expected_tag = rseq read_tag (\<lambda>tag.
     if tag \<noteq> expected_tag then rfail (UnexpectedTag expected_tag tag)
     else rseq read_length (\<lambda>len. reader_take (unat len)))"

definition read_sequence :: "reader reading" where
  "read_sequence = rseq (read_tlv tag_SEQUENCE) (\<lambda>d. rok (reader_new d))"

definition read_integer_bytes :: "bytes reading" where
  "read_integer_bytes = read_tlv tag_INTEGER"

definition unsigned_integer_body :: "bytes \<Rightarrow> bool" where
  "unsigned_integer_body body =
     (case body of
        [] \<Rightarrow> False
      | first # rest \<Rightarrow>
          if first = 0x00 then (case rest of [] \<Rightarrow> True | second # _ \<Rightarrow> second AND 0x80 \<noteq> 0)
          else first AND 0x80 = 0)"

definition read_unsigned_integer_bytes :: "bytes reading" where
  "read_unsigned_integer_bytes = rseq (read_tlv tag_INTEGER) (\<lambda>body.
     if unsigned_integer_body body then rok body else rfail Malformed)"

definition read_octet_string :: "bytes reading" where
  "read_octet_string = read_tlv tag_OCTET_STRING"

definition read_oid :: "bytes reading" where
  "read_oid = read_tlv tag_OID"

definition read_null :: "unit reading" where
  "read_null = rseq (read_tlv tag_NULL) (\<lambda>d. if d = [] then rok () else rfail Malformed)"

definition read_bit_string :: "bytes reading" where
  "read_bit_string = rseq (read_tlv tag_BIT_STRING) (\<lambda>d.
     case d of [] \<Rightarrow> rfail Malformed | unused # rest \<Rightarrow> if unused = 0 then rok rest else rfail Malformed)"

definition read_boolean :: "bool reading" where
  "read_boolean = rseq (read_tlv tag_BOOLEAN) (\<lambda>d.
     if d = [0x00] then rok False else if d = [0xff] then rok True else rfail Malformed)"

definition peek_tag :: "reader \<Rightarrow> u8 option" where
  "peek_tag r = (case r of [] \<Rightarrow> None | b # _ \<Rightarrow> Some b)"

definition read_any :: "(u8 \<times> bytes) reading" where
  "read_any = rseq read_tag (\<lambda>tag. rseq read_length (\<lambda>len. rseq (reader_take (unat len)) (\<lambda>d. rok (tag, d))))"

definition read_element :: "bytes reading" where
  "read_element start =
     rseq read_tag (\<lambda>_. rseq read_length (\<lambda>len r.
       let header = length start - length r in
       rseq (reader_take (unat len)) (\<lambda>_. rok (take (header + unat len) start)) r)) start"

definition reader_finish :: "reader \<Rightarrow> der_error + unit" where
  "reader_finish r = (if r = [] then Inr () else Inl TrailingData)"

definition finish_one_asymmetric_key_tail :: "reader \<Rightarrow> der_error + unit" where
  "finish_one_asymmetric_key_tail seq = (
     let (r1, seq1) = (if peek_tag seq = Some (tag_context 0) then read_any seq else (Inr (0, []), seq)) in
     case r1 of Inl e \<Rightarrow> Inl e
     | Inr _ \<Rightarrow>
       let (r2, seq2) = (if peek_tag seq1 = Some 0x81 \<or> peek_tag seq1 = Some (tag_context 1) then read_any seq1
                         else (Inr (0, []), seq1)) in
       case r2 of Inl e \<Rightarrow> Inl e | Inr _ \<Rightarrow> reader_finish seq2)"

section \<open>The writer\<close>

function length_octets :: "u64 \<Rightarrow> bytes" where
  "length_octets l = (if l = 0 then [] else ucast (l AND 0xff) # length_octets (drop_bit 8 l))"
  by pat_completeness auto
termination
proof (relation "measure unat")
  show "(drop_bit 8 l, l) \<in> measure unat" if "l \<noteq> 0" for l :: u64
    using that by (simp add: unat_drop_bit unat_gt_0)
qed simp

declare length_octets.simps [simp del]

definition encode_length :: "u64 \<Rightarrow> bytes" where
  "encode_length len =
     (if len < 0x80 then [ucast len]
      else let bs = length_octets len in (0x80 OR word_of_nat (length bs)) # rev bs)"

definition encode_tlv :: "u8 \<Rightarrow> bytes \<Rightarrow> bytes" where
  "encode_tlv tag content = tag # encode_length (word_of_nat (length content)) @ content"

definition encode_sequence :: "bytes \<Rightarrow> bytes" where
  "encode_sequence content = encode_tlv tag_SEQUENCE content"

text \<open>Leading zero bytes are stripped as long as another byte follows.\<close>

fun strip_zeros :: "bytes \<Rightarrow> bytes" where
  "strip_zeros (b # c # bs) = (if b = 0 then strip_zeros (c # bs) else b # c # bs)"
| "strip_zeros bs = bs"

definition integer_content :: "bytes \<Rightarrow> bytes" where
  "integer_content unsigned_be =
     (if unsigned_be = [] then [0]
      else let trimmed = strip_zeros unsigned_be in
           if trimmed ! 0 AND 0x80 \<noteq> 0 then 0x00 # trimmed else trimmed)"

definition encode_integer :: "bytes \<Rightarrow> bytes" where
  "encode_integer unsigned_be = encode_tlv tag_INTEGER (integer_content unsigned_be)"

definition encode_octet_string :: "bytes \<Rightarrow> bytes" where
  "encode_octet_string content = encode_tlv tag_OCTET_STRING content"

definition encode_bit_string :: "bytes \<Rightarrow> bytes" where
  "encode_bit_string bits = encode_tlv tag_BIT_STRING (0x00 # bits)"

definition encode_oid :: "bytes \<Rightarrow> bytes" where
  "encode_oid body = encode_tlv tag_OID body"

definition encode_null :: bytes where
  "encode_null = encode_tlv tag_NULL []"

definition encode_boolean :: "bool \<Rightarrow> bytes" where
  "encode_boolean value = encode_tlv tag_BOOLEAN [if value then 0xff else 0x00]"

definition encode_context :: "u8 \<Rightarrow> bytes \<Rightarrow> bytes" where
  "encode_context n content = encode_tlv (tag_context n) content"

section \<open>Reading is the exact inverse of writing\<close>

lemma rseq_Inr_iff: "rseq m f r = (Inr y, r') \<longleftrightarrow> (\<exists>x q. m r = (Inr x, q) \<and> f x q = (Inr y, r'))"
  by (auto simp: rseq_def split: prod.splits sum.splits)

lemma rok_iff [simp]: "rok x r = (Inr y, r') \<longleftrightarrow> y = x \<and> r' = r"
  by (auto simp: rok_def)

lemma rfail_iff [simp]: "rfail e r = (Inr y, r') \<longleftrightarrow> False"
  by (simp add: rfail_def)

lemma rseq_step: "m r = (Inr x, q) \<Longrightarrow> rseq m f r = f x q"
  by (simp add: rseq_def)

lemma read_u8_iff: "read_u8 r = (Inr b, r') \<longleftrightarrow> r = b # r'"
  by (cases r) (auto simp: read_u8_def rseq_Inr_iff reader_take_def)

lemma read_u8_Cons [simp]: "read_u8 (b # r) = (Inr b, r)"
  by (simp add: read_u8_iff)

lemma reader_take_iff: "reader_take n r = (Inr d, r') \<longleftrightarrow> r = d @ r' \<and> length d = n"
  by (auto simp: reader_take_def)

lemma length_octets_val: "wval (length_octets l) = unat l" "l \<noteq> 0 \<Longrightarrow> length_octets l \<noteq> [] \<and> last (length_octets l) \<noteq> 0"
proof (induction l rule: length_octets.induct)
  case (1 l)
  have m: "unat (ucast (l AND 0xff) :: u8) = unat l mod 256"
    using unat_and_mask [of l 8] by (simp add: mask_eq_exp_minus_1 unat_ucast)
  {
    case 1
    show ?case
    proof (cases "l = 0")
      case False
      then have "wval (length_octets (drop_bit 8 l)) = unat l div 256" using "1.IH"(1) by (simp add: unat_drop_bit)
      then show ?thesis using False m by (subst length_octets.simps) simp
    qed (simp add: length_octets.simps)
  next
    case 2
    show ?case
    proof (cases "drop_bit 8 l = 0")
      case True
      then have "unat l div 256 = 0" using unat_drop_bit [of 8 l] by simp
      then have "unat (ucast (l AND 0xff) :: u8) \<noteq> 0" using m 2 by (simp add: unat_eq_zero)
      then show ?thesis using True 2 by (subst (1 2) length_octets.simps) (simp add: length_octets.simps unat_eq_zero)
    next
      case False
      then show ?thesis using "1.IH"(2) 2 by (subst (1 2) length_octets.simps) simp
    qed
  }
qed

lemma length_octets_unique:
  "wval xs = unat l \<Longrightarrow> xs = [] \<or> last xs \<noteq> 0 \<Longrightarrow> length_octets l = xs"
proof (induction xs arbitrary: l)
  case Nil
  then show ?case by (simp add: length_octets.simps unat_eq_zero)
next
  case (Cons x xs)
  have l: "unat l = unat x + 256 * wval xs" using Cons.prems(1) by simp
  have "wval (x # xs) \<noteq> 0" using Cons.prems(2) unfolding wval_eq_0_iff by (auto split: if_splits)
  then have "l \<noteq> 0" using Cons.prems(1) by auto
  moreover have "wval xs = unat (drop_bit 8 l)" using l unat_lt [of x] by (simp add: unat_drop_bit)
  then have "length_octets (drop_bit 8 l) = xs" using Cons.IH Cons.prems(2) by (auto split: if_splits)
  moreover have "unat (ucast (l AND 0xff) :: u8) = unat x"
    using unat_and_mask [of l 8] l unat_lt [of x] by (simp add: mask_eq_exp_minus_1 unat_ucast)
  then have "ucast (l AND 0xff) = x" by (simp add: word_unat_eq_iff)
  ultimately show ?case by (subst length_octets.simps) simp
qed

lemma length_octets_len: "length (length_octets l) \<le> 8"
proof (cases "l = 0")
  case False
  let ?xs = "length_octets l"
  obtain ys y where xs: "?xs = ys @ [y]" "y \<noteq> 0"
    using length_octets_val(2) [OF False] by (cases ?xs rule: rev_cases) auto
  have "1 * 256 ^ length ys \<le> unat y * 256 ^ length ys" using xs(2) by (intro mult_le_mono1) (simp add: Suc_le_eq unat_gt_0)
  also have "\<dots> \<le> wval ?xs" by (simp add: xs(1) wval_append power_mult)
  also have "\<dots> < 256 ^ 8" using length_octets_val(1) [of l] unat_lt [of l] by simp
  finally have "length ys < 8" by (simp only: mult_1) (rule power_less_imp_less_exp [of 256], simp_all)
  then show ?thesis by (simp add: xs(1))
qed (simp add: length_octets.simps)

lemma read_length_loop_iff:
  "read_length_loop k len r = (Inr v, r') \<longleftrightarrow>
   (\<exists>bs. r = bs @ r' \<and> length bs = k \<and> v = fold (\<lambda>b value. push_bit 8 value OR ucast b) bs len)"
proof (induction k arbitrary: len r)
  case (Suc k)
  show ?case
    by (auto simp: rseq_Inr_iff read_u8_iff Suc.IH length_Suc_conv) 
qed auto

text \<open>A length is read exactly when it is written in its unique minimal form.\<close>

lemma long_form_octet:
  assumes "n \<le> 8"
  shows "\<not> (0x80 OR word_of_nat n :: u8) < 0x80" "unat ((0x80 OR word_of_nat n :: u8) AND 0x7f) = n"
proof -
  have "n \<in> {0, 1, 2, 3, 4, 5, 6, 7, 8}" using assms by auto
  then show "\<not> (0x80 OR word_of_nat n :: u8) < 0x80" "unat ((0x80 OR word_of_nat n :: u8) AND 0x7f) = n" by auto
qed

lemma long_form_first:
  fixes b :: u8
  assumes "\<not> b < 0x80"
  shows "b = 0x80 OR word_of_nat (unat (b AND 0x7f))"
proof -
  have m: "(0x7f :: u8) = mask 7" by (simp add: mask_eq_exp_minus_1)
  have "bit b 7" using assms word_top_bit_iff [of b] by (simp add: word_less_nat_alt)
  have "b = 0x80 OR (b AND mask 7)"
  proof (rule bit_word_eqI)
    fix n assume n: "n < LENGTH(8)"
    have "bit (2 ^ 7 :: u8) n \<longleftrightarrow> n = 7" unfolding bit_exp_iff by auto
    then have "bit (0x80 :: u8) n \<longleftrightarrow> n = 7" by simp
    with n show "bit b n = bit (0x80 OR (b AND mask 7)) n"
      using \<open>bit b 7\<close> by (cases "n = 7") (auto simp: bit_simps)
  qed
  then show ?thesis by (simp add: m)
qed

lemma encode_length_shape:
  assumes "\<not> n < 0x80"
  obtains o' os where "rev (length_octets n) = o' # os" "o' \<noteq> 0" "length os < 8" "be_val (o' # os) = unat n"
    "encode_length n = (0x80 OR word_of_nat (Suc (length os))) # o' # os"
proof -
  have "n \<noteq> 0" using assms by auto
  then have "length_octets n \<noteq> []" "last (length_octets n) \<noteq> 0" using length_octets_val(2) by blast+
  then obtain o' os where e: "rev (length_octets n) = o' # os" "o' \<noteq> 0"
    by (cases "length_octets n" rule: rev_cases) simp_all
  have l: "length (length_octets n) = Suc (length os)" using arg_cong [OF e(1), of length] by simp
  then have "length os < 8" using length_octets_len [of n] by simp
  moreover have "be_val (o' # os) = unat n" unfolding e(1) [symmetric] be_val_def by (simp add: length_octets_val(1))
  moreover have "encode_length n = (0x80 OR word_of_nat (Suc (length os))) # o' # os"
    using assms by (simp add: encode_length_def Let_def l e(1))
  ultimately show thesis using that e by blast
qed

lemma fold_octets:
  assumes "length os < 8"
  shows "unat (fold (\<lambda>b value. push_bit 8 value OR ucast b) os (ucast o' :: u64)) = be_val (o' # os)"
proof -
  have o: "unat (ucast o' :: u64) = unat o'" using unat_lt [of o'] by (simp add: unat_ucast)
  have "be_val (o' # os) < 256 ^ Suc (length os)" using be_val_lt [of "o' # os"] by simp
  also have "\<dots> \<le> 256 ^ 8" using assms by (intro power_increasing) simp_all
  finally have "be_val (o' # os) < 2 ^ 64" by simp
  then show ?thesis using be_fold_val [of "ucast o'" os] by (simp add: o be_val_Cons)
qed

lemma read_encode_length: "read_length (encode_length n @ r') = (Inr n, r')"
proof (cases "n < 0x80")
  case True
  then have "(ucast n :: u8) < 0x80" "ucast (ucast n :: u8) = n"
    by (simp_all add: word_less_nat_alt unat_ucast word_unat_eq_iff)
  then show ?thesis using True by (simp add: encode_length_def read_length_def rseq_Inr_iff)
next
  case False
  obtain o' os where e: "o' \<noteq> 0" "length os < 8" "be_val (o' # os) = unat n"
      "encode_length n = (0x80 OR word_of_nat (Suc (length os))) # o' # os"
    by (rule encode_length_shape [OF False])
  have f: "fold (\<lambda>b value. push_bit 8 value OR ucast b) os (ucast o') = n"
    using fold_octets [OF e(2), of o'] e(3) by (simp add: word_unat_eq_iff)
  have "read_length_loop (length os) (ucast o') (os @ r') = (Inr n, r')"
    unfolding read_length_loop_iff using f by blast
  then show ?thesis
    using e(1,2,4) long_form_octet [of "Suc (length os)"] False
    by (simp add: read_length_def rseq_step Let_def rok_def)
qed

lemma read_length_canonical:
  assumes "read_length r = (Inr n, r')"
  shows "r = encode_length n @ r'"
proof -
  obtain b q where b: "r = b # q"
      and k: "(if b < 0x80 then rok (ucast b)
       else let count = unat (b AND 0x7f) in
         if count = 0 \<or> 8 < count then rfail InvalidLength
         else rseq read_u8 (\<lambda>first_len_octet.
           if first_len_octet = 0x00 then rfail InvalidLength
           else rseq (read_length_loop (count - 1) (ucast first_len_octet)) (\<lambda>len.
             if len < 0x80 then rfail InvalidLength else rok len))) q = (Inr n, r')"
    using assms unfolding read_length_def rseq_Inr_iff read_u8_iff by blast
  show "r = encode_length n @ r'"
  proof (cases "b < 0x80")
    case True
    then have "n = ucast b" "q = r'" using k by simp_all
    moreover have "(ucast b :: u64) < 0x80" "ucast (ucast b :: u64) = b"
      using True by (simp_all add: word_less_nat_alt unat_ucast word_unat_eq_iff)
    ultimately show ?thesis using b by (simp add: encode_length_def)
  next
    case False
    define c where "c = unat (b AND 0x7f)"
    have c: "c \<noteq> 0" "c \<le> 8" using k False by (auto simp: Let_def c_def split: if_splits)
    then obtain o' q' where o: "q = o' # q'" "o' \<noteq> 0"
        and l: "\<exists>bs. q' = bs @ r' \<and> length bs = c - 1 \<and> n = fold (\<lambda>b value. push_bit 8 value OR ucast b) bs (ucast o')"
        and n: "\<not> n < 0x80"
      using k False unfolding c_def [symmetric]
      by (auto simp: Let_def rseq_Inr_iff read_u8_iff read_length_loop_iff c_def [symmetric] split: if_splits)
    then obtain os where os: "q' = os @ r'" "length os = c - 1" "n = fold (\<lambda>b value. push_bit 8 value OR ucast b) os (ucast o')"
      by blast
    have "length os < 8" using os(2) c by linarith
    from fold_octets [OF this] have "be_val (o' # os) = unat n" using os(3) by simp
    then have "length_octets n = rev (o' # os)"
      using o(2) by (intro length_octets_unique) (simp_all add: be_val_def)
    then show ?thesis
      using n b o(1) os(1,2) c long_form_first [OF False] by (simp add: encode_length_def Let_def c_def)
  qed
qed

lemma read_length_iff: "read_length r = (Inr n, r') \<longleftrightarrow> r = encode_length n @ r'"
  using read_encode_length read_length_canonical by blast

definition low_tag :: "u8 \<Rightarrow> bool" where
  "low_tag t \<longleftrightarrow> t AND 0x1f \<noteq> 0x1f"

definition fits :: "bytes \<Rightarrow> bool" where
  "fits d \<longleftrightarrow> length d < 2 ^ 64"

lemma read_tag_iff: "read_tag r = (Inr t, r') \<longleftrightarrow> low_tag t \<and> r = t # r'"
  by (auto simp: read_tag_def rseq_Inr_iff read_u8_iff low_tag_def split: if_splits)

lemma content_iff:
  "(\<exists>len q. r = encode_length len @ q \<and> reader_take (unat len) q = (Inr d, r')) \<longleftrightarrow>
   fits d \<and> r = encode_length (word_of_nat (length d)) @ d @ r'"
proof
  assume "\<exists>len q. r = encode_length len @ q \<and> reader_take (unat len) q = (Inr d, r')"
  then obtain len q where l: "r = encode_length len @ q" "q = d @ r'" "length d = unat len"
    by (auto simp: reader_take_iff)
  have "fits d" using l(3) unat_lt [of len] by (simp add: fits_def)
  moreover have "len = word_of_nat (length d)" by (simp add: l(3))
  ultimately show "fits d \<and> r = encode_length (word_of_nat (length d)) @ d @ r'" using l by simp
next
  assume "fits d \<and> r = encode_length (word_of_nat (length d)) @ d @ r'"
  then show "\<exists>len q. r = encode_length len @ q \<and> reader_take (unat len) q = (Inr d, r')"
    by (intro exI [of _ "word_of_nat (length d)"] exI [of _ "d @ r'"])
      (simp add: reader_take_iff fits_def unat_of_nat)
qed

lemma read_tlv_iff: "read_tlv t r = (Inr d, r') \<longleftrightarrow> low_tag t \<and> fits d \<and> r = encode_tlv t d @ r'"
proof -
  have "read_tlv t r = (Inr d, r') \<longleftrightarrow> low_tag t \<and> (\<exists>q. r = t # q
      \<and> (\<exists>len q'. q = encode_length len @ q' \<and> reader_take (unat len) q' = (Inr d, r')))"
    by (auto simp: read_tlv_def rseq_Inr_iff read_tag_iff read_length_iff)
  then show ?thesis unfolding content_iff by (auto simp: encode_tlv_def)
qed

lemma read_any_iff: "read_any r = (Inr (t, d), r') \<longleftrightarrow> low_tag t \<and> fits d \<and> r = encode_tlv t d @ r'"
proof -
  have "read_any r = (Inr (t, d), r') \<longleftrightarrow> low_tag t \<and> (\<exists>q. r = t # q
      \<and> (\<exists>len q'. q = encode_length len @ q' \<and> reader_take (unat len) q' = (Inr d, r')))"
    by (auto simp: read_any_def rseq_Inr_iff read_tag_iff read_length_iff)
  then show ?thesis unfolding content_iff by (auto simp: encode_tlv_def)
qed

section \<open>Canonical codecs\<close>

text \<open>
  A reader and a writer of the same type of value, where the reader accepts exactly what the writer
  produces for an admissible value.  Everything a client needs follows: round trip, injectivity, and that
  no encoding is a proper prefix of another.
\<close>

locale canonical_codec =
  fixes rd :: "'a reading" and wr :: "'a \<Rightarrow> bytes" and ok :: "'a \<Rightarrow> bool"
  assumes canonical: "rd r = (Inr x, r') \<longleftrightarrow> ok x \<and> r = wr x @ r'"
begin

lemma roundtrip: "ok x \<Longrightarrow> rd (wr x @ r) = (Inr x, r)"
  by (simp add: canonical)

lemma only_encodings: "rd r = (Inr x, r') \<Longrightarrow> ok x \<and> r = wr x @ r'"
  by (simp add: canonical)

lemma prefix_free:
  assumes "ok x" "ok y" "wr x @ r = wr y @ s"
  shows "x = y \<and> r = s"
proof -
  have "(Inr x, r) = (Inr y :: der_error + 'a, s)"
    using roundtrip [OF assms(1), of r] roundtrip [OF assms(2), of s] unfolding assms(3) by (rule trans [OF sym])
  then show ?thesis by simp
qed

lemma wr_inject: "ok x \<Longrightarrow> ok y \<Longrightarrow> wr x = wr y \<Longrightarrow> x = y"
  using prefix_free [of x y "[]" "[]"] by simp

end

text \<open>Two canonical codecs in a row form one, as in the fields of a SEQUENCE.\<close>

locale codec_pair = fst_field: canonical_codec rd1 wr1 ok1 + snd_field: canonical_codec rd2 wr2 ok2
  for rd1 :: "'a reading" and wr1 ok1 and rd2 :: "'b reading" and wr2 ok2
begin

lemma pair_canonical:
  "rseq rd1 (\<lambda>x. rseq rd2 (\<lambda>y. rok (x, y))) r = (Inr (x, y), r') \<longleftrightarrow>
   (ok1 x \<and> ok2 y) \<and> r = wr1 x @ wr2 y @ r'"
  unfolding rseq_Inr_iff fst_field.canonical snd_field.canonical rok_iff by auto

end

lemma strip_zeros_id: "c AND 0x80 \<noteq> 0 \<Longrightarrow> strip_zeros (c # bs) = c # bs"
  by (cases bs) auto

lemma integer_content_body:
  assumes "unsigned_integer_body body"
  shows "integer_content body = body"
proof -
  consider b where "body = [b]" | b c bs where "body = b # c # bs"
    using assms by (cases body rule: strip_zeros.cases) (auto simp: unsigned_integer_body_def)
  then show ?thesis
    using assms
    by cases (auto simp: unsigned_integer_body_def integer_content_def Let_def strip_zeros_id split: if_splits list.splits)
qed

lemma bit_string_body:
  "(case d of [] \<Rightarrow> rfail Malformed | unused # rest \<Rightarrow> if unused = 0 then rok rest else rfail Malformed) q = (Inr x, r')
   \<longleftrightarrow> d = 0 # x \<and> q = r'"
  by (cases d) auto

lemma boolean_body:
  "(if d = [0x00] then rok False else if d = [0xff :: u8] then rok True else rfail Malformed) q = (Inr b, r')
   \<longleftrightarrow> d = [if b then 0xff else 0x00] \<and> q = r'"
  by auto

lemma read_typed_iff:
  "read_octet_string r = (Inr d, r') \<longleftrightarrow> fits d \<and> r = encode_octet_string d @ r'"
  "read_oid r = (Inr d, r') \<longleftrightarrow> fits d \<and> r = encode_oid d @ r'"
  "read_sequence r = (Inr d, r') \<longleftrightarrow> fits d \<and> r = encode_sequence d @ r'"
  unfolding read_octet_string_def read_oid_def read_sequence_def encode_octet_string_def encode_oid_def
    encode_sequence_def rseq_Inr_iff read_tlv_iff rok_iff reader_new_def low_tag_def
  by auto

lemma read_unsigned_iff:
  "read_unsigned_integer_bytes r = (Inr b, r') \<longleftrightarrow> (unsigned_integer_body b \<and> fits b) \<and> r = encode_integer b @ r'"
proof -
  have "read_unsigned_integer_bytes r = (Inr b, r') \<longleftrightarrow> unsigned_integer_body b \<and> read_tlv tag_INTEGER r = (Inr b, r')"
    unfolding read_unsigned_integer_bytes_def rseq_Inr_iff by (auto split: if_splits)
  then show ?thesis by (auto simp: read_tlv_iff low_tag_def encode_integer_def integer_content_body)
qed

lemma read_bit_string_iff: "read_bit_string r = (Inr d, r') \<longleftrightarrow> fits (0 # d) \<and> r = encode_bit_string d @ r'"
  unfolding read_bit_string_def encode_bit_string_def rseq_Inr_iff bit_string_body read_tlv_iff low_tag_def by auto

lemma read_null_iff: "read_null r = (Inr u, r') \<longleftrightarrow> r = encode_null @ r'"
proof -
  have "read_null r = (Inr u, r') \<longleftrightarrow> read_tlv tag_NULL r = (Inr [], r')"
    unfolding read_null_def rseq_Inr_iff by (auto split: if_splits)
  then show ?thesis by (simp add: read_tlv_iff low_tag_def encode_null_def fits_def)
qed

lemma read_boolean_iff: "read_boolean r = (Inr b, r') \<longleftrightarrow> r = encode_boolean b @ r'"
  unfolding read_boolean_def encode_boolean_def rseq_Inr_iff boolean_body read_tlv_iff low_tag_def
  by (auto simp: fits_def)

interpretation octet_string: canonical_codec read_octet_string encode_octet_string fits
  by unfold_locales (rule read_typed_iff)

interpretation oid: canonical_codec read_oid encode_oid fits
  by unfold_locales (rule read_typed_iff)

interpretation sequence: canonical_codec read_sequence encode_sequence fits
  by unfold_locales (rule read_typed_iff)

interpretation element: canonical_codec read_any "\<lambda>(t, d). encode_tlv t d" "\<lambda>(t, d). low_tag t \<and> fits d"
  by unfold_locales (auto simp: read_any_iff)

interpretation unsigned: canonical_codec read_unsigned_integer_bytes encode_integer "\<lambda>b. unsigned_integer_body b \<and> fits b"
  by unfold_locales (rule read_unsigned_iff)

interpretation bit_string: canonical_codec read_bit_string encode_bit_string "\<lambda>b. fits (0 # b)"
  by unfold_locales (rule read_bit_string_iff)

interpretation null: canonical_codec read_null "\<lambda>_. encode_null" "\<lambda>_. True"
  by unfold_locales (simp add: read_null_iff)

interpretation boolean: canonical_codec read_boolean encode_boolean "\<lambda>_. True"
  by unfold_locales (simp add: read_boolean_iff)

interpretation integers: codec_pair read_unsigned_integer_bytes encode_integer "\<lambda>b. unsigned_integer_body b \<and> fits b"
    read_unsigned_integer_bytes encode_integer "\<lambda>b. unsigned_integer_body b \<and> fits b"
  by unfold_locales

section \<open>Whole elements, integers and key tails\<close>

lemma encode_tlv_Cons: "encode_tlv t d = t # encode_length (word_of_nat (length d)) @ d"
  by (simp add: encode_tlv_def)

lemma read_element_iff:
  "read_element r = (Inr e, r') \<longleftrightarrow> (\<exists>t d. low_tag t \<and> fits d \<and> e = encode_tlv t d \<and> r = e @ r')"
proof
  assume "read_element r = (Inr e, r')"
  then obtain t q len q' d where r: "low_tag t" "r = t # q" "q = encode_length len @ q'" "q' = d @ r'" "length d = unat len"
      and e: "e = take (length r - length q' + unat len) r"
    by (auto simp: read_element_def rseq_Inr_iff read_tag_iff read_length_iff reader_take_iff Let_def)
  have "len = word_of_nat (length d)" by (simp add: r(5))
  moreover have "fits d" using r(5) unat_lt [of len] by (simp add: fits_def)
  moreover have "e = t # encode_length len @ d" using e r by simp
  ultimately have "e = encode_tlv t d" "fits d" "r = e @ r'" using r(2-4) by (simp_all add: encode_tlv_Cons)
  then show "\<exists>t d. low_tag t \<and> fits d \<and> e = encode_tlv t d \<and> r = e @ r'" using r(1) by blast
next
  assume "\<exists>t d. low_tag t \<and> fits d \<and> e = encode_tlv t d \<and> r = e @ r'"
  then obtain t d where r: "low_tag t" "fits d" "e = encode_tlv t d" "r = e @ r'" by blast
  let ?l = "word_of_nat (length d) :: u64"
  have l: "unat ?l = length d" using r(2) by (simp add: fits_def unat_of_nat)
  have "read_tag r = (Inr t, encode_length ?l @ d @ r')" using r by (simp add: read_tag_iff encode_tlv_Cons)
  moreover have "read_length (encode_length ?l @ d @ r') = (Inr ?l, d @ r')" by (rule read_encode_length)
  moreover have "reader_take (unat ?l) (d @ r') = (Inr d, r')" by (simp add: reader_take_iff l)
  ultimately show "read_element r = (Inr e, r')"
    using r l by (simp add: read_element_def rseq_step Let_def encode_tlv_Cons rok_def)
qed

lemma strip_zeros_props:
  assumes "bs \<noteq> []"
  shows "be_val (strip_zeros bs) = be_val bs" "strip_zeros bs \<noteq> []" "length (strip_zeros bs) \<le> length bs"
    "strip_zeros bs = [0] \<or> strip_zeros bs ! 0 \<noteq> 0"
  using assms by (induction bs rule: strip_zeros.induct) (auto simp: be_val_Cons)

lemma integer_content_props:
  "unsigned_integer_body (integer_content bs)" "be_val (integer_content bs) = be_val bs"
  "length (integer_content bs) \<le> Suc (length bs)"
proof -
  consider "bs = []" | b t where "bs \<noteq> []" "strip_zeros bs = b # t" "strip_zeros bs = [0] \<or> b \<noteq> 0"
    using strip_zeros_props(2,4) [of bs] by (cases "strip_zeros bs") auto
  then show "unsigned_integer_body (integer_content bs)" "be_val (integer_content bs) = be_val bs"
      "length (integer_content bs) \<le> Suc (length bs)"
    using strip_zeros_props(1,3) [of bs]
    by (cases; auto simp: integer_content_def unsigned_integer_body_def Let_def be_val_Cons)+
qed

definition optional_tail :: "u8 set \<Rightarrow> bytes \<Rightarrow> bool" where
  "optional_tail T b \<longleftrightarrow> b = [] \<or> (\<exists>t \<in> T. \<exists>d. fits d \<and> b = encode_tlv t d)"

lemma read_any_tag: "read_any r = (Inr (t, d), r') \<Longrightarrow> peek_tag r = Some t"
  by (auto simp: read_any_iff encode_tlv_Cons peek_tag_def)

lemma peek_encode_tlv: "peek_tag (encode_tlv t d @ r) = Some t"
  by (simp add: encode_tlv_Cons peek_tag_def)

text \<open>One optional element: consumed when its tag is in the set, and the rest is read on.\<close>

lemma optional_element:
  assumes "\<And>t. t \<in> T \<Longrightarrow> low_tag t"
    and k: "k = (let (x, r') = (if \<exists>t \<in> T. peek_tag r = Some t then read_any r else (Inr (0, []), r))
         in case x of Inl e \<Rightarrow> Inl e | Inr _ \<Rightarrow> f r')"
  shows "k = Inr () \<longleftrightarrow> (\<exists>a b. r = a @ b \<and> optional_tail T a \<and> (a = [] \<longrightarrow> (\<forall>t \<in> T. peek_tag b \<noteq> Some t)) \<and> f b = Inr ())"
proof (cases "\<exists>t \<in> T. peek_tag r = Some t")
  case True
  then have "k = Inr () \<longleftrightarrow> (\<exists>t d r'. read_any r = (Inr (t, d), r') \<and> t \<in> T \<and> f r' = Inr ())"
    using read_any_tag [of r] unfolding k by (auto split: prod.splits sum.splits)
  also have "\<dots> \<longleftrightarrow> (\<exists>a b. r = a @ b \<and> optional_tail T a \<and> (a = [] \<longrightarrow> (\<forall>t \<in> T. peek_tag b \<noteq> Some t)) \<and> f b = Inr ())"
  proof
    assume "\<exists>t d r'. read_any r = (Inr (t, d), r') \<and> t \<in> T \<and> f r' = Inr ()"
    then obtain t d r' where "fits d" "r = encode_tlv t d @ r'" "t \<in> T" "f r' = Inr ()" unfolding read_any_iff by blast
    then show "\<exists>a b. r = a @ b \<and> optional_tail T a \<and> (a = [] \<longrightarrow> (\<forall>t \<in> T. peek_tag b \<noteq> Some t)) \<and> f b = Inr ()"
      by (intro exI [of _ "encode_tlv t d"] exI [of _ r']) (auto simp: optional_tail_def encode_tlv_Cons)
  next
    assume "\<exists>a b. r = a @ b \<and> optional_tail T a \<and> (a = [] \<longrightarrow> (\<forall>t \<in> T. peek_tag b \<noteq> Some t)) \<and> f b = Inr ()"
    then obtain t d b where "t \<in> T" "fits d" "r = encode_tlv t d @ b" "f b = Inr ()"
      using True unfolding optional_tail_def by auto
    then show "\<exists>t d r'. read_any r = (Inr (t, d), r') \<and> t \<in> T \<and> f r' = Inr ()"
      unfolding read_any_iff using assms(1) by blast
  qed
  finally show ?thesis .
next
  case False
  then have "k = f r" unfolding k by simp
  then show ?thesis using False peek_encode_tlv by (auto simp: optional_tail_def)
qed

section \<open>The properties\<close>

text \<open>
  C9.  DER is read canonically: an element is accepted exactly when the input starts with the bytes the
  writer produces for its tag and contents, so no two byte strings denote the same element, lengths are in
  their unique minimal form and high-tag-number tags are refused; \<open>read_element\<close> returns precisely these bytes.
\<close>

theorem der_element_canonical:
  "(read_any r = (Inr (t, d), r') \<longleftrightarrow> low_tag t \<and> fits d \<and> r = encode_tlv t d @ r')
   \<and> (read_tlv t r = (Inr d, r') \<longleftrightarrow> low_tag t \<and> fits d \<and> r = encode_tlv t d @ r')
   \<and> (read_element r = (Inr e, r') \<longleftrightarrow> (\<exists>t d. low_tag t \<and> fits d \<and> e = encode_tlv t d \<and> r = e @ r'))"
  by (intro conjI read_any_iff read_tlv_iff read_element_iff)

text \<open>
  C36.  The typed readers are canonical as well: each accepts exactly the output of its writer; a BOOLEAN is
  one byte \<open>00\<close> or \<open>ff\<close>, a NULL is empty, a BIT STRING has no unused bits, and an INTEGER is minimal and
  non-negative.
\<close>

theorem der_typed_canonical:
  "(read_boolean r = (Inr v, r') \<longleftrightarrow> r = encode_boolean v @ r')
   \<and> (read_null r = (Inr (), r') \<longleftrightarrow> r = encode_null @ r')
   \<and> (read_bit_string r = (Inr d, r') \<longleftrightarrow> fits (0 # d) \<and> r = encode_bit_string d @ r')
   \<and> (read_octet_string r = (Inr d, r') \<longleftrightarrow> fits d \<and> r = encode_octet_string d @ r')
   \<and> (read_oid r = (Inr d, r') \<longleftrightarrow> fits d \<and> r = encode_oid d @ r')
   \<and> (read_sequence r = (Inr d, r') \<longleftrightarrow> fits d \<and> r = encode_sequence d @ r')
   \<and> (read_unsigned_integer_bytes r = (Inr d, r') \<longleftrightarrow> (unsigned_integer_body d \<and> fits d) \<and> r = encode_integer d @ r')"
  using boolean.canonical null.canonical bit_string.canonical octet_string.canonical oid.canonical
    sequence.canonical unsigned.canonical by simp

text \<open>
  Integers keep their value: any unsigned big-endian number, with whatever leading zeros, is written as an
  INTEGER that the strict reader accepts, and the body read back has the same value.
\<close>

theorem der_integer_value:
  assumes "length bs < 2 ^ 64 - 1"
  shows "\<exists>body. read_unsigned_integer_bytes (encode_integer bs @ r) = (Inr body, r)
    \<and> be_val body = be_val bs \<and> encode_integer body = encode_integer bs"
proof -
  have "fits (integer_content bs)" using integer_content_props(3) [of bs] assms by (simp add: fits_def)
  moreover have "encode_integer (integer_content bs) = encode_integer bs"
    by (simp add: encode_integer_def integer_content_body integer_content_props(1))
  ultimately show ?thesis
    using unsigned.roundtrip [of "integer_content bs" r] integer_content_props [of bs] by auto
qed

theorem der_integer_value_witness:
  "\<exists>body. read_unsigned_integer_bytes (encode_integer [0, 0, 0x80, 1] @ [5]) = (Inr body, [5])
    \<and> be_val body = be_val [0, 0, 0x80, 1] \<and> encode_integer body = encode_integer [0, 0, 0x80, 1]"
  by (rule der_integer_value) simp

text \<open>
  C37.  The end of a one-asymmetric-key structure is checked completely: the tail is accepted exactly when it
  is an optional attribute set tagged \<open>[0]\<close>, then an optional public key tagged \<open>[1]\<close> (primitive or
  constructed), and nothing else.
\<close>

theorem key_tail_complete:
  "finish_one_asymmetric_key_tail seq = Inr () \<longleftrightarrow>
   (\<exists>a b. seq = a @ b \<and> optional_tail {0xA0} a \<and> optional_tail {0x81, 0xA1} b)"
proof -
  let ?g = "\<lambda>seq1. let (r2, seq2) = (if \<exists>t \<in> {0x81, 0xA1}. peek_tag seq1 = Some t then read_any seq1 else (Inr (0, []), seq1))
      in case r2 of Inl e \<Rightarrow> Inl e | Inr _ \<Rightarrow> reader_finish seq2"
  have low: "low_tag t" if "t \<in> {0xA0} \<union> {0x81, 0xA1}" for t using that by (auto simp: low_tag_def)
  have tc: "tag_context 0 = 0xA0" "tag_context 1 = 0xA1" by (simp_all add: tag_context_def)
  have fin: "finish_one_asymmetric_key_tail seq =
      (let (x, r') = (if \<exists>t \<in> {0xA0}. peek_tag seq = Some t then read_any seq else (Inr (0, []), seq))
       in case x of Inl e \<Rightarrow> Inl e | Inr _ \<Rightarrow> ?g r')"
    unfolding finish_one_asymmetric_key_tail_def tc by (simp only: bex_simps simp_thms)
  have g: "?g b = Inr () \<longleftrightarrow> optional_tail {0x81, 0xA1} b" for b
  proof -
    have "?g b = Inr () \<longleftrightarrow> (\<exists>a c. b = a @ c \<and> optional_tail {0x81, 0xA1} a
        \<and> (a = [] \<longrightarrow> (\<forall>t \<in> {0x81, 0xA1}. peek_tag c \<noteq> Some t)) \<and> reader_finish c = Inr ())"
      by (rule optional_element [OF _ refl]) (use low in auto)
    then show ?thesis by (auto simp: reader_finish_def peek_tag_def split: if_splits)
  qed
  have "finish_one_asymmetric_key_tail seq = Inr () \<longleftrightarrow> (\<exists>a b. seq = a @ b \<and> optional_tail {0xA0} a
      \<and> (a = [] \<longrightarrow> (\<forall>t \<in> {0xA0}. peek_tag b \<noteq> Some t)) \<and> ?g b = Inr ())"
    by (rule optional_element) (use low in simp, simp only: fin)
  moreover have "peek_tag b \<noteq> Some 0xA0" if "optional_tail {0x81, 0xA1} b" for b
    using that by (auto simp: optional_tail_def peek_tag_def encode_tlv_Cons split: list.splits)
  ultimately show ?thesis unfolding g by (simp only: ball_simps simp_thms) blast
qed

end
