(* ===== verification/Base64.thy ===== *)
theory Base64
  imports Der
begin

text \<open>
  The two base64 codecs: the padded one of PEM bodies (\<open>der/pem.rs\<close>) and the unpadded URL-safe one of JOSE
  (\<open>jose/base64url.rs\<close>).  A string is its byte sequence.  Both rest on the arithmetic of six-bit groups, stated once
  on natural numbers (\<open>sextets\<close>), and on the locale \<open>alphabet64\<close> for a table of 64 characters and its inverse.
\<close>

section \<open>Operations of der/pem.rs\<close>

definition ascii :: "string \<Rightarrow> bytes" where
  "ascii s = map (\<lambda>c. word_of_nat (of_char c)) s"

function chunks :: "nat \<Rightarrow> 'a list \<Rightarrow> 'a list list" where
  "chunks n xs = (if n = 0 \<or> xs = [] then [] else take n xs # chunks n (drop n xs))"
  by pat_completeness auto
termination
  by (relation "measure (\<lambda>(n, xs). length xs)") auto

declare chunks.simps [simp del]

definition ALPHABET :: bytes where
  "ALPHABET = ascii ''ABCDEFGHIJKLMNOPQRSTUVWXYZabcdefghijklmnopqrstuvwxyz0123456789+/''"

definition get_or_0 :: "bytes \<Rightarrow> nat \<Rightarrow> u8" where
  "get_or_0 chunk i = (if i < length chunk then chunk ! i else 0)"

definition base64_chunk :: "bytes \<Rightarrow> bytes" where
  "base64_chunk chunk = (
     let b0 = chunk ! 0; b1 = get_or_0 chunk 1; b2 = get_or_0 chunk 2 in
     [ALPHABET ! unat (drop_bit 2 b0),
      ALPHABET ! unat (push_bit 4 (b0 AND 0x03) OR drop_bit 4 b1),
      if 1 < length chunk then ALPHABET ! unat (push_bit 2 (b1 AND 0x0f) OR drop_bit 6 b2) else 0x3d,
      if 2 < length chunk then ALPHABET ! unat (b2 AND 0x3f) else 0x3d])"

definition base64_encode :: "bytes \<Rightarrow> bytes" where
  "base64_encode data = concat (map base64_chunk (chunks 3 data))"

definition decode_char :: "u8 \<Rightarrow> u8 option" where
  "decode_char c =
     (if 0x41 \<le> c \<and> c \<le> 0x5a then Some (c - 0x41)
      else if 0x61 \<le> c \<and> c \<le> 0x7a then Some (c - 0x61 + 26)
      else if 0x30 \<le> c \<and> c \<le> 0x39 then Some (c - 0x30 + 52)
      else if c = 0x2b then Some 62
      else if c = 0x2f then Some 63
      else None)"

definition is_ascii_whitespace :: "u8 \<Rightarrow> bool" where
  "is_ascii_whitespace c \<longleftrightarrow> c = 0x20 \<or> c = 0x09 \<or> c = 0x0a \<or> c = 0x0c \<or> c = 0x0d"

record b64_state =
  b64_out :: bytes
  b64_acc :: u32
  b64_bits :: nat
  b64_total :: nat
  b64_padding :: u32

definition b64_push :: "u8 \<Rightarrow> b64_state \<Rightarrow> b64_state" where
  "b64_push v st = (
     let acc = push_bit 6 (b64_acc st) OR ucast v; bits = b64_bits st + 6;
         st = st\<lparr>b64_acc := acc, b64_total := b64_total st + 1\<rparr> in
     if 8 \<le> bits then st\<lparr>b64_bits := bits - 8, b64_out := b64_out st @ [ucast (drop_bit (bits - 8) acc)]\<rparr>
     else st\<lparr>b64_bits := bits\<rparr>)"

fun base64_decode_loop :: "bytes \<Rightarrow> b64_state \<Rightarrow> der_error + b64_state" where
  "base64_decode_loop [] st = Inr st"
| "base64_decode_loop (c # cs) st =
     (if is_ascii_whitespace c then base64_decode_loop cs st
      else if c = 0x3d then
        base64_decode_loop cs (st\<lparr>b64_padding := b64_padding st + 1, b64_total := b64_total st + 1\<rparr>)
      else if 0 < b64_padding st then Inl PemError
      else case decode_char c of
          None \<Rightarrow> Inl PemError
        | Some v \<Rightarrow> base64_decode_loop cs (b64_push v st))"

definition base64_finish :: "b64_state \<Rightarrow> der_error + bytes" where
  "base64_finish st =
     (if b64_total st mod 4 \<noteq> 0 then Inl PemError
      else if 2 < b64_padding st then Inl PemError
      else if 0 < b64_bits st \<and> b64_acc st AND (push_bit (b64_bits st) 1 - 1) \<noteq> 0 then Inl PemError
      else Inr (b64_out st))"

definition b64_start :: b64_state where
  "b64_start = \<lparr>b64_out = [], b64_acc = 0, b64_bits = 0, b64_total = 0, b64_padding = 0\<rparr>"

definition base64_decode :: "bytes \<Rightarrow> der_error + bytes" where
  "base64_decode s = and_then (base64_decode_loop s b64_start) base64_finish"

section \<open>Operations of jose/base64url.rs\<close>

datatype jose_error =
    JoseJson | JoseBase64 | JoseMalformed | JoseUnsupportedAlgorithm | JoseUnsupported string | JoseCriticalHeader
  | JoseInvalidKey | JoseKeyMismatch | JoseNoKey | JoseAmbiguous | JoseDuplicateKid | JoseMixedKeySet
  | JoseVerification | JoseDecryption

definition URL_ALPHABET :: bytes where
  "URL_ALPHABET = ascii ''ABCDEFGHIJKLMNOPQRSTUVWXYZabcdefghijklmnopqrstuvwxyz0123456789-_''"

definition base64url_chunk :: "bytes \<Rightarrow> bytes" where
  "base64url_chunk chunk = (
     let b0 = ucast (chunk ! 0) :: u32; b1 = ucast (get_or_0 chunk 1) :: u32; b2 = ucast (get_or_0 chunk 2) :: u32;
         n = (push_bit 16 b0 OR push_bit 8 b1) OR b2 in
     [URL_ALPHABET ! unat (drop_bit 18 n AND 63), URL_ALPHABET ! unat (drop_bit 12 n AND 63)]
     @ (if 1 < length chunk then [URL_ALPHABET ! unat (drop_bit 6 n AND 63)] else [])
     @ (if 2 < length chunk then [URL_ALPHABET ! unat (n AND 63)] else []))"

definition base64url_encode :: "bytes \<Rightarrow> bytes" where
  "base64url_encode data = concat (map base64url_chunk (chunks 3 data))"

definition value_of :: "u8 \<Rightarrow> u32 option" where
  "value_of c =
     (if 0x41 \<le> c \<and> c \<le> 0x5a then Some (ucast (c - 0x41))
      else if 0x61 \<le> c \<and> c \<le> 0x7a then Some (ucast (c - 0x61 + 26))
      else if 0x30 \<le> c \<and> c \<le> 0x39 then Some (ucast (c - 0x30 + 52))
      else if c = 0x2d then Some 62
      else if c = 0x5f then Some 63
      else None)"

fun base64url_group :: "bytes \<Rightarrow> u32 \<Rightarrow> jose_error + u32" where
  "base64url_group [] n = Inr n"
| "base64url_group (c # cs) n =
     (case value_of c of None \<Rightarrow> Inl JoseBase64 | Some v \<Rightarrow> base64url_group cs (push_bit 6 n OR v))"

text \<open>The bytes of one group; a group of another length is the \<open>unreachable\<close> arm.\<close>

definition base64url_bytes :: "nat \<Rightarrow> u32 \<Rightarrow> (jose_error + bytes) option" where
  "base64url_bytes len n =
     (if len = 4 then Some (Inr [ucast (drop_bit 16 n), ucast (drop_bit 8 n), ucast n])
      else if len = 3 then
        (if n AND 3 \<noteq> 0 then Some (Inl JoseBase64) else Some (Inr [ucast (drop_bit 10 n), ucast (drop_bit 2 n)]))
      else if len = 2 then
        (if n AND 15 \<noteq> 0 then Some (Inl JoseBase64) else Some (Inr [ucast (drop_bit 4 n)]))
      else None)"

fun base64url_decode_chunks :: "bytes list \<Rightarrow> bytes \<Rightarrow> (jose_error + bytes) option" where
  "base64url_decode_chunks [] out = Some (Inr out)"
| "base64url_decode_chunks (chunk # cs) out =
     (case base64url_group chunk 0 of
        Inl e \<Rightarrow> Some (Inl e)
      | Inr n \<Rightarrow>
          (case base64url_bytes (length chunk) n of
             None \<Rightarrow> None
           | Some (Inl e) \<Rightarrow> Some (Inl e)
           | Some (Inr bs) \<Rightarrow> base64url_decode_chunks cs (out @ bs)))"

definition base64url_decode :: "bytes \<Rightarrow> (jose_error + bytes) option" where
  "base64url_decode s = (if length s mod 4 = 1 then Some (Inl JoseBase64) else base64url_decode_chunks (chunks 4 s) [])"

section \<open>Six-bit groups\<close>

fun sextets :: "bytes \<Rightarrow> nat list" where
  "sextets [] = []"
| "sextets [a] = [unat a div 4, unat a mod 4 * 16]"
| "sextets [a, b] = [unat a div 4, unat a mod 4 * 16 + unat b div 16, unat b mod 16 * 4]"
| "sextets (a # b # c # bs) =
     [unat a div 4, unat a mod 4 * 16 + unat b div 16, unat b mod 16 * 4 + unat c div 64, unat c mod 64] @ sextets bs"

definition to_byte :: "nat \<Rightarrow> u8" where
  "to_byte n = word_of_nat n"

fun unsextets :: "nat list \<Rightarrow> bytes option" where
  "unsextets [] = Some []"
| "unsextets [a] = None"
| "unsextets [a, b] = (if b mod 16 = 0 then Some [to_byte (a * 4 + b div 16)] else None)"
| "unsextets [a, b, c] = (if c mod 4 = 0 then Some [to_byte (a * 4 + b div 16), to_byte (b mod 16 * 16 + c div 4)]
     else None)"
| "unsextets (a # b # c # d # vs) =
     map_option (\<lambda>bs. [to_byte (a * 4 + b div 16), to_byte (b mod 16 * 16 + c div 4), to_byte (c mod 4 * 64 + d)] @ bs)
       (unsextets vs)"

lemma byte_lt: "unat (b :: u8) < 256"
  using unat_lt [of b] by simp

lemma unat_to_byte: "n < 256 \<Longrightarrow> unat (to_byte n) = n"
  by (simp add: to_byte_def unat_of_nat)

lemma to_byte_unat [simp]: "to_byte (unat b) = b"
  by (simp add: to_byte_def)

lemma div_lt: "(x :: nat) < n * k \<Longrightarrow> x div k < n"
  by (rule less_mult_imp_div_less)

lemma glue_div_mod: "(y :: nat) < k \<Longrightarrow> (x * k + y) div k = x" "(y :: nat) < k \<Longrightarrow> (x * k + y) mod k = y"
  by simp_all

lemma glue_lt: "(x :: nat) < m \<Longrightarrow> y < k \<Longrightarrow> x * k + y < m * k"
proof -
  assume "x < m" "y < k"
  then have "x * k + y < Suc x * k" by simp
  also have "\<dots> \<le> m * k" using \<open>x < m\<close> by (intro mult_le_mono1) simp
  finally show ?thesis .
qed

lemma sextet_lt:
  "unat (a :: u8) div 4 < 64" "unat (a :: u8) mod 4 * 16 + unat (b :: u8) div 16 < 64"
  "unat (a :: u8) mod 16 * 4 + unat (b :: u8) div 64 < 64"
  using div_lt [of "unat a" 64 4] glue_lt [of "unat a mod 4" 4 "unat b div 16" 16] div_lt [of "unat b" 16 16]
    glue_lt [of "unat a mod 16" 16 "unat b div 64" 4] div_lt [of "unat b" 4 64] byte_lt [of a] byte_lt [of b] by simp_all

lemma sextets_lt: "\<forall>v \<in> set (sextets bs). v < 64"
proof (induction bs rule: sextets.induct)
  case (2 a)
  then show ?case using sextet_lt(1) [of a] sextet_lt(2) [of a 0] by simp
next
  case (3 a b)
  then show ?case using sextet_lt(1) [of a] sextet_lt(2) [of a b] sextet_lt(3) [of b 0] by simp
next
  case (4 a b c bs)
  then show ?case using sextet_lt(1) [of a] sextet_lt(2) [of a b] sextet_lt(3) [of b c] by simp
qed simp

lemma regroup_bytes:
  fixes a b c :: nat
  assumes "a < 256" "b < 256" "c < 256"
  shows "a div 4 * 4 + (a mod 4 * 16 + b div 16) div 16 = a"
    "(a mod 4 * 16 + b div 16) mod 16 * 16 + (b mod 16 * 4 + c div 64) div 4 = b"
    "(b mod 16 * 4 + c div 64) mod 4 * 64 + c mod 64 = c"
proof -
  have b: "b div 16 < 16" and c: "c div 64 < 4" using assms div_lt [of b 16 16] div_lt [of c 4 64] by simp_all
  show "a div 4 * 4 + (a mod 4 * 16 + b div 16) div 16 = a"
    "(a mod 4 * 16 + b div 16) mod 16 * 16 + (b mod 16 * 4 + c div 64) div 4 = b"
    "(b mod 16 * 4 + c div 64) mod 4 * 64 + c mod 64 = c"
    unfolding glue_div_mod [OF b] glue_div_mod [OF c] by (rule div_mult_mod_eq)+
qed

lemma regroup_sextets:
  fixes a b c d :: nat
  assumes "a < 64" "b < 64" "c < 64" "d < 64"
  shows "(a * 4 + b div 16) div 4 = a" "(a * 4 + b div 16) mod 4 * 16 + (b mod 16 * 16 + c div 4) div 16 = b"
    "(b mod 16 * 16 + c div 4) mod 16 * 4 + (c mod 4 * 64 + d) div 64 = c" "(c mod 4 * 64 + d) mod 64 = d"
    "a * 4 + b div 16 < 256" "b mod 16 * 16 + c div 4 < 256" "c mod 4 * 64 + d < 256"
proof -
  have b: "b div 16 < 4" and c: "c div 4 < 16" using assms div_lt [of b 4 16] div_lt [of c 16 4] by simp_all
  show "(a * 4 + b div 16) div 4 = a" "(c mod 4 * 64 + d) mod 64 = d"
    by (rule glue_div_mod(1) [OF b], rule glue_div_mod(2) [OF assms(4)])
  show "(a * 4 + b div 16) mod 4 * 16 + (b mod 16 * 16 + c div 4) div 16 = b"
    "(b mod 16 * 16 + c div 4) mod 16 * 4 + (c mod 4 * 64 + d) div 64 = c"
    unfolding glue_div_mod [OF b] glue_div_mod [OF c] glue_div_mod [OF assms(4)] by (rule div_mult_mod_eq)+
  show "a * 4 + b div 16 < 256" using glue_lt [OF assms(1) b] by simp
  show "b mod 16 * 16 + c div 4 < 256" using glue_lt [OF _ c, of "b mod 16" 16] by simp
  show "c mod 4 * 64 + d < 256" using glue_lt [OF _ assms(4), of "c mod 4" 4] by simp
qed

lemma unsextets_sextets: "unsextets (sextets bs) = Some bs"
proof (induction bs rule: sextets.induct)
  case (2 a)
  then show ?case using regroup_bytes(1) [of "unat a" 0 0] byte_lt [of a] by simp
next
  case (3 a b)
  then show ?case using regroup_bytes [of "unat a" "unat b" 0] byte_lt [of a] byte_lt [of b] by simp
next
  case (4 a b c bs)
  then show ?case using regroup_bytes [of "unat a" "unat b" "unat c"] byte_lt [of a] byte_lt [of b] byte_lt [of c] by simp
qed simp

lemma sextets_unsextets: "unsextets vs = Some bs \<Longrightarrow> \<forall>v \<in> set vs. v < 64 \<Longrightarrow> sextets bs = vs"
proof (induction vs arbitrary: bs rule: unsextets.induct)
  case (3 a b)
  then have "bs = [to_byte (a * 4 + b div 16)]" "b mod 16 = 0" by (simp_all split: if_splits)
  then show ?case using regroup_sextets [of a b 0 0] 3(2) by (simp add: unat_to_byte)
next
  case (4 a b c)
  then have "bs = [to_byte (a * 4 + b div 16), to_byte (b mod 16 * 16 + c div 4)]" "c mod 4 = 0" by (simp_all split: if_splits)
  then show ?case using regroup_sextets [of a b c 0] 4(2) by (simp add: unat_to_byte)
next
  case (5 a b c d vs)
  obtain bs' where bs: "unsextets vs = Some bs'"
    "bs = [to_byte (a * 4 + b div 16), to_byte (b mod 16 * 16 + c div 4), to_byte (c mod 4 * 64 + d)] @ bs'"
    using 5(2) by auto
  have "sextets bs' = vs" using 5(1) [OF bs(1)] 5(3) by simp
  then show ?case using 5(3) regroup_sextets [of a b c d] by (simp add: bs(2) unat_to_byte)
qed simp_all

lemma unsextets_iff: "\<forall>v \<in> set vs. v < 64 \<Longrightarrow> unsextets vs = Some bs \<longleftrightarrow> vs = sextets bs"
  using sextets_unsextets [of vs bs] unsextets_sextets [of bs] by blast

lemma length_sextets: "length (sextets bs) mod 4 = (if length bs mod 3 = 0 then 0 else length bs mod 3 + 1)"
proof (induction bs rule: sextets.induct)
  case (4 a b c bs)
  have "length (a # b # c # bs) mod 3 = length bs mod 3" "length (sextets (a # b # c # bs)) mod 4 = length (sextets bs) mod 4"
    using mod_add_self2 [of "length bs" 3] mod_add_self2 [of "length (sextets bs)" 4] by simp_all
  then show ?case using 4 by (simp only:)
qed simp_all

lemma chunks_Nil [simp]: "chunks n [] = []"
  by (simp add: chunks.simps [of n "[]"])

lemma chunks_3:
  "chunks 3 [] = []" "chunks 3 [a] = [[a]]" "chunks 3 [a, b] = [[a, b]]" "chunks 3 (a # b # c # xs) = [a, b, c] # chunks 3 xs"
  by (simp, (subst chunks.simps, simp add: numeral_eq_Suc)+)

lemma chunks_4:
  "chunks 4 [] = []" "chunks 4 [a, b] = [[a, b]]" "chunks 4 [a, b, c] = [[a, b, c]]"
  "chunks 4 (a # b # c # d # xs) = [a, b, c, d] # chunks 4 xs"
  by (simp, (subst chunks.simps, simp add: numeral_eq_Suc)+)

section \<open>Alphabets\<close>

locale alphabet64 =
  fixes enc :: "nat \<Rightarrow> u8" and dec :: "u8 \<Rightarrow> nat option"
  assumes dec_iff: "dec c = Some v \<longleftrightarrow> v < 64 \<and> c = enc v"
begin

lemma dec_enc: "v < 64 \<Longrightarrow> dec (enc v) = Some v"
  by (simp add: dec_iff)

lemma enc_inj: "v < 64 \<Longrightarrow> w < 64 \<Longrightarrow> enc v = enc w \<longleftrightarrow> v = w"
  using dec_iff by (metis option.inject)

lemma map_enc_inj: "\<forall>v \<in> set vs. v < 64 \<Longrightarrow> \<forall>w \<in> set ws. w < 64 \<Longrightarrow> map enc vs = map enc ws \<longleftrightarrow> vs = ws"
proof (induction vs arbitrary: ws)
  case (Cons v vs)
  then show ?case by (cases ws) (auto simp: enc_inj)
qed auto

lemma map_dec: "\<forall>c \<in> set s. dec c \<noteq> None \<Longrightarrow> \<exists>vs. s = map enc vs \<and> (\<forall>v \<in> set vs. v < 64)"
proof (induction s)
  case (Cons c s)
  then obtain vs v where "s = map enc vs" "\<forall>v \<in> set vs. v < 64" "dec c = Some v" by auto
  then show ?case by (intro exI [of _ "v # vs"]) (simp add: dec_iff)
qed simp

end

lemma list_all_upt: "list_all P [0..<n] \<Longrightarrow> i < n \<Longrightarrow> P i"
  by (simp add: list_all_iff)

abbreviation alnum_table :: "u8 list \<Rightarrow> bytes" where
  "alnum_table rest \<equiv> map word_of_nat [65..<91] @ map word_of_nat [97..<123] @ map word_of_nat [48..<58] @ rest"

lemma ALPHABET_eq: "ALPHABET = alnum_table [0x2b, 0x2f]"
  by code_simp

lemma URL_ALPHABET_eq: "URL_ALPHABET = alnum_table [0x2d, 0x5f]"
  by code_simp

lemma decode_table: "map decode_char ALPHABET = map (\<lambda>i. Some (word_of_nat i)) [0..<64]"
  unfolding ALPHABET_eq by code_simp

lemma url_decode_table: "map value_of URL_ALPHABET = map (\<lambda>i. Some (word_of_nat i)) [0..<64]"
  unfolding URL_ALPHABET_eq by code_simp

lemma table_lookup:
  fixes T :: bytes
  assumes "map f T = map (\<lambda>i. Some (word_of_nat i :: 'a::len word)) [0..<64]" "i < 64"
  shows "f (T ! i) = Some (word_of_nat i)"
proof -
  have "length T = 64" using arg_cong [OF assms(1), of length] by simp
  then show ?thesis using arg_cong [OF assms(1), of "\<lambda>xs. xs ! i"] assms(2) by simp
qed

lemma alnum_table_nth:
  "i < 26 \<Longrightarrow> alnum_table r ! i = word_of_nat (65 + i)"
  "i < 26 \<Longrightarrow> alnum_table r ! (i + 26) = word_of_nat (97 + i)"
  "i < 10 \<Longrightarrow> alnum_table r ! (i + 52) = word_of_nat (48 + i)"
  "alnum_table [x, y] ! 62 = x" "alnum_table [x, y] ! 63 = y"
  by (simp_all add: nth_append del: upt_rec_numeral)

lemma alnum_lookup:
  fixes c :: u8
  shows "0x41 \<le> c \<Longrightarrow> c \<le> 0x5a \<Longrightarrow> unat (c - 0x41) < 26 \<and> alnum_table r ! unat (c - 0x41) = c"
    "0x61 \<le> c \<Longrightarrow> c \<le> 0x7a \<Longrightarrow> unat (c - 0x61 + 26) < 52 \<and> alnum_table r ! unat (c - 0x61 + 26) = c"
    "0x30 \<le> c \<Longrightarrow> c \<le> 0x39 \<Longrightarrow> unat (c - 0x30 + 52) < 62 \<and> alnum_table r ! unat (c - 0x30 + 52) = c"
proof -
  show "unat (c - 0x41) < 26 \<and> alnum_table r ! unat (c - 0x41) = c" if "0x41 \<le> c" "c \<le> 0x5a"
  proof -
    have "unat (c - 0x41) = unat c - 65" "65 \<le> unat c" "unat c \<le> 90"
      using that by (simp_all add: unat_sub word_le_nat_alt)
    then show ?thesis using alnum_table_nth(1) [of "unat c - 65" r] by simp
  qed
  show "unat (c - 0x61 + 26) < 52 \<and> alnum_table r ! unat (c - 0x61 + 26) = c" if "0x61 \<le> c" "c \<le> 0x7a"
  proof -
    have s: "unat (c - 0x61) = unat c - 97" "97 \<le> unat c" "unat c \<le> 122"
      using that by (simp_all add: unat_sub word_le_nat_alt)
    have "unat (c - 0x61 + 26) = unat c - 97 + 26" by (subst unat_word_ariths(1), subst s(1)) (use s in simp)
    then show ?thesis using alnum_table_nth(2) [of "unat c - 97" r] s by simp
  qed
  show "unat (c - 0x30 + 52) < 62 \<and> alnum_table r ! unat (c - 0x30 + 52) = c" if "0x30 \<le> c" "c \<le> 0x39"
  proof -
    have s: "unat (c - 0x30) = unat c - 48" "48 \<le> unat c" "unat c \<le> 57"
      using that by (simp_all add: unat_sub word_le_nat_alt)
    have "unat (c - 0x30 + 52) = unat c - 48 + 52" by (subst unat_word_ariths(1), subst s(1)) (use s in simp)
    then show ?thesis using alnum_table_nth(3) [of "unat c - 48" r] s by simp
  qed
qed

lemma decode_char_sound: "decode_char c = Some v \<Longrightarrow> unat v < 64 \<and> ALPHABET ! unat v = c"
  unfolding ALPHABET_eq decode_char_def
  using alnum_lookup [of c "[0x2b, 0x2f]"] alnum_table_nth(4,5) [of "0x2b" "0x2f"] by (auto split: if_splits)

lemma value_of_sound: "value_of c = Some v \<Longrightarrow> unat v < 64 \<and> URL_ALPHABET ! unat v = c"
  unfolding URL_ALPHABET_eq value_of_def
  using alnum_lookup [of c "[0x2d, 0x5f]"] alnum_table_nth(4,5) [of "0x2d" "0x5f"] by (auto simp: unat_ucast split: if_splits)

interpretation pem_alphabet: alphabet64 "\<lambda>v. ALPHABET ! v" "\<lambda>c. map_option unat (decode_char c)"
proof
  show "map_option unat (decode_char c) = Some v \<longleftrightarrow> v < 64 \<and> c = ALPHABET ! v" for c v
    using decode_char_sound [of c] table_lookup [OF decode_table, of v] by (auto simp: unat_of_nat)
qed

interpretation url_alphabet: alphabet64 "\<lambda>v. URL_ALPHABET ! v" "\<lambda>c. map_option unat (value_of c)"
proof
  show "map_option unat (value_of c) = Some v \<longleftrightarrow> v < 64 \<and> c = URL_ALPHABET ! v" for c v
    using value_of_sound [of c] table_lookup [OF url_decode_table, of v] by (auto simp: unat_of_nat)
qed

section \<open>The encoders print the six-bit groups\<close>

lemma sextet_words:
  fixes a b :: u8
  shows "unat (push_bit 4 (a AND 0x03) OR drop_bit 4 b) = unat a mod 4 * 16 + unat b div 16"
    "unat (push_bit 2 (a AND 0x0f) OR drop_bit 6 b) = unat a mod 16 * 4 + unat b div 64"
    "unat (a AND 0x3f) = unat a mod 64"
proof -
  have m: "(0x03 :: u8) = mask 2" "(0x0f :: u8) = mask 4" "(0x3f :: u8) = mask 6" by (simp_all add: mask_eq_exp_minus_1)
  have a: "unat (a AND 0x03) = unat a mod 4" "unat (a AND 0x0f) = unat a mod 16"
    unfolding m unat_and_mask by simp_all
  show "unat (a AND 0x3f) = unat a mod 64" unfolding m unat_and_mask by simp
  have "unat (drop_bit 4 b OR push_bit 4 (a AND 0x03)) = unat (drop_bit 4 b) + unat (a AND 0x03) * 2 ^ 4"
    using a(1) byte_lt [of b] div_lt [of "unat b" 16 16] mod_less_divisor [of 4 "unat a"]
    by (intro unat_or_shift) (simp_all add: unat_drop_bit)
  then show "unat (push_bit 4 (a AND 0x03) OR drop_bit 4 b) = unat a mod 4 * 16 + unat b div 16"
    by (simp add: or.commute a unat_drop_bit)
  have "unat (drop_bit 6 b OR push_bit 2 (a AND 0x0f)) = unat (drop_bit 6 b) + unat (a AND 0x0f) * 2 ^ 2"
    using a(2) byte_lt [of b] div_lt [of "unat b" 4 64] mod_less_divisor [of 16 "unat a"]
    by (intro unat_or_shift) (simp_all add: unat_drop_bit)
  then show "unat (push_bit 2 (a AND 0x0f) OR drop_bit 6 b) = unat a mod 16 * 4 + unat b div 64"
    by (simp add: or.commute a unat_drop_bit)
qed

definition pad_len :: "bytes \<Rightarrow> nat" where
  "pad_len data = (3 - length data mod 3) mod 3"

lemma get_or_0_simps [simp]:
  "get_or_0 [a] (Suc 0) = 0" "get_or_0 [a] 2 = 0" "get_or_0 [a, b] (Suc 0) = b" "get_or_0 [a, b] 2 = 0"
  "get_or_0 (a # b # c # xs) (Suc 0) = b" "get_or_0 (a # b # c # xs) 2 = c"
  by (simp_all add: get_or_0_def)

lemma base64_chunk_eq:
  "base64_chunk [a] = map (\<lambda>v. ALPHABET ! v) (sextets [a]) @ [0x3d, 0x3d]"
  "base64_chunk [a, b] = map (\<lambda>v. ALPHABET ! v) (sextets [a, b]) @ [0x3d]"
  "base64_chunk [a, b, c] = map (\<lambda>v. ALPHABET ! v) (sextets [a, b, c])"
  unfolding base64_chunk_def Let_def sextet_words unat_drop_bit by simp_all

lemma pad_len_simps [simp]:
  "pad_len [] = 0" "pad_len [a] = 2" "pad_len [a, b] = 1" "pad_len (a # b # c # bs) = pad_len bs"
  using mod_add_self2 [of "length bs" 3] by (simp_all add: pad_len_def)

lemma base64_encode_eq: "base64_encode data = map (\<lambda>v. ALPHABET ! v) (sextets data) @ replicate (pad_len data) 0x3d"
  by (induction data rule: sextets.induct)
     (simp_all add: base64_encode_def chunks_3 base64_chunk_eq numeral_2_eq_2)

lemma digits64:
  fixes q0 q1 q2 q3 :: nat
  assumes "n = ((q0 * 64 + q1) * 64 + q2) * 64 + q3" "q0 < 64" "q1 < 64" "q2 < 64" "q3 < 64"
  shows "n div 262144 mod 64 = q0" "n div 4096 mod 64 = q1" "n div 64 mod 64 = q2" "n mod 64 = q3"
proof -
  have d: "n div 64 = (q0 * 64 + q1) * 64 + q2" unfolding assms(1) by (rule glue_div_mod(1) [OF assms(5)])
  then have d2: "n div 64 div 64 = q0 * 64 + q1" by (simp only: glue_div_mod(1) [OF assms(4)])
  then have d3: "n div 64 div 64 div 64 = q0" by (simp only: glue_div_mod(1) [OF assms(3)])
  show "n mod 64 = q3" unfolding assms(1) by (rule glue_div_mod(2) [OF assms(5)])
  show "n div 64 mod 64 = q2" unfolding d by (rule glue_div_mod(2) [OF assms(4)])
  have "n div 4096 = n div 64 div 64" by (simp add: div_mult2_eq [symmetric])
  then show "n div 4096 mod 64 = q1" unfolding d2 by (simp only: glue_div_mod(2) [OF assms(3)])
  have "n div 262144 = n div 64 div 64 div 64" by (simp add: div_mult2_eq [symmetric])
  then show "n div 262144 mod 64 = q0" unfolding d3 using assms(2) by simp
qed

lemma regroup_24:
  "(a * 256 + b) * 256 + c
   = ((a div 4 * 64 + (a mod 4 * 16 + b div 16)) * 64 + (b mod 16 * 4 + c div 64)) * 64 + c mod (64 :: nat)"
proof -
  have "((i * 4 + j) * 256 + (k * 16 + l)) * 256 + (m * 64 + n) = ((i * 64 + (j * 16 + k)) * 64 + (l * 4 + m)) * 64 + (n :: nat)"
    for i j k l m n by (simp add: algebra_simps)
  from this [of "a div 4" "a mod 4" "b div 16" "b mod 16" "c div 64" "c mod 64"] show ?thesis
    unfolding div_mult_mod_eq .
qed

lemma triple_word:
  fixes a b c :: u8
  shows "unat ((push_bit 16 (ucast a) OR push_bit 8 (ucast b)) OR ucast c :: u32) = (unat a * 256 + unat b) * 256 + unat c"
proof -
  have u: "unat (ucast x :: u32) = unat x" for x :: u8 using byte_lt [of x] by (simp add: unat_ucast)
  have "unat (ucast b OR push_bit 8 (ucast a) :: u32) = unat b + unat a * 2 ^ 8"
    using unat_or_shift [of "ucast b :: u32" 8 "ucast a"] byte_lt [of a] byte_lt [of b] by (simp add: u)
  then have ab: "unat (ucast b OR push_bit 8 (ucast a) :: u32) = unat a * 256 + unat b" by simp
  have "unat a * 256 + unat b < 65536" using glue_lt [OF byte_lt [of a] byte_lt [of b]] by simp
  then have "unat (ucast c OR push_bit 8 (ucast b OR push_bit 8 (ucast a)) :: u32) = unat c + (unat a * 256 + unat b) * 2 ^ 8"
    using unat_or_shift [of "ucast c :: u32" 8 "ucast b OR push_bit 8 (ucast a)"] byte_lt [of c] by (simp add: ab u)
  then show ?thesis by (simp add: push_bit_or ac_simps)
qed

lemma triple_sextets:
  fixes a b c :: u8
  defines "n \<equiv> (push_bit 16 (ucast a) OR push_bit 8 (ucast b)) OR ucast c :: u32"
  shows "unat (drop_bit 18 n AND 63) = unat a div 4" "unat (drop_bit 12 n AND 63) = unat a mod 4 * 16 + unat b div 16"
    "unat (drop_bit 6 n AND 63) = unat b mod 16 * 4 + unat c div 64" "unat (n AND 63) = unat c mod 64"
proof -
  have m: "unat (w AND 63 :: u32) = unat w mod 64" for w
  proof -
    have "(63 :: u32) = mask 6" by (simp add: mask_eq_exp_minus_1)
    then show ?thesis by (simp only: unat_and_mask) simp
  qed
  have n: "unat n = ((unat a div 4 * 64 + (unat a mod 4 * 16 + unat b div 16)) * 64 + (unat b mod 16 * 4 + unat c div 64)) * 64
    + unat c mod 64" unfolding n_def triple_word by (rule regroup_24)
  have p: "(2 :: nat) ^ 18 = 262144" "(2 :: nat) ^ 12 = 4096" "(2 :: nat) ^ 6 = 64" by simp_all
  note q = digits64 [OF n sextet_lt(1,2,3)]
  show "unat (drop_bit 18 n AND 63) = unat a div 4" "unat (drop_bit 12 n AND 63) = unat a mod 4 * 16 + unat b div 16"
    "unat (drop_bit 6 n AND 63) = unat b mod 16 * 4 + unat c div 64" "unat (n AND 63) = unat c mod 64"
    unfolding m unat_drop_bit p by (rule q; simp)+
qed

lemma base64url_chunk_eq:
  "base64url_chunk [a] = map (\<lambda>v. URL_ALPHABET ! v) (sextets [a])"
  "base64url_chunk [a, b] = map (\<lambda>v. URL_ALPHABET ! v) (sextets [a, b])"
  "base64url_chunk [a, b, c] = map (\<lambda>v. URL_ALPHABET ! v) (sextets [a, b, c])"
  unfolding base64url_chunk_def Let_def triple_sextets by simp_all

lemma base64url_encode_eq: "base64url_encode data = map (\<lambda>v. URL_ALPHABET ! v) (sextets data)"
  by (induction data rule: sextets.induct) (simp_all add: base64url_encode_def chunks_3 base64url_chunk_eq)

section \<open>Decoding the unpadded form\<close>

lemma ucast_to_byte: "unat (w :: u32) mod 256 = k \<Longrightarrow> (ucast w :: u8) = to_byte k"
  by (auto simp: word_unat_eq_iff unat_ucast unat_to_byte)

lemma regroup_back:
  fixes a b c d :: nat
  shows "((a * 64 + b) * 64 + c) * 64 + d = ((a * 4 + b div 16) * 256 + (b mod 16 * 16 + c div 4)) * 256 + (c mod 4 * 64 + d)"
    "(a * 64 + b) * 64 + c = ((a * 4 + b div 16) * 256 + (b mod 16 * 16 + c div 4)) * 4 + c mod 4"
    "a * 64 + b = (a * 4 + b div 16) * 16 + b mod 16"
proof -
  have e: "((a * 64 + (i * 16 + j)) * 64 + (k * 4 + l)) * 64 + d = ((a * 4 + i) * 256 + (j * 16 + k)) * 256 + (l * 64 + d)"
    "(a * 64 + (i * 16 + j)) * 64 + (k * 4 + l) = ((a * 4 + i) * 256 + (j * 16 + k)) * 4 + l"
    "a * 64 + (i * 16 + j) = (a * 4 + i) * 16 + j" for i j k l :: nat by (simp_all add: algebra_simps)
  from e(1) [of "b div 16" "b mod 16" "c div 4" "c mod 4"] e(2) [of "b div 16" "b mod 16" "c div 4" "c mod 4"]
    e(3) [of "b div 16" "b mod 16"]
  show "((a * 64 + b) * 64 + c) * 64 + d = ((a * 4 + b div 16) * 256 + (b mod 16 * 16 + c div 4)) * 256 + (c mod 4 * 64 + d)"
    "(a * 64 + b) * 64 + c = ((a * 4 + b div 16) * 256 + (b mod 16 * 16 + c div 4)) * 4 + c mod 4"
    "a * 64 + b = (a * 4 + b div 16) * 16 + b mod 16"
    unfolding div_mult_mod_eq .
qed

lemma digits256:
  fixes x y z k :: nat
  assumes "n = (x * 256 + y) * k + z" "x < 256" "y < 256" "z < k"
  shows "n div (256 * k) mod 256 = x" "n div k mod 256 = y" "n mod k = z"
proof -
  have d: "n div k = x * 256 + y" unfolding assms(1) by (rule glue_div_mod(1) [OF assms(4)])
  show "n mod k = z" unfolding assms(1) by (rule glue_div_mod(2) [OF assms(4)])
  show "n div k mod 256 = y" unfolding d by (rule glue_div_mod(2) [OF assms(3)])
  have "n div (256 * k) = n div k div 256" by (simp only: div_mult2_eq [symmetric] mult.commute)
  then show "n div (256 * k) mod 256 = x" unfolding d glue_div_mod(1) [OF assms(3)] using assms(2) by simp
qed

lemma and_low32: "unat (w AND 3 :: u32) = unat w mod 4" "unat (w AND 15 :: u32) = unat w mod 16"
proof -
  have "(3 :: u32) = mask 2" "(15 :: u32) = mask 4" by (simp_all add: mask_eq_exp_minus_1)
  then show "unat (w AND 3 :: u32) = unat w mod 4" "unat (w AND 15 :: u32) = unat w mod 16"
    by (simp_all only: unat_and_mask) simp_all
qed

lemma base64url_bytes_eq:
  assumes "a < 64" "b < 64" "c < 64" "d < 64"
  shows "unat n = ((a * 64 + b) * 64 + c) * 64 + d \<Longrightarrow> base64url_bytes 4 n = map_option Inr (unsextets [a, b, c, d])"
    "unat n = (a * 64 + b) * 64 + c \<Longrightarrow>
     base64url_bytes 3 n = Some (case unsextets [a, b, c] of None \<Rightarrow> Inl JoseBase64 | Some bs \<Rightarrow> Inr bs)"
    "unat n = a * 64 + b \<Longrightarrow>
     base64url_bytes 2 n = Some (case unsextets [a, b] of None \<Rightarrow> Inl JoseBase64 | Some bs \<Rightarrow> Inr bs)"
proof -
  note r = regroup_sextets(5-7) [OF assms]
  have p: "(2 :: nat) ^ 16 = 256 * 256" "(2 :: nat) ^ 8 = 256" "(2 :: nat) ^ 10 = 256 * 4" "(2 :: nat) ^ 2 = 4" "(2 :: nat) ^ 4 = 16"
    by simp_all
  show "base64url_bytes 4 n = map_option Inr (unsextets [a, b, c, d])" if "unat n = ((a * 64 + b) * 64 + c) * 64 + d"
  proof -
    note q = digits256 [OF trans [OF that regroup_back(1)] r(1,2,3)]
    have "ucast (drop_bit 16 n) = to_byte (a * 4 + b div 16)" "ucast (drop_bit 8 n) = to_byte (b mod 16 * 16 + c div 4)"
      "ucast n = to_byte (c mod 4 * 64 + d)"
      by (rule ucast_to_byte; simp only: unat_drop_bit p q)+
    then show ?thesis by (simp add: base64url_bytes_def)
  qed
  show "base64url_bytes 3 n = Some (case unsextets [a, b, c] of None \<Rightarrow> Inl JoseBase64 | Some bs \<Rightarrow> Inr bs)"
    if "unat n = (a * 64 + b) * 64 + c"
  proof -
    note q = digits256 [OF trans [OF that regroup_back(2)] r(1,2)]
    have "ucast (drop_bit 10 n) = to_byte (a * 4 + b div 16)" "ucast (drop_bit 2 n) = to_byte (b mod 16 * 16 + c div 4)"
      by (rule ucast_to_byte; simp only: unat_drop_bit p q mod_less_divisor zero_less_numeral)+
    moreover have "n AND 3 = 0 \<longleftrightarrow> c mod 4 = 0"
      unfolding unat_eq_zero [symmetric] and_low32 by (simp only: q mod_less_divisor zero_less_numeral)
    ultimately show ?thesis by (simp add: base64url_bytes_def)
  qed
  show "base64url_bytes 2 n = Some (case unsextets [a, b] of None \<Rightarrow> Inl JoseBase64 | Some bs \<Rightarrow> Inr bs)"
    if "unat n = a * 64 + b"
  proof -
    have n: "unat n = (a * 4 + b div 16) * 16 + b mod 16" using that regroup_back(3) [of a b] by simp
    have l: "b mod 16 < 16" by simp
    have "ucast (drop_bit 4 n) = to_byte (a * 4 + b div 16)"
      by (rule ucast_to_byte) (simp only: unat_drop_bit p n glue_div_mod(1) [OF l] mod_less [OF r(1)])
    moreover have "n AND 15 = 0 \<longleftrightarrow> b mod 16 = 0"
      unfolding unat_eq_zero [symmetric] and_low32 n by (simp only: glue_div_mod(2) [OF l])
    ultimately show ?thesis by (simp add: base64url_bytes_def)
  qed
qed

lemma base64url_group_step:
  assumes "unat n < 2 ^ 26" "v < 64"
  shows "base64url_group ((URL_ALPHABET ! v) # cs) n = base64url_group cs (push_bit 6 n OR word_of_nat v)"
    "unat (push_bit 6 n OR word_of_nat v) = unat n * 64 + v"
proof -
  show "base64url_group ((URL_ALPHABET ! v) # cs) n = base64url_group cs (push_bit 6 n OR word_of_nat v)"
    using table_lookup [OF url_decode_table assms(2)] by simp
  have v: "unat (word_of_nat v :: u32) = v" using assms(2) by (simp add: unat_of_nat)
  have "unat (word_of_nat v OR push_bit 6 n) = unat (word_of_nat v :: u32) + unat n * 2 ^ 6"
    using assms v by (intro unat_or_shift) simp_all
  then show "unat (push_bit 6 n OR word_of_nat v) = unat n * 64 + v" by (simp only: v or.commute) simp
qed

lemma base64url_group_val:
  assumes "\<forall>v \<in> set vs. v < 64" "unat n < 64 ^ k" "k + length vs \<le> 5"
  shows "\<exists>m. base64url_group (map (\<lambda>v. URL_ALPHABET ! v) vs) n = Inr m \<and> unat m = fold (\<lambda>v a. a * 64 + v) vs (unat n)"
  using assms
proof (induction vs arbitrary: n k)
  case (Cons v vs)
  have v: "v < 64" using Cons.prems(1) by simp
  have "(64 :: nat) ^ k \<le> 64 ^ 4" using Cons.prems(3) by (intro power_increasing) simp_all
  then have "unat n < 2 ^ 26" using Cons.prems(2) by simp
  note s = base64url_group_step [OF this v]
  have "unat n * 64 + v < 64 ^ k * 64" by (rule glue_lt [OF Cons.prems(2) v])
  then have "unat (push_bit 6 n OR word_of_nat v) < 64 ^ Suc k" by (simp only: s(2) power_Suc mult.commute)
  then show ?case using Cons.IH [of "push_bit 6 n OR word_of_nat v" "Suc k"] Cons.prems s by simp
qed simp

lemma base64url_group_err: "\<exists>c \<in> set cs. value_of c = None \<Longrightarrow> base64url_group cs n = Inl JoseBase64"
  by (induction cs arbitrary: n) (auto split: option.splits)

abbreviation url_enc :: "nat list \<Rightarrow> bytes" where
  "url_enc vs \<equiv> map (\<lambda>v. URL_ALPHABET ! v) vs"

lemma base64url_group_start:
  "\<forall>v \<in> set vs. v < 64 \<Longrightarrow> length vs \<le> 4 \<Longrightarrow>
   \<exists>m. base64url_group (url_enc vs) 0 = Inr m \<and> unat m = fold (\<lambda>v a. a * 64 + v) vs 0"
  using base64url_group_val [of vs 0 1] by simp

lemma base64url_quartet:
  assumes "a < 64" "b < 64" "c < 64" "d < 64"
  shows "base64url_decode_chunks (url_enc [a, b, c, d] # cs) out
    = base64url_decode_chunks cs (out @ the (unsextets [a, b, c, d]))"
proof -
  obtain m where m: "base64url_group (url_enc [a, b, c, d]) 0 = Inr m" "unat m = ((a * 64 + b) * 64 + c) * 64 + d"
    using base64url_group_start [of "[a, b, c, d]"] assms by auto
  have l: "length (url_enc [a, b, c, d]) = 4" by simp
  show ?thesis unfolding base64url_decode_chunks.simps m(1) l using base64url_bytes_eq(1) [OF assms m(2)] by simp
qed

lemma list_by_four:
  obtains "s = []" | a where "s = [a]" | a b where "s = [a, b]" | a b c where "s = [a, b, c]"
    | a b c d r where "s = a # b # c # d # r"
  by (metis list.exhaust)

lemma base64url_decode_chunks_eq:
  "\<forall>v \<in> set vs. v < 64 \<Longrightarrow> length vs mod 4 \<noteq> 1 \<Longrightarrow>
   base64url_decode_chunks (chunks 4 (url_enc vs)) out
   = Some (case unsextets vs of None \<Rightarrow> Inl JoseBase64 | Some d \<Rightarrow> Inr (out @ d))"
proof (induction vs arbitrary: out rule: unsextets.induct)
  case (3 a b)
  obtain m where "base64url_group (url_enc [a, b]) 0 = Inr m" "unat m = a * 64 + b"
    using base64url_group_start [of "[a, b]"] 3(1) by auto
  then show ?case using base64url_bytes_eq(3) [of a b 0 0 m] 3(1) by (simp add: chunks_4 numeral_2_eq_2 del: unsextets.simps split: option.splits)
next
  case (4 a b c)
  obtain m where "base64url_group (url_enc [a, b, c]) 0 = Inr m" "unat m = (a * 64 + b) * 64 + c"
    using base64url_group_start [of "[a, b, c]"] 4(1) by auto
  then show ?case using base64url_bytes_eq(2) [of a b c 0 m] 4(1) by (simp add: chunks_4 numeral_3_eq_3 del: unsextets.simps split: option.splits)
next
  case (5 a b c d vs)
  have "chunks 4 (url_enc (a # b # c # d # vs)) = url_enc [a, b, c, d] # chunks 4 (url_enc vs)" by (simp add: chunks_4)
  moreover have "length vs mod 4 \<noteq> 1" using 5(3) mod_add_self2 [of "length vs" 4] by simp
  ultimately show ?case using 5(1,2) base64url_quartet [of a b c d]
    by (simp only: list.set ball_simps simp_thms) (simp split: option.split)
qed (simp_all add: chunks_4)

lemma base64url_decode_chunks_err:
  "\<exists>c \<in> set s. value_of c = None \<Longrightarrow> length s mod 4 \<noteq> 1 \<Longrightarrow>
   base64url_decode_chunks (chunks 4 s) out = Some (Inl JoseBase64)"
proof (induction s arbitrary: out rule: length_induct)
  case (1 s)
  show ?case
  proof (cases s rule: list_by_four)
    case (5 a b c d r)
    have ch: "chunks 4 s = [a, b, c, d] # chunks 4 r" by (simp add: 5 chunks_4)
    show ?thesis
    proof (cases "\<exists>x \<in> set [a, b, c, d]. value_of x = None")
      case True
      then show ?thesis unfolding ch using base64url_group_err [of "[a, b, c, d]" 0]
        by (simp only: base64url_decode_chunks.simps) simp
    next
      case False
      then have al: "\<forall>x \<in> set [a, b, c, d]. map_option unat (value_of x) \<noteq> None" by auto
      obtain vs where vs: "[a, b, c, d] = url_enc vs" "\<forall>v \<in> set vs. v < 64"
        using url_alphabet.map_dec [OF al] by (elim exE conjE)
      then obtain w x y z where w: "vs = [w, x, y, z]" by (auto simp: Cons_eq_map_conv)
      have "base64url_decode_chunks (chunks 4 s) out = base64url_decode_chunks (chunks 4 r) (out @ the (unsextets [w, x, y, z]))"
        unfolding ch vs(1) unfolding w using vs(2) by (intro base64url_quartet) (simp_all add: w)
      moreover have "\<exists>x \<in> set r. value_of x = None" using 1(2) False by (auto simp: 5)
      moreover have "length r mod 4 \<noteq> 1" using 1(3) mod_add_self2 [of "length r" 4] by (simp add: 5)
      ultimately show ?thesis using 1(1) by (simp add: 5)
    qed
  next
    case (3 a b)
    then show ?thesis using 1(2) base64url_group_err [of s 0] by (simp only: chunks_4 base64url_decode_chunks.simps) simp
  next
    case (4 a b c)
    then show ?thesis using 1(2) base64url_group_err [of s 0] by (simp only: chunks_4 base64url_decode_chunks.simps) simp
  qed (use 1(2,3) in simp_all)
qed

text \<open>C39. The unpadded URL-safe base64 of JOSE decodes exactly what it encodes: a string decodes to \<open>d\<close> if and only
if it is the encoding of \<open>d\<close>.  So characters outside the alphabet, padding, a length of 1 modulo 4 and non-zero
trailing bits are all errors, two strings never decode to the same bytes, and the \<open>unreachable\<close> arm is not reached.\<close>

theorem base64url_exact:
  "(base64url_decode s = Some (Inr d) \<longleftrightarrow> s = base64url_encode d) \<and> base64url_decode s \<noteq> None"
proof (cases "\<exists>c \<in> set s. value_of c = None")
  case True
  have "value_of c \<noteq> None" if "c \<in> set (base64url_encode d)" for c
    using that sextets_lt [of d] table_lookup [OF url_decode_table] by (auto simp: base64url_encode_eq)
  then have "s \<noteq> base64url_encode d" using True by metis
  then show ?thesis using True base64url_decode_chunks_err [of s "[]"] by (simp add: base64url_decode_def)
next
  case False
  then obtain vs where vs: "s = url_enc vs" "\<forall>v \<in> set vs. v < 64" using url_alphabet.map_dec [of s] by auto
  have e: "s = base64url_encode d \<longleftrightarrow> unsextets vs = Some d"
    unfolding vs(1) base64url_encode_eq url_alphabet.map_enc_inj [OF vs(2) sextets_lt] unsextets_iff [OF vs(2)] ..
  show ?thesis
  proof (cases "length vs mod 4 = 1")
    case True
    then have "unsextets vs \<noteq> Some d" using length_sextets [of d] unsextets_iff [OF vs(2), of d] by (auto split: if_splits)
    then show ?thesis using True e by (simp add: base64url_decode_def vs(1))
  next
    case False
    then show ?thesis using e base64url_decode_chunks_eq [OF vs(2) False, of "[]"]
      by (auto simp: base64url_decode_def vs(1) split: option.splits)
  qed
qed

section \<open>Decoding the padded form\<close>

fun unpack :: "nat list \<Rightarrow> bytes \<Rightarrow> nat \<Rightarrow> nat \<Rightarrow> bytes \<times> nat \<times> nat" where
  "unpack [] out r k = (out, r, k)"
| "unpack (v # vs) out r k =
     (if 2 \<le> k then unpack vs (out @ [to_byte ((r * 64 + v) div 2 ^ (k - 2))]) ((r * 64 + v) mod 2 ^ (k - 2)) (k - 2)
      else unpack vs out (r * 64 + v) (k + 6))"

definition b64_view :: "b64_state \<Rightarrow> bytes \<times> nat \<times> nat" where
  "b64_view st = (b64_out st, unat (b64_acc st) mod 2 ^ b64_bits st, b64_bits st)"

lemma b64_acc_low:
  assumes "unat (v :: u8) < 64" "k \<le> 6"
  shows "unat (push_bit 6 acc OR ucast v :: u32) mod 2 ^ (k + 6) = unat acc mod 2 ^ k * 64 + unat v"
proof -
  have v: "unat (ucast v :: u32) = unat v" using assms(1) by (simp add: unat_ucast)
  have p: "(64 :: nat) \<le> 2 ^ (k + 6)" by (simp add: power_add)
  have tv: "take_bit (k + 6) (ucast v :: u32) = ucast v"
    using assms(1) p v by (simp add: word_unat_eq_iff unsigned_take_bit_eq take_bit_nat_eq_self)
  have "unat (push_bit 6 acc OR ucast v :: u32) mod 2 ^ (k + 6) = unat (take_bit (k + 6) (push_bit 6 acc OR ucast v :: u32))"
    by (simp only: unsigned_take_bit_eq take_bit_eq_mod [where ?'a = nat])
  also have "take_bit (k + 6) (push_bit 6 acc OR ucast v :: u32) = ucast v OR push_bit 6 (take_bit k acc)"
    by (simp add: take_bit_or take_bit_push_bit tv or.commute)
  also have "unat \<dots> = unat (ucast v :: u32) + unat (take_bit k acc) * 2 ^ 6"
  proof (rule unat_or_shift)
    show "unat (ucast v :: u32) < 2 ^ 6" using assms(1) v by simp
    have "unat (take_bit k acc) < 2 ^ k" by (simp add: unsigned_take_bit_eq)
    also have "(2 :: nat) ^ k \<le> 2 ^ 6" using assms(2) by (intro power_increasing) simp_all
    finally show "unat (take_bit k acc) * 2 ^ 6 < 2 ^ LENGTH(32)" by simp
  qed
  also have "\<dots> = unat acc mod 2 ^ k * 64 + unat v" by (simp add: v unsigned_take_bit_eq take_bit_eq_mod [where ?'a = nat])
  finally show ?thesis .
qed

lemma b64_push_view:
  assumes "unat v < 64" "b64_bits st \<le> 6" "even (b64_bits st)"
  shows "b64_view (b64_push v st) = unpack [unat v] (b64_out st) (unat (b64_acc st) mod 2 ^ b64_bits st) (b64_bits st)"
    "b64_bits (b64_push v st) \<le> 6" "even (b64_bits (b64_push v st))" "b64_padding (b64_push v st) = b64_padding st"
    "b64_total (b64_push v st) = b64_total st + 1"
proof -
  let ?k = "b64_bits st" and ?acc = "push_bit 6 (b64_acc st) OR ucast v :: u32"
  note low = b64_acc_low [OF assms(1,2), of "b64_acc st"]
  have "?k = 0" if "\<not> 2 \<le> ?k" using assms(3) that by (cases "?k = 1") auto
  then show "b64_bits (b64_push v st) \<le> 6" "even (b64_bits (b64_push v st))" "b64_padding (b64_push v st) = b64_padding st"
    "b64_total (b64_push v st) = b64_total st + 1"
    using assms(2,3) by (auto simp: b64_push_def Let_def)
  show "b64_view (b64_push v st) = unpack [unat v] (b64_out st) (unat (b64_acc st) mod 2 ^ ?k) ?k"
  proof (cases "2 \<le> ?k")
    case True
    have split: "unat ?acc mod (2 ^ (?k - 2) * 256) = 2 ^ (?k - 2) * (unat ?acc div 2 ^ (?k - 2) mod 256) + unat ?acc mod 2 ^ (?k - 2)"
      by (rule mod_mult2_eq)
    have pw: "(2 :: nat) ^ (?k - 2) * 256 = 2 ^ (?k + 6)"
    proof -
      have "(2 :: nat) ^ (?k - 2) * 2 ^ 8 = 2 ^ (?k - 2 + 8)" by (simp only: power_add)
      then show ?thesis using True by (simp add: add.commute)
    qed
    define x where "x = unat (b64_acc st) mod 2 ^ ?k * 64 + unat v"
    have x: "x = 2 ^ (?k - 2) * (unat ?acc div 2 ^ (?k - 2) mod 256) + unat ?acc mod 2 ^ (?k - 2)"
      using split unfolding pw low x_def .
    have "x div 2 ^ (?k - 2) = unat ?acc div 2 ^ (?k - 2) mod 256" "x mod 2 ^ (?k - 2) = unat ?acc mod 2 ^ (?k - 2)"
      unfolding x by simp_all
    moreover from this(1) have "ucast (drop_bit (?k - 2) ?acc) = to_byte (x div 2 ^ (?k - 2))"
      by (intro ucast_to_byte) (simp only: unat_drop_bit)
    ultimately show ?thesis using True by (simp add: b64_push_def b64_view_def Let_def x_def [symmetric])
  next
    case False
    then show ?thesis using low by (simp add: b64_push_def b64_view_def Let_def)
  qed
qed

lemma decode_char_plain: "decode_char c = Some v \<Longrightarrow> \<not> is_ascii_whitespace c \<and> c \<noteq> 0x3d"
  by (auto simp: decode_char_def is_ascii_whitespace_def split: if_splits)

abbreviation pem_enc :: "nat list \<Rightarrow> bytes" where
  "pem_enc vs \<equiv> map (\<lambda>v. ALPHABET ! v) vs"

lemma base64_loop_data:
  assumes "\<forall>v \<in> set vs. v < 64" "b64_bits st \<le> 6" "even (b64_bits st)" "b64_padding st = 0"
  shows "\<exists>st'. base64_decode_loop (pem_enc vs @ cs) st = base64_decode_loop cs st' \<and> b64_padding st' = 0
    \<and> b64_view st' = unpack vs (b64_out st) (unat (b64_acc st) mod 2 ^ b64_bits st) (b64_bits st)
    \<and> b64_total st' = b64_total st + length vs"
  using assms
proof (induction vs arbitrary: st)
  case Nil
  then show ?case by (intro exI [of _ st]) (simp add: b64_view_def)
next
  case (Cons v vs)
  let ?w = "word_of_nat v :: u8" and ?c = "ALPHABET ! v"
  have v: "v < 64" "unat ?w = v" using Cons.prems(1) by (simp_all add: unat_of_nat)
  have d: "decode_char ?c = Some ?w" by (rule table_lookup [OF decode_table v(1)])
  have run: "base64_decode_loop (pem_enc (v # vs) @ cs) st = base64_decode_loop (pem_enc vs @ cs) (b64_push ?w st)"
    using d decode_char_plain [OF d] Cons.prems(4) by simp
  have "unat ?w < 64" using v by simp
  note p = b64_push_view [OF this Cons.prems(2,3)]
  obtain st' where s: "base64_decode_loop (pem_enc vs @ cs) (b64_push ?w st) = base64_decode_loop cs st'" "b64_padding st' = 0"
    "b64_view st' = unpack vs (b64_out (b64_push ?w st)) (unat (b64_acc (b64_push ?w st)) mod 2 ^ b64_bits (b64_push ?w st)) (b64_bits (b64_push ?w st))"
    "b64_total st' = b64_total (b64_push ?w st) + length vs"
    using Cons.IH [of "b64_push ?w st"] Cons.prems p by auto
  have "unpack (v # vs) (b64_out st) (unat (b64_acc st) mod 2 ^ b64_bits st) (b64_bits st) = b64_view st'"
    unfolding s(3) using p(1) unfolding b64_view_def v(2) by (auto split: if_splits)
  then show ?case using run s(1,2,4) p(5) by (intro exI [of _ st']) simp
qed

lemma eq_sign_plain: "\<not> is_ascii_whitespace 0x3d"
  by (simp add: is_ascii_whitespace_def)

lemma base64_loop_pad:
  "base64_decode_loop (replicate p 0x3d) st
   = Inr (st\<lparr>b64_padding := b64_padding st + word_of_nat p, b64_total := b64_total st + p\<rparr>)"
  by (induction p arbitrary: st) (simp_all add: eq_sign_plain add.assoc)

lemma base64_loop_inv:
  assumes "base64_decode_loop s st = Inr st'" "\<forall>c \<in> set s. \<not> is_ascii_whitespace c"
    "unat (b64_padding st) + count_list s 0x3d < 2 ^ 32"
  shows "\<exists>data p. s = data @ replicate p 0x3d \<and> (\<forall>c \<in> set data. map_option unat (decode_char c) \<noteq> None)
    \<and> (0 < b64_padding st \<longrightarrow> data = [])"
  using assms
proof (induction s arbitrary: st)
  case Nil
  show ?case by (intro exI [of _ "[]"] exI [of _ 0]) simp
next
  case (Cons c s)
  show ?case
  proof (cases "c = 0x3d")
    case True
    let ?st = "st\<lparr>b64_padding := b64_padding st + 1, b64_total := b64_total st + 1\<rparr>"
    have pad: "unat (b64_padding ?st) = unat (b64_padding st) + 1"
      using Cons.prems(3) True by (simp add: unat_word_ariths)
    have "\<exists>data p. s = data @ replicate p 0x3d \<and> (\<forall>c \<in> set data. map_option unat (decode_char c) \<noteq> None)
      \<and> (0 < b64_padding ?st \<longrightarrow> data = [])"
      using Cons.prems True pad by (intro Cons.IH [of ?st]) (simp_all split: if_splits)
    moreover have "0 < b64_padding ?st" using pad by (simp add: word_less_nat_alt)
    ultimately obtain p where "s = replicate p 0x3d" by auto
    then show ?thesis using True by (intro exI [of _ "[]"] exI [of _ "Suc p"]) simp
  next
    case False
    then obtain v where v: "decode_char c = Some v" "b64_padding st = 0" "base64_decode_loop s (b64_push v st) = Inr st'"
      using Cons.prems(1,2) by (auto split: if_splits option.splits simp: word_gt_0)
    have "b64_padding (b64_push v st) = 0" using v(2) by (simp add: b64_push_def Let_def)
    then obtain data p where "s = data @ replicate p 0x3d" "\<forall>c \<in> set data. map_option unat (decode_char c) \<noteq> None"
      using Cons.IH [OF v(3)] Cons.prems(2,3) v(2) False by auto
    then show ?thesis using v(1,2) by (intro exI [of _ "c # data"] exI [of _ p]) simp
  qed
qed

lemma base64_loop_filter: "base64_decode_loop s st = base64_decode_loop (filter (\<lambda>c. \<not> is_ascii_whitespace c) s) st"
  by (induction s arbitrary: st) (auto split: option.splits)

lemma base64_finish_iff:
  "base64_finish st = Inr d
   \<longleftrightarrow> b64_total st mod 4 = 0 \<and> unat (b64_padding st) \<le> 2 \<and> unat (b64_acc st) mod 2 ^ b64_bits st = 0 \<and> d = b64_out st"
proof -
  have m: "(push_bit k 1 - 1 :: u32) = mask k" for k by (simp add: mask_eq_exp_minus_1)
  have "b64_acc st AND (push_bit (b64_bits st) 1 - 1) = 0 \<longleftrightarrow> unat (b64_acc st) mod 2 ^ b64_bits st = 0"
    unfolding m unat_eq_zero [symmetric] unat_and_mask ..
  then show ?thesis by (auto simp: base64_finish_def word_less_nat_alt not_less)
qed

lemma carry_bits:
  fixes a b c :: nat
  shows "(a * 64 + b) div 16 = a * 4 + b div 16" "(a * 64 + b) mod 16 = b mod 16"
    "(a * 64 + c) div 4 = a * 16 + c div 4" "(a * 64 + c) mod 4 = c mod 4"
  using div_mult_self1 [of 16 b "a * 4"] mod_mult_self1 [of b "a * 4" 16]
    div_mult_self1 [of 4 c "a * 16"] mod_mult_self1 [of c "a * 16" 4] by (simp_all add: algebra_simps)

lemma unpack_quartet: "unpack (a # b # c # d # vs) out 0 0 = unpack vs (out @ the (unsextets [a, b, c, d])) 0 0"
  using carry_bits(1,2) [of a b] carry_bits(3,4) [of "b mod 16" c] by simp

lemma unpack_unsextets:
  assumes "length vs mod 4 \<noteq> 1" "unpack vs out 0 0 = (out', r, k)"
  shows "case unsextets vs of None \<Rightarrow> r \<noteq> 0 | Some d \<Rightarrow> r = 0 \<and> out' = out @ d"
  using assms
proof (induction vs arbitrary: out rule: unsextets.induct)
  case (3 a b)
  then show ?case using carry_bits(1,2) [of a b] by auto
next
  case (4 a b c)
  then show ?case using carry_bits(1,2) [of a b] carry_bits(3,4) [of "b mod 16" c] by auto
next
  case (5 a b c d vs)
  have l: "length vs mod 4 \<noteq> 1" using 5(2) mod_add_self2 [of "length vs" 4] by simp
  have "unpack vs (out @ the (unsextets [a, b, c, d])) 0 0 = (out', r, k)" using 5(3) unfolding unpack_quartet .
  from 5(1) [OF l this] show ?case by (auto split: option.splits)
qed simp_all

lemma sextets_padded: "(length (sextets d) + pad_len d) mod 4 = 0"
  by (induction d rule: sextets.induct) simp_all

lemma pad_unique: "(l + p) mod 4 = (0 :: nat) \<Longrightarrow> (l + q) mod 4 = 0 \<Longrightarrow> p \<le> 2 \<Longrightarrow> q \<le> 2 \<Longrightarrow> p = q"
  by presburger

lemma base64_run:
  assumes "\<forall>v \<in> set vs. v < 64" "p < 2 ^ 32"
  shows "and_then (base64_decode_loop (pem_enc vs @ replicate p 0x3d) b64_start) base64_finish = Inr d
    \<longleftrightarrow> (length vs + p) mod 4 = 0 \<and> p \<le> 2 \<and> unsextets vs = Some d"
proof -
  obtain st where run: "base64_decode_loop (pem_enc vs @ replicate p 0x3d) b64_start = base64_decode_loop (replicate p 0x3d) st"
    and st: "b64_padding st = 0" "b64_view st = unpack vs [] 0 0" "b64_total st = length vs"
    using base64_loop_data [OF assms(1), of b64_start "replicate p 0x3d"] by (auto simp: b64_start_def)
  let ?st = "st\<lparr>b64_padding := word_of_nat p, b64_total := length vs + p\<rparr>"
  have "base64_decode_loop (pem_enc vs @ replicate p 0x3d) b64_start = Inr ?st"
    unfolding run base64_loop_pad by (simp add: st)
  then have f: "and_then (base64_decode_loop (pem_enc vs @ replicate p 0x3d) b64_start) base64_finish = Inr d
    \<longleftrightarrow> (length vs + p) mod 4 = 0 \<and> p \<le> 2 \<and> unat (b64_acc st) mod 2 ^ b64_bits st = 0 \<and> d = b64_out st"
    using assms(2) by (simp add: base64_finish_iff unat_of_nat)
  show ?thesis
  proof (cases "(length vs + p) mod 4 = 0 \<and> p \<le> 2")
    case True
    have "length vs mod 4 \<noteq> 1" using True by presburger
    from unpack_unsextets [OF this st(2) [unfolded b64_view_def, symmetric]] True
    show ?thesis unfolding f by (auto split: option.splits)
  qed (use f in auto)
qed

lemma base64_decode_iff:
  assumes "count_list s 0x3d < 2 ^ 32"
  shows "base64_decode s = Inr d \<longleftrightarrow> filter (\<lambda>c. \<not> is_ascii_whitespace c) s = base64_encode d"
proof -
  define f where "f = filter (\<lambda>c. \<not> is_ascii_whitespace c) s"
  have dec: "base64_decode s = and_then (base64_decode_loop f b64_start) base64_finish"
    using base64_loop_filter [of s b64_start] by (simp add: base64_decode_def f_def)
  have plain: "\<forall>c \<in> set f. \<not> is_ascii_whitespace c" by (simp add: f_def)
  have "count_list f 0x3d = count_list s 0x3d" unfolding f_def using eq_sign_plain by (induction s) auto
  then have cnt: "unat (b64_padding b64_start) + count_list f 0x3d < 2 ^ 32" using assms by (simp add: b64_start_def)
  show ?thesis unfolding f_def [symmetric]
  proof
    assume d: "base64_decode s = Inr d"
    then obtain st where "base64_decode_loop f b64_start = Inr st" unfolding dec by (cases "base64_decode_loop f b64_start") auto
    from base64_loop_inv [OF this plain cnt] obtain data p where f: "f = data @ replicate p 0x3d"
      "\<forall>c \<in> set data. map_option unat (decode_char c) \<noteq> None" by blast
    obtain vs where vs: "data = pem_enc vs" "\<forall>v \<in> set vs. v < 64" using pem_alphabet.map_dec [OF f(2)] by (elim exE conjE)
    have "count_list (replicate p 0x3d) (0x3d :: u8) = p" by (induction p) simp_all
    then have "p < 2 ^ 32" using cnt unfolding f(1) count_list_append by simp
    from base64_run [OF vs(2) this, of d] d
    have r: "(length vs + p) mod 4 = 0" "p \<le> 2" "unsextets vs = Some d" unfolding dec f(1) vs(1) by simp_all
    then have "vs = sextets d" using unsextets_iff [OF vs(2)] by simp
    moreover have "pad_len d \<le> 2" by (simp add: pad_len_def)
    ultimately have "p = pad_len d" using pad_unique [OF r(1) _ r(2)] sextets_padded [of d] by simp
    then show "f = base64_encode d" unfolding f(1) vs(1) base64_encode_eq \<open>vs = sextets d\<close> by simp
  next
    assume f: "f = base64_encode d"
    have p: "pad_len d \<le> 2" "pad_len d < 2 ^ 32" by (simp_all add: pad_len_def)
    show "base64_decode s = Inr d" unfolding dec f base64_encode_eq base64_run [OF sextets_lt p(2)]
      using p(1) sextets_padded unsextets_sextets by simp
  qed
qed

text \<open>C11. PEM base64 is exact up to white space: with fewer than 2^32 padding signs (the width of the counter), a
text decodes to \<open>d\<close> if and only if its non-blank characters are the padded encoding of \<open>d\<close>.  So data after padding,
wrong or missing padding, foreign characters and non-zero trailing bits are rejected, and no other text decodes to \<open>d\<close>.\<close>

theorem base64_exact:
  assumes "count_list s 0x3d < 2 ^ 32"
  shows "base64_decode s = Inr d \<longleftrightarrow> filter (\<lambda>c. \<not> is_ascii_whitespace c) s = base64_encode d"
  by (rule base64_decode_iff [OF assms])

theorem base64_exact_witness:
  "base64_decode (ascii ''Zm9v Yg=='') = Inr (ascii ''foob'') \<and> count_list (ascii ''Zm9v Yg=='') 0x3d < 2 ^ 32"
proof -
  have c: "count_list (ascii ''Zm9v Yg=='') 0x3d < 2 ^ 32" by (rule le_less_trans [OF count_le_length]) (simp add: ascii_def)
  have "filter (\<lambda>c. \<not> is_ascii_whitespace c) (ascii ''Zm9v Yg=='') = base64_encode (ascii ''foob'')" by code_simp
  from base64_exact [OF c, THEN iffD2, OF this] c show ?thesis by (rule conjI)
qed

end
