(* ===== verification/Oid.thy ===== *)
theory Oid
  imports Der
begin

text \<open>
  Object identifiers (\<open>der/oid.rs\<close>): base-128 sub-identifiers, encoding and parsing of arcs, and the dotted
  decimal form.  A failed assertion of the encoder is \<open>None\<close>.
\<close>

section \<open>Operations\<close>

function base128_groups :: "u64 \<Rightarrow> bytes" where
  "base128_groups v = (let w = drop_bit 7 v in ucast (v AND 0x7f) # (if w = 0 then [] else base128_groups w))"
  by pat_completeness auto
termination
proof (relation "measure unat")
  show "(w, v) \<in> measure unat" if "w = drop_bit 7 v" "w \<noteq> 0" for v w :: u64
    using that by (auto simp: unat_drop_bit intro!: div_less_dividend) (metis div_0 unat_0 unat_drop_bit unat_eq_zero neq0_conv)
qed simp

declare base128_groups.simps [simp del]

definition push_base128 :: "u64 \<Rightarrow> bytes" where
  "push_base128 value = (
     let groups = base128_groups value in
     map (\<lambda>i. if 0 < i then groups ! i OR 0x80 else groups ! i) (rev [0..<length groups]))"

definition encode_oid_arcs :: "u64 list \<Rightarrow> bytes option" where
  "encode_oid_arcs arcs =
     (if length arcs < 2 then None
      else if 2 < arcs ! 0 then None
      else
        let first = (if arcs ! 0 < 2 then (if arcs ! 1 < 40 then Some (40 * arcs ! 0 + arcs ! 1) else None)
                     else if 80 + unat (arcs ! 1) < 2 ^ 64 then Some (80 + arcs ! 1) else None)
        in case first of None \<Rightarrow> None
           | Some f \<Rightarrow> Some (push_base128 f @ concat (map push_base128 (drop 2 arcs))))"

definition push_arc :: "u64 \<Rightarrow> u64 list \<Rightarrow> u64 list" where
  "push_arc acc arcs =
     (if arcs = [] then (if acc < 80 then [acc div 40, acc mod 40] else [2, acc - 80])
      else arcs @ [acc])"

fun parse_oid_loop :: "bytes \<Rightarrow> u64 list \<Rightarrow> u64 \<Rightarrow> bool \<Rightarrow> der_error + u64 list" where
  "parse_oid_loop [] arcs acc started = (if started then Inl Malformed else Inr arcs)"
| "parse_oid_loop (b # bs) arcs acc started =
     (if \<not> started \<and> b = 0x80 then Inl Malformed
      else if drop_bit 57 acc \<noteq> 0 then Inl Malformed
      else
        let acc = push_bit 7 acc OR ucast (b AND 0x7f) in
        if b AND 0x80 = 0 then parse_oid_loop bs (push_arc acc arcs) 0 False
        else parse_oid_loop bs arcs acc True)"

definition parse_oid :: "bytes \<Rightarrow> der_error + u64 list" where
  "parse_oid body = (if body = [] then Inl Malformed else parse_oid_loop body [] 0 False)"

fun arc_digits :: "nat \<Rightarrow> string" where
  "arc_digits v = (if v = 0 then [] else char_of (48 + v mod 10) # arc_digits (v div 10))"

declare arc_digits.simps [simp del]

definition arc_to_string :: "u64 \<Rightarrow> string" where
  "arc_to_string v = (if v = 0 then ''0'' else rev (arc_digits (unat v)))"

fun join_arcs :: "u64 list \<Rightarrow> string" where
  "join_arcs [] = ''''"
| "join_arcs [a] = arc_to_string a"
| "join_arcs (a # as) = arc_to_string a @ ''.'' @ join_arcs as"

definition oid_to_string :: "bytes \<Rightarrow> der_error + string" where
  "oid_to_string body = and_then (parse_oid body) (\<lambda>arcs. Inr (join_arcs arcs))"

definition oid_tlv :: "u64 list \<Rightarrow> bytes option" where
  "oid_tlv arcs = map_option encode_oid (encode_oid_arcs arcs)"

section \<open>Base-128 groups\<close>

primrec gval :: "bytes \<Rightarrow> nat" where
  "gval [] = 0"
| "gval (g # gs) = unat g + 128 * gval gs"

definition groups_ok :: "bytes \<Rightarrow> bool" where
  "groups_ok gs \<longleftrightarrow> gs \<noteq> [] \<and> (\<forall>g \<in> set gs. unat g < 128) \<and> (length gs = 1 \<or> last gs \<noteq> 0)"

lemma low7: "unat (ucast (v AND 0x7f :: u64) :: u8) = unat v mod 128"
proof -
  have "(0x7f :: u64) = mask 7" by (simp add: mask_eq_exp_minus_1)
  then have "unat (v AND 0x7f) = unat v mod 2 ^ 7" by (simp only: unat_and_mask)
  moreover have "unat v mod 128 < 256" using mod_less_divisor [of 128 "unat v"] by linarith
  ultimately show ?thesis by (simp add: unat_ucast)
qed

lemma gval_append: "gval (xs @ ys) = gval xs + 128 ^ length xs * gval ys"
  by (induction xs) (simp_all add: algebra_simps)

lemma base128_groups_val: "gval (base128_groups v) = unat v" "groups_ok (base128_groups v)"
proof (induction v rule: base128_groups.induct)
  case (1 v)
  let ?g = "ucast (v AND 0x7f) :: u8" and ?w = "drop_bit 7 v"
  have g: "unat ?g = unat v mod 128" by (rule low7)
  have w: "unat ?w = unat v div 128" by (simp add: unat_drop_bit)
  have eq: "base128_groups v = ?g # (if ?w = 0 then [] else base128_groups ?w)" by (subst base128_groups.simps) (simp add: Let_def)
  {
    case 1
    show ?case using "1.IH"(1) [OF refl] g w unfolding eq by (cases "?w = 0") simp_all
  next
    case 2
    show ?case
    proof (cases "?w = 0")
      case True
      then show ?thesis using g unfolding eq by (simp add: groups_ok_def)
    next
      case False
      have ih: "groups_ok (base128_groups ?w)" "gval (base128_groups ?w) = unat ?w"
        using "1.IH" [OF refl False] by simp_all
      have "last (base128_groups ?w) \<noteq> 0"
      proof (cases "length (base128_groups ?w) = 1")
        case True
        then obtain x where "base128_groups ?w = [x]" by (auto simp: length_Suc_conv)
        then show ?thesis using ih(2) False by (auto simp: unat_eq_zero)
      qed (use ih(1) in \<open>auto simp: groups_ok_def\<close>)
      then show ?thesis using ih(1) g False unfolding eq by (simp add: groups_ok_def)
    qed
  }
qed

lemma gval_pos: "gs \<noteq> [] \<Longrightarrow> last gs \<noteq> 0 \<Longrightarrow> 0 < gval gs"
  by (induction gs) (auto split: if_splits simp: unat_gt_0)

lemma base128_groups_unique: "groups_ok gs \<Longrightarrow> gval gs = unat v \<Longrightarrow> base128_groups v = gs"
proof (induction gs arbitrary: v)
  case (Cons g gs)
  let ?w = "drop_bit 7 v"
  have v: "unat v = unat g + 128 * gval gs" and g: "unat g < 128"
    using Cons.prems by (simp_all add: groups_ok_def)
  have "unat (ucast (v AND 0x7f) :: u8) = unat g" using low7 [of v] v g by simp
  then have hd: "ucast (v AND 0x7f) = g" by (simp add: word_unat_eq_iff)
  have w: "unat ?w = gval gs" using v g by (simp add: unat_drop_bit)
  show ?case
  proof (cases gs)
    case Nil
    then have "?w = 0" using w by (simp add: unat_eq_zero)
    then show ?thesis using hd Nil by (subst base128_groups.simps) (simp add: Let_def)
  next
    case (Cons a as)
    then have ok: "groups_ok gs" "last gs \<noteq> 0" using Cons.prems(1) by (auto simp: groups_ok_def)
    then have "?w \<noteq> 0" using gval_pos [of gs] w Cons by auto
    then show ?thesis using hd Cons.IH [OF ok(1)] w by (subst base128_groups.simps) (simp add: Let_def)
  qed
qed (simp add: groups_ok_def)

lemma base128_groups_ne: "base128_groups v \<noteq> []" "base128_groups v = hd (base128_groups v) # tl (base128_groups v)"
  using base128_groups_val(2) [of v] by (simp_all add: groups_ok_def)

text \<open>The fixed buffers of the two digit loops are long enough: ten groups and twenty decimal digits.\<close>

lemma gval_ge: "gs \<noteq> [] \<Longrightarrow> last gs \<noteq> 0 \<Longrightarrow> 128 ^ (length gs - 1) \<le> gval gs"
proof (induction gs)
  case (Cons g gs)
  show ?case
  proof (cases "gs = []")
    case True
    then show ?thesis using Cons.prems by (simp add: Suc_leI unat_gt_0)
  next
    case False
    then have "128 ^ (length gs - 1) \<le> gval gs" using Cons by simp
    moreover have "(128 :: nat) ^ length gs = 128 * 128 ^ (length gs - 1)" using False by (cases gs) simp_all
    ultimately show ?thesis by simp
  qed
qed simp

lemma base128_groups_length: "length (base128_groups v) \<le> 10"
proof (cases "length (base128_groups v) = 1")
  case False
  let ?n = "length (base128_groups v)"
  have "last (base128_groups v) \<noteq> 0" using base128_groups_val(2) [of v] False by (simp add: groups_ok_def)
  then have "128 ^ (?n - 1) \<le> unat v" using gval_ge [OF base128_groups_ne(1) [of v]] base128_groups_val(1) [of v] by simp
  also have "\<dots> < 128 ^ 10" using unsigned_less [of v] by (rule less_trans) simp_all
  finally have "?n - 1 < 10" by (rule power_less_imp_less_exp [rotated]) simp
  then show ?thesis by simp
qed simp

lemma arc_digits_length: "v < 10 ^ n \<Longrightarrow> length (arc_digits v) \<le> n"
proof (induction n arbitrary: v)
  case 0
  then show ?case by (subst arc_digits.simps) simp
next
  case (Suc n)
  then have "v div 10 < 10 ^ n" by (simp add: div_less_iff_less_mult mult.commute)
  then show ?case using Suc.IH [of "v div 10"] by (subst arc_digits.simps) simp
qed

lemma arc_digits_length_u64: "length (arc_digits (unat (v :: u64))) \<le> 20"
  by (rule arc_digits_length, rule less_trans [OF unsigned_less]) simp

section \<open>Parsing what was pushed\<close>

abbreviation cont :: "u8 \<Rightarrow> u8" where
  "cont g \<equiv> g OR 0x80"

lemma rev_emit:
  assumes "g \<noteq> []"
  shows "map (\<lambda>i. if 0 < i then f (g ! i) else g ! i) (rev [0..<length g]) = map f (rev (tl g)) @ [hd g]"
proof -
  have "map (\<lambda>i. if 0 < i then f (g ! i) else g ! i) [0..<length g] = hd g # map f (tl g)"
    using assms by (intro nth_equalityI) (auto simp: nth_Cons nth_tl hd_conv_nth split: nat.split simp del: upt_Suc)
  then have "rev (map (\<lambda>i. if 0 < i then f (g ! i) else g ! i) [0..<length g]) = rev (map f (tl g)) @ [hd g]"
    by simp
  then show ?thesis by (simp only: rev_map)
qed

lemma push_base128_eq: "push_base128 v = map cont (rev (tl (base128_groups v))) @ [hd (base128_groups v)]"
  unfolding push_base128_def Let_def by (rule rev_emit [OF base128_groups_ne(1), where f = cont])

lemma bit_0x80: "bit (0x80 :: u8) n \<longleftrightarrow> n = 7"
proof -
  have "(0x80 :: u8) = 2 ^ 7" by simp
  then show ?thesis by (simp only: bit_exp_iff) auto
qed

lemma group_take: "unat (g :: u8) < 128 \<Longrightarrow> take_bit 7 g = g"
  by (simp add: word_unat_eq_iff unsigned_take_bit_eq take_bit_nat_eq_self)

lemma group_high: "unat (g :: u8) < 128 \<Longrightarrow> 7 \<le> n \<Longrightarrow> \<not> bit g n"
  using group_take [of g] by (metis bit_take_bit_iff not_less)

lemma group_bits:
  assumes "unat (g :: u8) < 128"
  shows "g AND 0x80 = 0" "g AND 0x7f = g" "cont g AND 0x80 \<noteq> 0" "cont g AND 0x7f = g" "cont g = 0x80 \<longleftrightarrow> g = 0"
proof -
  have m: "(0x7f :: u8) = mask 7" by (simp add: mask_eq_exp_minus_1)
  show g: "g AND 0x7f = g" using group_take [OF assms] unfolding m take_bit_eq_mask by simp
  show "g AND 0x80 = 0" using group_high [OF assms, of 7] by (intro bit_eqI) (simp only: bit_and_iff bit_0x80, auto)
  have "bit (cont g AND 0x80) 7" by (simp only: bit_and_iff bit_or_iff bit_0x80) simp
  then show "cont g AND 0x80 \<noteq> 0" by auto
  have "(0x80 :: u8) AND 0x7f = 0" by simp
  then show c: "cont g AND 0x7f = g" using g by (simp only: bit.conj_disj_distrib2 or.right_neutral)
  show "cont g = 0x80 \<longleftrightarrow> g = 0" using c by auto
qed

lemma arc_step:
  assumes "unat (g :: u8) < 128" "unat (acc :: u64) < 2 ^ 57"
  shows "unat (push_bit 7 acc OR ucast g) = 128 * unat acc + unat g"
proof -
  have "push_bit 7 acc AND ucast g = 0"
    using group_high [OF assms(1)] by (intro bit_eqI) (auto simp: bit_simps)
  then have "unat (push_bit 7 acc OR ucast g) = unat (push_bit 7 acc + ucast g)"
    by (simp add: disjunctive_add_eq_or)
  also have "\<dots> = 128 * unat acc + unat g"
  proof -
    have "unat (push_bit 7 acc) = unat acc * 128"
      using assms(2) by (simp add: push_bit_eq_mult unat_word_ariths)
    moreover have "unat (ucast g :: u64) = unat g" using assms(1) by (simp add: unat_ucast)
    ultimately show ?thesis using assms by (simp add: unat_word_ariths)
  qed
  finally show ?thesis .
qed

lemma arc_overflow: "drop_bit 57 (acc :: u64) = 0 \<longleftrightarrow> unat acc < 2 ^ 57"
  by (simp add: unat_drop_bit div_eq_0_iff flip: unat_eq_zero)

lemma parse_cont:
  assumes "\<forall>d \<in> set ds. unat d < 128" "unat acc * 128 ^ length ds + gval (rev ds) < 2 ^ 57"
    "st \<or> ds = [] \<or> hd ds \<noteq> 0"
  shows "\<exists>acc'. unat acc' = unat acc * 128 ^ length ds + gval (rev ds)
    \<and> parse_oid_loop (map cont ds @ rest) arcs acc st = parse_oid_loop rest arcs acc' (st \<or> ds \<noteq> [])"
  using assms
proof (induction ds arbitrary: acc st)
  case (Cons d ds)
  have d: "unat d < 128" using Cons.prems(1) by simp
  have "unat acc * 1 \<le> unat acc * 128 ^ length (d # ds)" by (rule mult_le_mono2) simp
  then have acc: "unat acc < 2 ^ 57" using Cons.prems(2) by linarith
  let ?acc = "push_bit 7 acc OR ucast d :: u64"
  have s: "unat ?acc = 128 * unat acc + unat d" by (rule arc_step [OF d acc])
  have e: "unat ?acc * 128 ^ length ds + gval (rev ds) = unat acc * 128 ^ length (d # ds) + gval (rev (d # ds))"
    unfolding s by (simp add: gval_append algebra_simps)
  have "\<exists>acc'. unat acc' = unat ?acc * 128 ^ length ds + gval (rev ds)
    \<and> parse_oid_loop (map cont ds @ rest) arcs ?acc True = parse_oid_loop rest arcs acc' (True \<or> ds \<noteq> [])"
    using Cons.prems e by (intro Cons.IH) simp_all
  moreover have "parse_oid_loop (map cont (d # ds) @ rest) arcs acc st = parse_oid_loop (map cont ds @ rest) arcs ?acc True"
    using Cons.prems(3) group_bits [OF d] acc arc_overflow [of acc] by (auto simp: Let_def)
  ultimately show ?case unfolding e by simp
qed auto

lemma parse_arc: "parse_oid_loop (push_base128 v @ rest) arcs 0 False = parse_oid_loop rest (push_arc v arcs) 0 False"
proof -
  obtain h t where g: "base128_groups v = h # t" using base128_groups_ne(2) [of v] by blast
  have ok: "unat h < 128" "\<forall>d \<in> set t. unat d < 128" "t = [] \<or> last t \<noteq> 0" and v: "unat v = unat h + 128 * gval t"
    using base128_groups_val [of v] g by (auto simp: groups_ok_def split: if_splits)
  have lt: "gval t < 2 ^ 57" using v unat_lt [of v] by simp
  obtain acc where acc: "unat acc = gval t" and run: "parse_oid_loop (map cont (rev t) @ h # rest) arcs 0 False
      = parse_oid_loop (h # rest) arcs acc (t \<noteq> [])"
    using parse_cont [of "rev t" 0 False "h # rest" arcs] ok lt by (auto simp: hd_rev)
  have "unat (push_bit 7 acc OR ucast h) = unat v" using arc_step [OF ok(1), of acc] acc lt v by simp
  then have "push_bit 7 acc OR ucast h = v" by (simp add: word_unat_eq_iff)
  moreover have "h \<noteq> 0x80" using ok(1) by auto
  ultimately have "parse_oid_loop (h # rest) arcs acc (t \<noteq> []) = parse_oid_loop rest (push_arc v arcs) 0 False"
    using group_bits(1,2) [OF ok(1)] arc_overflow [of acc] acc lt by (simp add: Let_def)
  then show ?thesis using run unfolding push_base128_eq g by simp
qed

lemma parse_subs: "parse_oid_loop (concat (map push_base128 subs)) arcs 0 False = Inr (fold push_arc subs arcs)"
  by (induction subs arbitrary: arcs) (simp_all add: parse_arc)

section \<open>Only what was pushed is accepted\<close>

lemma split_septet: "unat (b AND 0x7f :: u8) < 128" "b AND 0x80 = 0 \<Longrightarrow> b AND 0x7f = b"
  "b AND 0x80 \<noteq> 0 \<Longrightarrow> cont (b AND 0x7f) = b"
proof -
  have m: "(0x7f :: u8) = mask 7" by (simp add: mask_eq_exp_minus_1)
  show "unat (b AND 0x7f :: u8) < 128" unfolding m unat_and_mask by simp
  have j: "(b AND 0x7f) OR (b AND 0x80) = b"
  proof -
    have "(0x7f :: u8) OR 0x80 = -1" by simp
    then show ?thesis by (simp only: bit.conj_disj_distrib [symmetric] and.right_neutral)
  qed
  show "b AND 0x7f = b" if "b AND 0x80 = 0" using j unfolding that by simp
  show "cont (b AND 0x7f) = b" if "b AND 0x80 \<noteq> 0"
  proof -
    have "bit b 7"
    proof (rule ccontr)
      assume "\<not> bit b 7"
      then have "b AND 0x80 = 0" by (intro bit_eqI) (simp only: bit_and_iff bit_0x80, auto)
      then show False using that by simp
    qed
    then have "b AND 0x80 = 0x80" by (intro bit_eqI) (simp only: bit_and_iff bit_0x80, auto)
    then show ?thesis using j by simp
  qed
qed

lemma parse_oid_loop_inv:
  assumes "parse_oid_loop bs arcs acc st = Inr arcs'" "st \<longleftrightarrow> ds \<noteq> []" "\<forall>d \<in> set ds. unat d < 128"
    "unat acc = gval (rev ds)" "ds = [] \<or> hd ds \<noteq> 0"
  shows "\<exists>subs. map cont ds @ bs = concat (map push_base128 subs) \<and> arcs' = fold push_arc subs arcs"
  using assms
proof (induction bs arbitrary: arcs acc st ds)
  case Nil
  then have "ds = []" "arcs' = arcs" by (auto split: if_splits)
  then show ?case by (intro exI [of _ "[]"]) simp
next
  case (Cons b bs)
  let ?g = "b AND 0x7f" and ?acc = "push_bit 7 acc OR ucast (b AND 0x7f) :: u64"
  have lt: "unat acc < 2 ^ 57" and first: "\<not> (\<not> st \<and> b = 0x80)"
    using Cons.prems(1) arc_overflow [of acc] by (auto split: if_splits)
  have acc: "unat ?acc = gval (rev (ds @ [?g]))"
    using arc_step [OF split_septet(1) lt] Cons.prems(4) by simp
  have all: "\<forall>d \<in> set (ds @ [?g]). unat d < 128" using Cons.prems(3) split_septet(1) by auto
  show ?case
  proof (cases "b AND 0x80 = 0")
    case True
    have "groups_ok (?g # rev ds)" using all Cons.prems(5) by (auto simp: groups_ok_def last_rev)
    then have "base128_groups ?acc = ?g # rev ds" using acc by (intro base128_groups_unique) simp_all
    then have push: "push_base128 ?acc = map cont ds @ [b]" using split_septet(2) [OF True] by (simp add: push_base128_eq)
    have "parse_oid_loop bs (push_arc ?acc arcs) 0 False = Inr arcs'"
      using Cons.prems(1) True lt first arc_overflow [of acc] by (simp add: Let_def split: if_splits)
    then obtain subs where "bs = concat (map push_base128 subs)" "arcs' = fold push_arc subs (push_arc ?acc arcs)"
      using Cons.IH [of "push_arc ?acc arcs" 0 False "[]"] by auto
    then show ?thesis using push by (intro exI [of _ "?acc # subs"]) simp
  next
    case False
    have "?g \<noteq> 0" if "ds = []" using split_septet(3) [OF False] group_bits(5) [OF split_septet(1) [of b]] first that Cons.prems(2)
      by auto
    then have h: "hd (ds @ [?g]) \<noteq> 0" using Cons.prems(5) by (cases ds) auto
    have "parse_oid_loop bs arcs ?acc True = Inr arcs'"
      using Cons.prems(1) False lt first arc_overflow [of acc] by (simp add: Let_def split: if_splits)
    then show ?thesis using Cons.IH [of arcs ?acc True "ds @ [?g]"] all acc h split_septet(3) [OF False] by simp
  qed
qed

lemma parse_oid_iff_subs:
  "parse_oid body = Inr arcs \<longleftrightarrow> (\<exists>subs. subs \<noteq> [] \<and> body = concat (map push_base128 subs) \<and> arcs = fold push_arc subs [])"
proof
  assume p: "parse_oid body = Inr arcs"
  then have ne: "body \<noteq> []" and "parse_oid_loop body [] 0 False = Inr arcs" by (auto simp: parse_oid_def split: if_splits)
  then obtain subs where s: "map cont [] @ body = concat (map push_base128 subs)" "arcs = fold push_arc subs []"
    using parse_oid_loop_inv [of body "[]" 0 False arcs "[]"] by (metis (no_types) empty_iff empty_set gval.simps(1) rev.simps(1) unat_0)
  then have "subs \<noteq> []" using ne by (cases subs) simp_all
  then show "\<exists>subs. subs \<noteq> [] \<and> body = concat (map push_base128 subs) \<and> arcs = fold push_arc subs []"
    using s by (intro exI [of _ subs]) simp
next
  assume "\<exists>subs. subs \<noteq> [] \<and> body = concat (map push_base128 subs) \<and> arcs = fold push_arc subs []"
  then obtain subs where s: "subs \<noteq> []" "body = concat (map push_base128 subs)" "arcs = fold push_arc subs []" by blast
  have "body \<noteq> []" using s(1,2) by (cases subs) (simp_all add: push_base128_eq)
  then show "parse_oid body = Inr arcs" using s parse_subs [of subs "[]"] by (simp add: parse_oid_def)
qed

section \<open>The first sub-identifier\<close>

lemma first_low: "unat (a :: u64) < 2 \<Longrightarrow> unat b < 40 \<Longrightarrow> unat (40 * a + b) = 40 * unat a + unat b"
  by (simp add: unat_word_ariths)

lemma first_high: "80 + unat (b :: u64) < 2 ^ 64 \<Longrightarrow> unat (80 + b) = 80 + unat b"
  by (simp add: unat_word_ariths)

lemma first_sub_iff:
  "(if 2 < a then None
    else if a < 2 then (if b < 40 then Some (40 * a + b) else None)
    else if 80 + unat b < 2 ^ 64 then Some (80 + b) else None) = Some s \<longleftrightarrow> push_arc s [] = [a, b]" (is "?l \<longleftrightarrow> ?r")
proof
  assume ?l
  then consider (low) "unat a < 2" "unat b < 40" "s = 40 * a + b" | (high) "a = 2" "80 + unat b < 2 ^ 64" "s = 80 + b"
    by (auto simp: word_less_nat_alt word_unat_eq_iff split: if_splits)
  then show ?r
  proof cases
    case low
    then have "unat s = 40 * unat a + unat b" using first_low by blast
    then show ?thesis using low(1,2) by (simp add: push_arc_def word_less_nat_alt word_unat_eq_iff unat_div unat_mod)
  next
    case high
    then have "unat s = 80 + unat b" using first_high by blast
    then show ?thesis using high(1,3) by (simp add: push_arc_def word_less_nat_alt)
  qed
next
  assume r: ?r
  show ?l
  proof (cases "s < 80")
    case True
    then have ab: "unat a = unat s div 40" "unat b = unat s mod 40"
      using r by (auto simp: push_arc_def unat_div unat_mod)
    then have lt: "unat a < 2" "unat b < 40" using True by (simp_all add: word_less_nat_alt)
    then have "unat (40 * a + b) = unat s" using first_low [OF lt] ab by simp
    then have "40 * a + b = s" by (simp only: word_unat_eq_iff)
    then show ?thesis using lt by (simp add: word_less_nat_alt)
  next
    case False
    then have ab: "a = 2" "b = s - 80" using r by (auto simp: push_arc_def)
    then have "unat b = unat s - 80" using False by (simp add: unat_sub word_le_nat_alt not_less)
    then have "80 + unat b < 2 ^ 64" using False unat_lt [of s] by (simp add: word_less_nat_alt)
    then show ?thesis using ab by simp
  qed
qed

lemma fold_push_arc: "arcs \<noteq> [] \<Longrightarrow> fold push_arc subs arcs = arcs @ subs"
  by (induction subs arbitrary: arcs) (simp_all add: push_arc_def)

lemma encode_oid_arcs_iff_subs:
  "encode_oid_arcs arcs = Some body
   \<longleftrightarrow> (\<exists>subs. subs \<noteq> [] \<and> body = concat (map push_base128 subs) \<and> arcs = fold push_arc subs [])"
proof (cases "\<exists>a b as. arcs = a # b # as")
  case True
  then obtain a b as where arcs: "arcs = a # b # as" by blast
  have "encode_oid_arcs arcs = Some body \<longleftrightarrow> (\<exists>s. push_arc s [] = [a, b] \<and> body = push_base128 s @ concat (map push_base128 as))"
    unfolding first_sub_iff [symmetric] by (auto simp: arcs encode_oid_arcs_def Let_def split: option.splits if_splits)
  also have "\<dots> \<longleftrightarrow> (\<exists>subs. subs \<noteq> [] \<and> body = concat (map push_base128 subs) \<and> arcs = fold push_arc subs [])"
  proof -
    have "arcs = fold push_arc (s # ss) [] \<longleftrightarrow> push_arc s [] = [a, b] \<and> ss = as" for s ss
    proof -
      have "push_arc s [] \<noteq> []" "length (push_arc s []) = length [a, b]" by (simp_all add: push_arc_def)
      then show ?thesis using append_eq_append_conv [of "push_arc s []" "[a, b]" ss as] by (auto simp: arcs fold_push_arc)
    qed
    note arcs_eq = this
    show ?thesis
    proof
      assume "\<exists>s. push_arc s [] = [a, b] \<and> body = push_base128 s @ concat (map push_base128 as)"
      then obtain s where "push_arc s [] = [a, b]" "body = push_base128 s @ concat (map push_base128 as)" by blast
      then show "\<exists>subs. subs \<noteq> [] \<and> body = concat (map push_base128 subs) \<and> arcs = fold push_arc subs []"
        using arcs_eq [of s as] by (intro exI [of _ "s # as"]) simp
    next
      assume "\<exists>subs. subs \<noteq> [] \<and> body = concat (map push_base128 subs) \<and> arcs = fold push_arc subs []"
      then obtain s ss where "body = concat (map push_base128 (s # ss))" "arcs = fold push_arc (s # ss) []"
        by (metis list.exhaust)
      then show "\<exists>s. push_arc s [] = [a, b] \<and> body = push_base128 s @ concat (map push_base128 as)"
        unfolding arcs_eq by (intro exI [of _ s]) simp
    qed
  qed
  finally show ?thesis .
next
  case False
  then have "length arcs < 2" by (cases arcs rule: remdups_adj.cases) auto
  moreover have "\<not> length (fold push_arc subs []) < 2" if "subs \<noteq> []" for subs
    using that by (cases subs) (simp_all add: fold_push_arc push_arc_def)
  ultimately show ?thesis by (auto simp: encode_oid_arcs_def)
qed

text \<open>C10. The object identifier codec is a bijection between the arc lists the encoder accepts (at least two
arcs, the first at most 2, the second below 40 unless the first is 2, the joint first sub-identifier in 64 bits) and
the bodies the parser accepts: the parser returns \<open>arcs\<close> on exactly the one body the encoder produces for them, so
redundant leading continuation bytes, truncated arcs and arcs over 64 bits are all rejected.\<close>

theorem oid_canonical: "parse_oid body = Inr arcs \<longleftrightarrow> encode_oid_arcs arcs = Some body"
  unfolding parse_oid_iff_subs encode_oid_arcs_iff_subs by (rule refl)

section \<open>The dotted form\<close>

lemma digit_char: "n < 10 \<Longrightarrow> of_char (char_of (48 + n :: nat)) = 48 + n"
  by simp

lemma arc_digits_no_dot: "CHR ''.'' \<notin> set (arc_digits v)"
proof (induction v rule: arc_digits.induct)
  case (1 v)
  have "char_of (48 + v mod 10) \<noteq> CHR ''.''"
  proof
    assume "char_of (48 + v mod 10) = CHR ''.''"
    then have "(of_char (char_of (48 + v mod 10)) :: nat) = of_char CHR ''.''" by (rule arg_cong)
    then show False using digit_char [of "v mod 10"] by simp
  qed
  then show ?case using "1.IH" by (subst arc_digits.simps) auto
qed

lemma arc_digits_nil: "arc_digits v = [] \<longleftrightarrow> v = 0"
  by (simp add: arc_digits.simps [of v])

lemma arc_digits_step: "v \<noteq> 0 \<Longrightarrow> arc_digits v = char_of (48 + v mod 10) # arc_digits (v div 10)"
  by (simp add: arc_digits.simps [of v])

lemma digit_char_inj: "char_of (48 + m mod 10) = char_of (48 + n mod 10) \<Longrightarrow> m mod 10 = (n mod 10 :: nat)"
proof -
  assume "char_of (48 + m mod 10) = char_of (48 + n mod 10)"
  then have "(of_char (char_of (48 + m mod 10)) :: nat) = of_char (char_of (48 + n mod 10))" by (rule arg_cong)
  then have "48 + m mod 10 = 48 + n mod 10" by (subst (asm) (1 2) digit_char) simp_all
  then show ?thesis by simp
qed

lemma arc_digits_inj: "\<forall>w. arc_digits v = arc_digits w \<longrightarrow> v = w"
proof (induction v rule: less_induct)
  case (less v)
  show ?case
  proof (intro allI impI)
    fix w
    assume e: "arc_digits v = arc_digits w"
    then have z: "v = 0 \<longleftrightarrow> w = 0" unfolding arc_digits_nil [symmetric] by (rule arg_cong)
    show "v = w"
    proof (cases "v = 0")
      case True
      then show ?thesis using z by blast
    next
      case False
      then have w: "w \<noteq> 0" using z by blast
      have "char_of (48 + v mod 10) # arc_digits (v div 10) = char_of (48 + w mod 10) # arc_digits (w div 10)"
        using e by (simp only: arc_digits_step [OF False] arc_digits_step [OF w])
      then have c: "char_of (48 + v mod 10) = char_of (48 + w mod 10)" and t: "arc_digits (v div 10) = arc_digits (w div 10)"
        by (simp_all only: list.inject)
      have "v div 10 < v" using False by simp
      then have "v div 10 = w div 10" using less.IH t by blast
      then have "v div 10 * 10 + v mod 10 = w div 10 * 10 + w mod 10" by (simp only: digit_char_inj [OF c])
      then show ?thesis by (simp only: div_mult_mod_eq)
    qed
  qed
qed

lemma zero_not_digits: "v \<noteq> 0 \<Longrightarrow> rev (arc_digits v) \<noteq> ''0''"
proof
  assume v: "v \<noteq> 0" and "rev (arc_digits v) = ''0''"
  then have "arc_digits v = ''0''" by (simp add: rev_swap)
  then have e: "char_of (48 + v mod 10) = CHR ''0''" "arc_digits (v div 10) = []"
    unfolding arc_digits_step [OF v] list.inject by blast+
  have "(of_char (char_of (48 + v mod 10)) :: nat) = of_char CHR ''0''" using e(1) by (rule arg_cong)
  then have "v mod 10 = 0" using digit_char [of "v mod 10"] by simp
  then show False using e(2) v div_mult_mod_eq [of v 10] by (simp add: arc_digits_nil)
qed

lemma arc_to_string_inj: "arc_to_string v = arc_to_string w \<longleftrightarrow> v = w"
proof
  assume e: "arc_to_string v = arc_to_string w"
  have nz: "unat x \<noteq> 0" if "x \<noteq> 0" for x :: u64 using that by (simp add: unat_eq_zero)
  show "v = w"
  proof (cases "v = 0 \<or> w = 0")
    case True
    then show ?thesis using e zero_not_digits [OF nz, of v] zero_not_digits [OF nz, of w]
      by (auto simp: arc_to_string_def split: if_splits)
  next
    case False
    then have "unat v = unat w" using e arc_digits_inj by (simp add: arc_to_string_def)
    then show ?thesis by (simp only: word_unat_eq_iff)
  qed
qed simp

lemma arc_to_string_no_dot: "CHR ''.'' \<notin> set (arc_to_string v)"
  using arc_digits_no_dot by (simp add: arc_to_string_def)

lemma arc_to_string_ne: "arc_to_string v \<noteq> []"
proof (cases "v = 0")
  case False
  then have "unat v \<noteq> 0" by (simp add: unat_eq_zero)
  then show ?thesis using False by (simp add: arc_to_string_def arc_digits.simps [of "unat v"])
qed (simp add: arc_to_string_def)

lemma dotted_split:
  assumes "c \<notin> set xs" "c \<notin> set ys" "xs @ c # r = ys @ c # s"
  shows "xs = ys \<and> r = s"
proof -
  have "takeWhile (\<lambda>x. x \<noteq> c) (zs @ c # t) = zs" if "c \<notin> set zs" for zs t
    using that by (induction zs) auto
  then have "xs = ys" using assms by metis
  then show ?thesis using assms(3) by simp
qed

lemma join_arcs_Cons: "join_arcs (a # as) @ ''.'' = arc_to_string a @ CHR ''.'' # (if as = [] then [] else join_arcs as @ ''.'')"
  by (cases as) simp_all

lemma join_arcs_inj: "join_arcs as @ ''.'' = join_arcs bs @ ''.'' \<Longrightarrow> as \<noteq> [] \<Longrightarrow> bs \<noteq> [] \<Longrightarrow> as = bs"
proof (induction as arbitrary: bs)
  case (Cons a as)
  then obtain b bs' where bs: "bs = b # bs'" by (cases bs) auto
  let ?t = "\<lambda>xs. if xs = [] then [] else join_arcs xs @ ''.''"
  have "arc_to_string a @ CHR ''.'' # ?t as = arc_to_string b @ CHR ''.'' # ?t bs'"
    using Cons.prems(1) unfolding bs join_arcs_Cons .
  then have "arc_to_string a = arc_to_string b \<and> ?t as = ?t bs'"
    by (rule dotted_split [OF arc_to_string_no_dot arc_to_string_no_dot])
  then have "a = b" "?t as = ?t bs'" using arc_to_string_inj by simp_all
  then show ?case using Cons.IH [of bs'] bs by (cases "as = []"; cases "bs' = []") auto
qed simp

text \<open>C38. The dotted decimal form identifies the object: two accepted bodies print the same string only when they
are the same bytes, so an identifier displayed to a user, or compared by its text, denotes one encoding.\<close>

theorem oid_to_string_injective:
  assumes "oid_to_string b1 = Inr s" "oid_to_string b2 = Inr s"
  shows "b1 = b2"
proof -
  obtain a1 a2 where p: "parse_oid b1 = Inr a1" "parse_oid b2 = Inr a2" "join_arcs a1 = s" "join_arcs a2 = s"
    using assms by (cases "parse_oid b1"; cases "parse_oid b2") (simp_all add: oid_to_string_def)
  then have e: "encode_oid_arcs a1 = Some b1" "encode_oid_arcs a2 = Some b2"
    using parse_oid_iff_subs encode_oid_arcs_iff_subs by auto
  then have "a1 \<noteq> []" "a2 \<noteq> []" by (auto simp: encode_oid_arcs_def)
  then have "a1 = a2" using p(3,4) join_arcs_inj [of a1 a2] by simp
  then show ?thesis using e by simp
qed

theorem oid_to_string_injective_witness:
  "oid_to_string [0x2a, 0x86, 0x48] = Inr ''1.2.840'' \<and> (\<exists>b. oid_to_string b = Inr ''1.2.840'' \<and> b = [0x2a, 0x86, 0x48])"
proof -
  have e: "oid_to_string [0x2a, 0x86, 0x48] = Inr ''1.2.840''" by code_simp
  then show ?thesis using oid_to_string_injective [OF e e] by blast
qed

end
