(* ===== verification/Pem.thy ===== *)
theory Pem
  imports Base64 Oid
begin

text \<open>
  PEM armour (\<open>der/pem.rs\<close>): the base64 body in lines of 64 characters between the \<open>BEGIN\<close> and \<open>END\<close> markers of a
  label.  A string is its byte sequence, so a substring search is a search for a byte sequence.
\<close>

section \<open>Operations\<close>

text \<open>\<open>str::find\<close>: the first position where the pattern occurs.\<close>

fun str_find :: "bytes \<Rightarrow> bytes \<Rightarrow> nat option" where
  "str_find [] pat = (if pat = [] then Some 0 else None)"
| "str_find (c # cs) pat =
     (if take (length pat) (c # cs) = pat then Some 0 else map_option Suc (str_find cs pat))"

definition begin_marker :: "bytes \<Rightarrow> bytes" where
  "begin_marker label = ascii ''-----BEGIN '' @ label @ ascii ''-----''"

definition end_marker :: "bytes \<Rightarrow> bytes" where
  "end_marker label = ascii ''-----END '' @ label @ ascii ''-----''"

definition pem_encode :: "bytes \<Rightarrow> bytes \<Rightarrow> bytes" where
  "pem_encode label der = (
     let b64 = base64_encode der in
     ascii ''-----BEGIN '' @ label @ ascii ''-----'' @ [0x0a]
     @ concat (map (\<lambda>line. line @ [0x0a]) (chunks 64 b64))
     @ ascii ''-----END '' @ label @ ascii ''-----'' @ [0x0a])"

definition pem_decode :: "bytes \<Rightarrow> bytes \<Rightarrow> der_error + bytes" where
  "pem_decode pem expected_label = (
     let begin_m = begin_marker expected_label; end_m = end_marker expected_label in
     case str_find pem begin_m of
       None \<Rightarrow> Inl PemError
     | Some i \<Rightarrow>
         let start = i + length begin_m in
         if str_find (drop start pem) begin_m \<noteq> None then Inl PemError
         else case str_find (drop start pem) end_m of
             None \<Rightarrow> Inl PemError
           | Some j \<Rightarrow> base64_decode (take j (drop start pem)))"

section \<open>Substring search\<close>

definition occurs_at :: "bytes \<Rightarrow> bytes \<Rightarrow> nat \<Rightarrow> bool" where
  "occurs_at s pat j \<longleftrightarrow> j \<le> length s \<and> take (length pat) (drop j s) = pat"

lemma occurs_at_Suc: "occurs_at (c # cs) pat (Suc j) = occurs_at cs pat j"
  by (simp add: occurs_at_def)

lemma str_find_Some: "str_find s pat = Some i \<longleftrightarrow> occurs_at s pat i \<and> (\<forall>j < i. \<not> occurs_at s pat j)"
proof (induction s arbitrary: i)
  case Nil
  show ?case by (auto simp: occurs_at_def)
next
  case (Cons c cs)
  have z: "occurs_at (c # cs) pat 0 \<longleftrightarrow> take (length pat) (c # cs) = pat" by (simp add: occurs_at_def)
  show ?case
  proof (cases i)
    case 0
    then show ?thesis using z by auto
  next
    case (Suc k)
    show ?thesis unfolding Suc All_less_Suc2 z occurs_at_Suc using Cons.IH [of k] by auto
  qed
qed

lemma str_find_None: "str_find s pat = None \<longleftrightarrow> (\<forall>j. \<not> occurs_at s pat j)"
proof
  assume n: "\<forall>j. \<not> occurs_at s pat j"
  show "str_find s pat = None"
  proof (cases "str_find s pat")
    case (Some i)
    then show ?thesis using n unfolding str_find_Some by blast
  qed
next
  assume n: "str_find s pat = None"
  show "\<forall>j. \<not> occurs_at s pat j"
  proof (rule ccontr)
    assume "\<not> (\<forall>j. \<not> occurs_at s pat j)"
    then obtain j where "occurs_at s pat j" by blast
    then have "occurs_at s pat (LEAST j. occurs_at s pat j)" "\<forall>k < (LEAST j. occurs_at s pat j). \<not> occurs_at s pat k"
      by (rule LeastI) (use not_less_Least in blast)
    then have "str_find s pat = Some (LEAST j. occurs_at s pat j)" unfolding str_find_Some by blast
    then show False using n by simp
  qed
qed

lemma occurs_at_append: "occurs_at (xs @ pat @ ys) pat (length xs)"
  by (simp add: occurs_at_def)

lemma occurs_at_split: "occurs_at s pat j \<Longrightarrow> s = take j s @ pat @ drop (j + length pat) s"
  by (metis add.commute append_take_drop_id drop_drop occurs_at_def)

lemma occurs_at_head:
  assumes "occurs_at (xs @ ys) (p # ps) j" "p \<notin> set xs"
  shows "length xs \<le> j"
proof (rule ccontr)
  assume "\<not> length xs \<le> j"
  then have j: "j < length xs" by simp
  then have "drop j (xs @ ys) = xs ! j # drop (Suc j) (xs @ ys)" by (simp add: Cons_nth_drop_Suc [symmetric] nth_append)
  then have "p = xs ! j" using assms(1) by (simp add: occurs_at_def)
  then show False using assms(2) j by simp
qed

lemma occurs_at_length: "occurs_at s pat j \<Longrightarrow> j + length pat \<le> length s"
  by (metis (no_types, lifting) occurs_at_def diff_le_self le_add_diff_inverse length_drop length_take min.absorb_iff2 min.commute
      nat_add_left_cancel_le)

section \<open>Armouring and reading back\<close>

lemma filter_ws_lines:
  assumes "\<forall>c \<in> set s. \<not> is_ascii_whitespace c" "0 < n"
  shows "filter (\<lambda>c. \<not> is_ascii_whitespace c) (concat (map (\<lambda>line. line @ [0x0a]) (chunks n s))) = s"
  using assms
proof (induction n s rule: chunks.induct)
  case (1 n s)
  show ?case
  proof (cases "s = []")
    case False
    have "filter (\<lambda>c. \<not> is_ascii_whitespace c) (concat (map (\<lambda>line. line @ [0x0a]) (chunks n (drop n s)))) = drop n s"
      by (intro 1(1)) (use 1(2,3) False in \<open>auto dest: in_set_dropD\<close>)
    moreover have "filter (\<lambda>c. \<not> is_ascii_whitespace c) (take n s) = take n s"
      using 1(2) by (meson filter_True in_set_takeD)
    moreover have "is_ascii_whitespace 0x0a" by (simp add: is_ascii_whitespace_def)
    ultimately show ?thesis using False 1(3) by (subst chunks.simps) simp
  qed simp
qed

lemma chunks_subset: "l \<in> set (chunks n s) \<Longrightarrow> set l \<subseteq> set s"
proof (induction n s rule: chunks.induct)
  case (1 n s)
  have m: "l \<in> set (if n = 0 \<or> s = [] then [] else take n s # chunks n (drop n s))" using 1(2) by (subst (asm) chunks.simps)
  have ne: "\<not> (n = 0 \<or> s = [])" using m by (cases "n = 0 \<or> s = []") simp_all
  then have "l = take n s \<or> l \<in> set (chunks n (drop n s))" using m by (simp only: if_False set_simps insert_iff)
  then show ?case using 1(1) [OF ne] set_take_subset [of n s] set_drop_subset [of n s] by blast
qed

lemma set_lines: "set (concat (map (\<lambda>line. line @ [c]) (chunks n s))) \<subseteq> insert c (set s)"
  using chunks_subset [of _ n s] by auto

lemma base64_encode_chars: "c \<in> set (base64_encode d) \<Longrightarrow> c = 0x3d \<or> decode_char c \<noteq> None"
  using sextets_lt [of d] table_lookup [OF decode_table] by (auto simp: base64_encode_eq)

lemma base64_encode_plain: "\<forall>c \<in> set (base64_encode d). \<not> is_ascii_whitespace c"
  using base64_encode_chars [of _ d] decode_char_plain eq_sign_plain by fast

lemma count_filter_eq: "P x \<Longrightarrow> count_list (filter P s) x = count_list s x"
  by (induction s) auto

lemma base64_encode_count: "count_list (base64_encode d) 0x3d \<le> 2"
proof -
  have "count_list (pem_enc (sextets d)) 0x3d = 0"
  proof (rule count_list_0_iff [THEN iffD2], rule notI)
    assume "0x3d \<in> set (pem_enc (sextets d))"
    then obtain v where "v < 64" "ALPHABET ! v = 0x3d" using sextets_lt [of d] by auto
    then have "decode_char 0x3d = Some (word_of_nat v)" using table_lookup [OF decode_table, of v] by simp
    then show False using decode_char_plain by blast
  qed
  moreover have "count_list (replicate p 0x3d) (0x3d :: u8) = p" for p by (induction p) simp_all
  ultimately show ?thesis unfolding base64_encode_eq count_list_append by (simp add: pad_len_def)
qed

lemma decode_lines: "base64_decode (0x0a # concat (map (\<lambda>line. line @ [0x0a]) (chunks 64 (base64_encode d)))) = Inr d"
proof -
  let ?s = "0x0a # concat (map (\<lambda>line. line @ [0x0a]) (chunks 64 (base64_encode d)))"
  have f: "filter (\<lambda>c. \<not> is_ascii_whitespace c) ?s = base64_encode d"
    using filter_ws_lines [OF base64_encode_plain [of d], of 64] by (simp add: is_ascii_whitespace_def)
  have "count_list ?s 0x3d = count_list (base64_encode d) 0x3d"
    using count_filter_eq [of "\<lambda>c. \<not> is_ascii_whitespace c" "0x3d" ?s] eq_sign_plain unfolding f by simp
  then have "count_list ?s 0x3d < 2 ^ 32" using base64_encode_count [of d] by simp
  then show ?thesis using base64_decode_iff f by blast
qed

lemma dash_free: "0x2d \<notin> set (0x0a # concat (map (\<lambda>line. line @ [0x0a]) (chunks 64 (base64_encode d))))"
proof -
  have "decode_char 0x2d = None" by (simp add: decode_char_def)
  then have "0x2d \<notin> set (base64_encode d)" using base64_encode_chars [of "0x2d" d] by auto
  then have "0x2d \<notin> insert 0x0a (set (base64_encode d))" by simp
  then show ?thesis using set_lines [of "0x0a" 64 "base64_encode d"] unfolding list.set(2) by blast
qed

lemma marker_Cons: "\<exists>ps. begin_marker label = 0x2d # ps" "\<exists>ps. end_marker label = 0x2d # ps"
  "length (begin_marker label) = length label + 16" "length (end_marker label) = length label + 14"
  by (simp_all add: begin_marker_def end_marker_def ascii_def)

lemma pem_decode_armoured:
  assumes "0x2d \<notin> set body"
  shows "pem_decode (begin_marker label @ body @ end_marker label @ [c]) label = base64_decode body"
proof -
  let ?b = "begin_marker label" and ?e = "end_marker label"
  obtain bs es where m: "?b = 0x2d # bs" "?e = 0x2d # es" using marker_Cons(1,2) by blast
  have f1: "str_find (?b @ body @ ?e @ [c]) ?b = Some 0"
    unfolding str_find_Some using occurs_at_append [of "[]" ?b "body @ ?e @ [c]"] by simp
  have f2: "str_find (body @ ?e @ [c]) ?b = None" unfolding str_find_None
  proof (intro allI notI)
    fix j assume o: "occurs_at (body @ ?e @ [c]) ?b j"
    have "length body \<le> j" using occurs_at_head [OF o [unfolded m(1)] assms] .
    moreover have "j + length ?b \<le> length (body @ ?e @ [c])" by (rule occurs_at_length [OF o])
    ultimately show False using marker_Cons(3,4) [of label] by simp
  qed
  have f3: "str_find (body @ ?e @ [c]) ?e = Some (length body)" unfolding str_find_Some
    using occurs_at_append [of body ?e "[c]"] occurs_at_head [of body "?e @ [c]" "0x2d" es] assms unfolding m(2) [symmetric]
    by (meson not_less)
  show ?thesis unfolding pem_decode_def Let_def f1 using f2 f3 by simp
qed

text \<open>C6. Armouring is undone exactly, for every label and every payload: \<open>pem_decode\<close> of \<open>pem_encode\<close> returns the
payload.  The label may even contain dashes or marker text: the base64 lines hold no dash, and what follows them is
too short to hold a second \<open>BEGIN\<close> marker.\<close>

theorem pem_roundtrip: "pem_decode (pem_encode label der) label = Inr der"
proof -
  have "pem_encode label der = begin_marker label
    @ (0x0a # concat (map (\<lambda>line. line @ [0x0a]) (chunks 64 (base64_encode der)))) @ end_marker label @ [0x0a]"
    by (simp add: pem_encode_def begin_marker_def end_marker_def Let_def)
  then show ?thesis using pem_decode_armoured [OF dash_free] decode_lines by metis
qed

section \<open>What is accepted\<close>

text \<open>An accepted body has no dash: base64 characters and white space are all different from it.\<close>

lemma body_dash_free:
  assumes "filter (\<lambda>c. \<not> is_ascii_whitespace c) body = base64_encode der"
  shows "0x2d \<notin> set body"
proof
  assume "0x2d \<in> set body"
  moreover have "\<not> is_ascii_whitespace 0x2d" by (simp add: is_ascii_whitespace_def)
  ultimately have "0x2d \<in> set (filter (\<lambda>c. \<not> is_ascii_whitespace c) body)" by simp
  then have "decode_char 0x2d \<noteq> None" using assms base64_encode_chars [of "0x2d" der] by simp
  then show False by (simp add: decode_char_def)
qed

lemma occurs_at_drop: "occurs_at (xs @ ys) pat (length xs + j) \<longleftrightarrow> occurs_at ys pat j"
  by (simp add: occurs_at_def)

lemma occurs_at_nth: "occurs_at s pat k \<Longrightarrow> t < length pat \<Longrightarrow> s ! (k + t) = pat ! t"
  using occurs_at_split [of s pat k] occurs_at_length [of s pat k]
  by (metis add_diff_cancel_left' add_leD1 le_add1 length_take min.absorb2 nth_append nth_append_length_plus)

text \<open>
  The text before the \<open>BEGIN\<close> marker, the body and the text after the \<open>END\<close> marker: no \<open>BEGIN\<close> of
  the label starts before this one or after its end, and no \<open>END\<close> of the label before this one.
\<close>

definition pem_block :: "bytes \<Rightarrow> bytes \<Rightarrow> bytes \<Rightarrow> bytes \<Rightarrow> bytes \<Rightarrow> bool" where
  "pem_block label pem pre body post \<longleftrightarrow>
     pem = pre @ begin_marker label @ body @ end_marker label @ post
     \<and> (\<forall>k. occurs_at pem (begin_marker label) k \<longrightarrow>
           length pre \<le> k \<and> k < length pre + length (begin_marker label))
     \<and> (\<forall>k < length body. \<not> occurs_at (body @ end_marker label @ post) (end_marker label) k)"

lemma pem_decode_block:
  assumes "pem_block label pem pre body post"
  shows "pem_decode pem label = base64_decode body"
proof -
  let ?b = "begin_marker label" and ?e = "end_marker label"
  have pem: "pem = pre @ ?b @ body @ ?e @ post"
    and only: "\<And>k. occurs_at pem ?b k \<Longrightarrow> length pre \<le> k \<and> k < length pre + length ?b"
    and first: "\<forall>k < length body. \<not> occurs_at (body @ ?e @ post) ?e k"
    using assms by (auto simp: pem_block_def)
  have "str_find pem ?b = Some (length pre)"
    unfolding str_find_Some using occurs_at_append [of pre ?b "body @ ?e @ post"] only
    by (metis not_le pem)
  moreover have rest: "drop (length pre + length ?b) pem = body @ ?e @ post"
    by (simp add: pem)
  moreover have "str_find (body @ ?e @ post) ?b = None"
    unfolding str_find_None
  proof (intro allI notI)
    fix j assume "occurs_at (body @ ?e @ post) ?b j"
    then have "occurs_at pem ?b (length (pre @ ?b) + j)"
      using occurs_at_drop [of "pre @ ?b" "body @ ?e @ post" ?b j] by (simp add: pem)
    then show False using only by fastforce
  qed
  moreover have "str_find (body @ ?e @ post) ?e = Some (length body)"
    unfolding str_find_Some using occurs_at_append [of body ?e post] first by blast
  ultimately show ?thesis
    unfolding pem_decode_def Let_def by simp
qed

lemma pem_decode_blockE:
  assumes "pem_decode pem label = Inr der"
  obtains pre body post where "pem_block label pem pre body post"
proof -
  let ?b = "begin_marker label" and ?e = "end_marker label"
  obtain i j where f: "str_find pem ?b = Some i" "str_find (drop (i + length ?b) pem) ?b = None"
    "str_find (drop (i + length ?b) pem) ?e = Some j"
    using assms unfolding pem_decode_def Let_def by (auto split: option.splits if_splits)
  define rest where "rest = drop (i + length ?b) pem"
  have occ: "occurs_at pem ?b i" "\<forall>k < i. \<not> occurs_at pem ?b k"
    and e: "occurs_at rest ?e j" "\<forall>k < j. \<not> occurs_at rest ?e k"
    using f(1,3) unfolding str_find_Some rest_def by blast+
  have p: "pem = take i pem @ ?b @ rest" using occ(1) occurs_at_split unfolding rest_def by blast
  have r: "rest = take j rest @ ?e @ drop (j + length ?e) rest" using e(1) occurs_at_split by blast
  have i: "length (take i pem) = i" and j: "length (take j rest) = j"
    using occ(1) e(1) by (simp_all add: occurs_at_def)
  have "k < i + length ?b" if "occurs_at pem ?b k" for k
  proof (rule ccontr)
    assume "\<not> k < i + length ?b"
    then have "occurs_at rest ?b (k - (i + length ?b))"
      using that occurs_at_drop [of "take i pem @ ?b" rest ?b "k - (i + length ?b)"] p i by simp
    then show False using f(2) unfolding str_find_None rest_def by blast
  qed
  then have "pem_block label pem (take i pem) (take j rest) (drop (j + length ?e) rest)"
    unfolding pem_block_def using p r i j occ(2) e(2) by (metis append.assoc not_less)
  then show ?thesis by (rule that)
qed

text \<open>
  Two occurrences of a \<open>BEGIN\<close> marker can overlap only in the dashes: for a label without dashes the
  second one starts at one of the last five bytes of the first.
\<close>

lemma begin_marker_split:
  "begin_marker label = replicate 5 0x2d @ (ascii ''BEGIN '' @ label) @ replicate 5 0x2d"
  by (simp add: begin_marker_def ascii_def numeral_eq_Suc)

lemma length_begin_word: "length (ascii ''BEGIN '' @ label) = length label + 6"
  by (simp add: ascii_def)

lemma begin_word_dash_free: "0x2d \<notin> set label \<Longrightarrow> 0x2d \<notin> set (ascii ''BEGIN '' @ label)"
  by (simp add: ascii_def)

lemma begin_marker_nth:
  assumes "0x2d \<notin> set label"
  shows "t < 5 \<Longrightarrow> begin_marker label ! t = 0x2d"
    and "5 \<le> t \<Longrightarrow> t < length label + 11 \<Longrightarrow> begin_marker label ! t \<noteq> 0x2d"
    and "begin_marker label ! 5 = 0x42"
proof -
  note len = length_begin_word [of label]
  show "t < 5 \<Longrightarrow> begin_marker label ! t = 0x2d"
    unfolding begin_marker_split by (simp add: nth_append)
  show "begin_marker label ! t \<noteq> 0x2d" if "5 \<le> t" "t < length label + 11"
  proof -
    have "begin_marker label ! t = (ascii ''BEGIN '' @ label) ! (t - 5)"
      unfolding begin_marker_split using that len by (simp only: nth_append length_replicate) simp
    moreover have "(ascii ''BEGIN '' @ label) ! (t - 5) \<in> set (ascii ''BEGIN '' @ label)"
      using that len by (intro nth_mem) simp
    ultimately show ?thesis using begin_word_dash_free [OF assms] by metis
  qed
  show "begin_marker label ! 5 = 0x42"
    by (simp add: begin_marker_def ascii_def)
qed

lemma begin_overlap:
  assumes label: "0x2d \<notin> set label" and pem: "pem = pre @ begin_marker label @ rest"
    and k: "occurs_at pem (begin_marker label) k" "length pre < k"
      "k < length pre + length (begin_marker label)"
  shows "length pre + length label + 11 \<le> k"
proof (rule ccontr)
  let ?b = "begin_marker label"
  define d where "d = k - length pre"
  have d: "k = length pre + d" "0 < d" "d < length label + 16"
    using k(2,3) marker_Cons(3) [of label] by (simp_all add: d_def)
  have shift: "?b ! (d + t) = ?b ! t" if "d + t < length label + 16" for t
  proof -
    have "pem ! (length pre + (d + t)) = ?b ! (d + t)"
      using occurs_at_nth [of pem ?b "length pre" "d + t"] occurs_at_append [of pre ?b rest] that
        marker_Cons(3) [of label] by (simp add: pem)
    moreover have "pem ! (k + t) = ?b ! t"
      using occurs_at_nth [OF k(1), of t] that marker_Cons(3) [of label] by simp
    ultimately show ?thesis by (simp add: d(1) add.assoc)
  qed
  assume "\<not> length pre + length label + 11 \<le> k"
  then have "d < length label + 11" by (simp add: d(1))
  then consider "d < 5" | "5 \<le> d" "d < length label + 11" by linarith
  then show False
  proof cases
    case 1
    then have "?b ! 5 = ?b ! (5 - d)" using shift [of "5 - d"] by simp
    then show False
      using begin_marker_nth(1) [OF label, of "5 - d"] begin_marker_nth(3) [OF label] d(2) by simp
  next
    case 2
    then show False
      using shift [of 0] begin_marker_nth(1) [OF label, of 0] begin_marker_nth(2) [OF label, of d]
      by simp
  qed
qed

lemma end_marker_nth: "t < 5 \<Longrightarrow> end_marker label ! t = 0x2d"
proof -
  have "end_marker label = replicate 5 0x2d @ ascii ''END '' @ label @ ascii ''-----''"
    by (simp add: end_marker_def ascii_def numeral_eq_Suc)
  then show "t < 5 \<Longrightarrow> end_marker label ! t = 0x2d" by (simp add: nth_append)
qed

text \<open>What follows the first marker continues the second one, which starts \<open>5 - e\<close> bytes before it.\<close>

lemma overlap_rest:
  assumes label: "0x2d \<notin> set label" and pem: "pem = pre @ begin_marker label @ rest"
    and k: "occurs_at pem (begin_marker label) k" "length pre < k"
      "k < length pre + length (begin_marker label)"
  obtains e where "e < 5"
    and "\<And>s. s < length label + 11 + e \<Longrightarrow> rest ! s = begin_marker label ! (5 - e + s)"
    and "length label + 11 + e \<le> length rest"
proof -
  let ?b = "begin_marker label"
  define e where "e = k - (length pre + length label + 11)"
  have e: "k = length pre + length label + 11 + e" "e < 5"
    using begin_overlap [OF label pem k] k(3) marker_Cons(3) [of label] by (simp_all add: e_def)
  have "rest ! s = ?b ! (5 - e + s)" if "s < length label + 11 + e" for s
  proof -
    have "pem ! (k + (5 - e + s)) = ?b ! (5 - e + s)"
      using occurs_at_nth [OF k(1), of "5 - e + s"] that e(2) marker_Cons(3) [of label] by simp
    moreover have "k + (5 - e + s) = length (pre @ ?b) + s"
      using e marker_Cons(3) [of label] by simp
    ultimately show ?thesis
      using nth_append_length_plus [of "pre @ ?b" rest s] by (simp add: pem)
  qed
  moreover have "length label + 11 + e \<le> length rest"
    using occurs_at_length [OF k(1)] marker_Cons(3) [of label] by (simp add: pem e(1))
  ultimately show ?thesis using that e(2) by blast
qed

lemma takeWhile_upto: "c \<notin> set xs \<Longrightarrow> takeWhile ((\<noteq>) c) (xs @ c # ys) = xs"
  by (induction xs) auto

lemma overlap_body:
  assumes label: "0x2d \<notin> set label" and body: "0x2d \<notin> set body"
    and pem: "pem = pre @ begin_marker label @ body @ end_marker label @ post"
    and k: "occurs_at pem (begin_marker label) k" "length pre < k"
      "k < length pre + length (begin_marker label)"
  shows "body = ascii ''BEGIN '' @ label"
proof -
  let ?b = "begin_marker label" and ?r = "body @ end_marker label @ post"
  obtain e where e: "e < 5" and rest: "\<And>s. s < length label + 11 + e \<Longrightarrow> ?r ! s = ?b ! (5 - e + s)"
    and len: "length label + 11 + e \<le> length ?r"
    using overlap_rest [OF label pem k] by blast
  obtain es where es: "end_marker label = 0x2d # es" using marker_Cons(2) by blast
  have "e = 0"
  proof (rule ccontr)
    assume "e \<noteq> 0"
    then have "?r ! 0 = 0x2d" using rest [of 0] begin_marker_nth(1) [OF label, of "5 - e"] by simp
    then have "body = []" using body by (cases body) auto
    then have "?r ! e = 0x2d"
      using end_marker_nth [OF e] marker_Cons(4) [of label] e by (simp add: nth_append)
    then show False using rest [of e] e begin_marker_nth(3) [OF label] by simp
  qed
  define r where "r = ?r"
  have "take (length label + 11) r = drop 5 ?b"
    using rest len marker_Cons(3) [of label] \<open>e = 0\<close> unfolding r_def [symmetric]
    by (intro nth_equalityI) simp_all
  also have "drop 5 ?b = (ascii ''BEGIN '' @ label) @ 0x2d # replicate 4 0x2d"
    unfolding begin_marker_split by (simp add: numeral_eq_Suc)
  finally have "r = (ascii ''BEGIN '' @ label) @ 0x2d # (replicate 4 0x2d @ drop (length label + 11) r)"
    using append_take_drop_id [of "length label + 11" r] by simp
  then have "takeWhile ((\<noteq>) 0x2d) r = ascii ''BEGIN '' @ label"
    using takeWhile_upto [OF begin_word_dash_free [OF label]] by metis
  moreover have "takeWhile ((\<noteq>) 0x2d) r = body"
    using takeWhile_upto [OF body] by (simp add: r_def es)
  ultimately show ?thesis by simp
qed

text \<open>C40. What \<open>pem_decode\<close> accepts, exactly: it returns \<open>der\<close> if and only if the text has one block of the
label, where no \<open>BEGIN\<close> marker of the label starts before the block's own or after the end of it and its \<open>END\<close>
marker is the first one, and the block holds nothing but the base64 encoding of \<open>der\<close>, up to white space.  For a
label without dashes the \<open>BEGIN\<close> marker of an accepted text then occurs nowhere else at all, except when the body
is the word \<open>BEGIN\<close> and the label, which shares its surrounding dashes with both markers.\<close>

theorem pem_decode_strict:
  assumes "count_list pem 0x3d < 2 ^ 32"
  shows "(pem_decode pem label = Inr der \<longleftrightarrow>
      (\<exists>pre body post. pem_block label pem pre body post
        \<and> filter (\<lambda>c. \<not> is_ascii_whitespace c) body = base64_encode der))
    \<and> (pem_decode pem label = Inr der \<and> 0x2d \<notin> set label \<longrightarrow>
      (\<exists>pre body post. pem = pre @ begin_marker label @ body @ end_marker label @ post
        \<and> filter (\<lambda>c. \<not> is_ascii_whitespace c) body = base64_encode der
        \<and> ((\<forall>k. occurs_at pem (begin_marker label) k \<longleftrightarrow> k = length pre)
           \<or> body = ascii ''BEGIN '' @ label)))"
proof -
  let ?plain = "filter (\<lambda>c. \<not> is_ascii_whitespace c)"
  have decode: "pem_decode pem label = Inr der \<longleftrightarrow> ?plain body = base64_encode der"
    if blk: "pem_block label pem pre body post" for pre body post
  proof -
    have "count_list body 0x3d \<le> count_list pem 0x3d"
      using blk by (simp add: pem_block_def count_list_append)
    then show ?thesis
      using base64_decode_iff [of body der] assms pem_decode_block [OF blk] by simp
  qed
  then have exact: "pem_decode pem label = Inr der \<longleftrightarrow>
      (\<exists>pre body post. pem_block label pem pre body post \<and> ?plain body = base64_encode der)"
    using pem_decode_blockE by metis
  moreover have "\<exists>pre body post. pem = pre @ begin_marker label @ body @ end_marker label @ post
      \<and> ?plain body = base64_encode der
      \<and> ((\<forall>k. occurs_at pem (begin_marker label) k \<longleftrightarrow> k = length pre) \<or> body = ascii ''BEGIN '' @ label)"
    if accepted: "pem_decode pem label = Inr der" and label: "0x2d \<notin> set label"
  proof -
    obtain pre body post where blk: "pem_block label pem pre body post"
      and plain: "?plain body = base64_encode der"
      using accepted exact by blast
    have pem: "pem = pre @ begin_marker label @ body @ end_marker label @ post"
      using blk by (simp add: pem_block_def)
    have "occurs_at pem (begin_marker label) (length pre)"
      unfolding pem by (rule occurs_at_append)
    moreover have "body = ascii ''BEGIN '' @ label"
      if "occurs_at pem (begin_marker label) k" "k \<noteq> length pre" for k
      using overlap_body [OF label body_dash_free [OF plain] pem, of k] blk that
      unfolding pem_block_def by (metis le_neq_implies_less)
    ultimately show ?thesis using pem plain by metis
  qed
  ultimately show ?thesis by blast
qed

theorem pem_decode_strict_witness:
  "pem_decode (ascii ''note-----BEGIN K-----Zm9v-----END K-----'') (ascii ''K'') = Inr (ascii ''foo'')
    \<and> (\<exists>pre body post. ascii ''note-----BEGIN K-----Zm9v-----END K-----''
        = pre @ begin_marker (ascii ''K'') @ body @ end_marker (ascii ''K'') @ post
      \<and> filter (\<lambda>c. \<not> is_ascii_whitespace c) body = base64_encode (ascii ''foo'')
      \<and> ((\<forall>k. occurs_at (ascii ''note-----BEGIN K-----Zm9v-----END K-----'') (begin_marker (ascii ''K'')) k
            \<longleftrightarrow> k = length pre)
         \<or> body = ascii ''BEGIN '' @ ascii ''K''))"
proof -
  let ?pem = "ascii ''note-----BEGIN K-----Zm9v-----END K-----''"
  have d: "pem_decode ?pem (ascii ''K'') = Inr (ascii ''foo'')" by code_simp
  have c: "count_list ?pem 0x3d < 2 ^ 32"
    by (rule le_less_trans [OF count_le_length]) (simp add: ascii_def)
  have "0x2d \<notin> set (ascii ''K'')" by (simp add: ascii_def)
  then show ?thesis
    using pem_decode_strict [OF c, of "ascii ''K''" "ascii ''foo''"] d by blast
qed

text \<open>
  The exception is real: the check for a second \<open>BEGIN\<close> looks only after the end of the first one, so
  a text in which the two markers share their dashes is accepted although it has two of them.
\<close>

lemma pem_overlapping_markers:
  "pem_decode (ascii ''-----BEGIN KEY-----BEGIN KEY-----END KEY-----'') (ascii ''KEY'')
      = base64_decode (ascii ''BEGINKEY'')
    \<and> pem_decode (ascii ''-----BEGIN KEY-----BEGIN KEY-----END KEY-----'') (ascii ''KEY'')
      = Inr [0x04, 0x41, 0x88, 0x34, 0xa1, 0x18]
    \<and> occurs_at (ascii ''-----BEGIN KEY-----BEGIN KEY-----END KEY-----'') (begin_marker (ascii ''KEY'')) 0
    \<and> occurs_at (ascii ''-----BEGIN KEY-----BEGIN KEY-----END KEY-----'') (begin_marker (ascii ''KEY'')) 14"
  by code_simp

end
