(* ===== verification/BTree.thy ===== *)
theory BTree
  imports Prelude
begin

text \<open>
  The operations of \<open>BTreeMap<u64, V>\<close> that the program uses, on association lists sorted by key: the entries in
  iteration order.  \<open>bt_wf\<close> is the sortedness every operation keeps; the laws are stated on \<open>map_of\<close>.
\<close>

type_synonym 'v btree = "(u64 \<times> 'v) list"

definition bt_wf :: "'v btree \<Rightarrow> bool" where
  "bt_wf m \<longleftrightarrow> sorted_wrt (<) (map fst m)"

fun bt_insert :: "u64 \<Rightarrow> 'v \<Rightarrow> 'v btree \<Rightarrow> 'v btree" where
  "bt_insert k v [] = [(k, v)]"
| "bt_insert k v ((k', v') # m) =
     (if k < k' then (k, v) # (k', v') # m
      else if k = k' then (k, v) # m
      else (k', v') # bt_insert k v m)"

definition bt_remove :: "u64 \<Rightarrow> 'v btree \<Rightarrow> 'v btree" where
  "bt_remove k m = filter (\<lambda>e. fst e \<noteq> k) m"

definition bt_get :: "'v btree \<Rightarrow> u64 \<Rightarrow> 'v option" where
  "bt_get m k = map_of m k"

text \<open>\<open>iter().next()\<close>, \<open>range(..k).next_back()\<close>, \<open>range(..=k).next_back()\<close>, \<open>range(a..b)\<close>.\<close>

definition bt_first :: "'v btree \<Rightarrow> (u64 \<times> 'v) option" where
  "bt_first m = (case m of [] \<Rightarrow> None | e # _ \<Rightarrow> Some e)"

definition last_opt :: "'a list \<Rightarrow> 'a option" where
  "last_opt xs = (if xs = [] then None else Some (last xs))"

definition bt_last_below :: "u64 \<Rightarrow> 'v btree \<Rightarrow> (u64 \<times> 'v) option" where
  "bt_last_below k m = last_opt (filter (\<lambda>e. fst e < k) m)"

definition bt_last_upto :: "u64 \<Rightarrow> 'v btree \<Rightarrow> (u64 \<times> 'v) option" where
  "bt_last_upto k m = last_opt (filter (\<lambda>e. fst e \<le> k) m)"

definition bt_range :: "u64 \<Rightarrow> u64 \<Rightarrow> 'v btree \<Rightarrow> 'v btree" where
  "bt_range a b m = filter (\<lambda>e. a \<le> fst e \<and> fst e < b) m"

section \<open>Laws\<close>

lemma bt_wf_simps [simp]: "bt_wf []" "bt_wf ((k, v) # m) \<longleftrightarrow> (\<forall>e \<in> set m. k < fst e) \<and> bt_wf m"
  by (auto simp: bt_wf_def)

lemma bt_wf_Cons: "bt_wf (e # m) \<longleftrightarrow> (\<forall>e' \<in> set m. fst e < fst e') \<and> bt_wf m"
  by (cases e) simp

lemma bt_wf_distinct: "bt_wf m \<Longrightarrow> distinct (map fst m)"
  unfolding bt_wf_def by (induction m) auto

lemma bt_wf_filter: "bt_wf m \<Longrightarrow> bt_wf (filter P m)"
  by (induction m) (auto simp: bt_wf_Cons)

lemma set_bt_insert: "bt_wf m \<Longrightarrow> set (bt_insert k v m) = insert (k, v) {e \<in> set m. fst e \<noteq> k}"
proof (induction m)
  case (Cons e m)
  obtain k' v' where e: "e = (k', v')" by fastforce
  show ?case
  proof (cases "k < k'")
    case True
    then show ?thesis using Cons.prems by (auto simp: e)
  next
    case False
    then show ?thesis using Cons by (auto simp: e not_less)
  qed
qed simp

lemma bt_insert_wf: "bt_wf m \<Longrightarrow> bt_wf (bt_insert k v m)"
proof (induction m)
  case (Cons e m)
  obtain k' v' where e: "e = (k', v')" by fastforce
  show ?case using Cons by (auto simp: e set_bt_insert not_less)
qed simp

lemma bt_remove_wf: "bt_wf m \<Longrightarrow> bt_wf (bt_remove k m)"
  by (simp add: bt_remove_def bt_wf_filter)

lemma set_bt_remove [simp]: "set (bt_remove k m) = {e \<in> set m. fst e \<noteq> k}"
  by (auto simp: bt_remove_def)

lemma bt_remove_head: "bt_wf ((k, v) # m) \<Longrightarrow> bt_remove k ((k, v) # m) = m"
  by (auto simp: bt_remove_def intro!: filter_True)

lemma bt_get_iff: "bt_wf m \<Longrightarrow> bt_get m k = Some v \<longleftrightarrow> (k, v) \<in> set m"
  by (simp add: bt_get_def bt_wf_distinct)

lemma bt_get_None: "bt_get m k = None \<longleftrightarrow> k \<notin> fst ` set m"
  by (simp add: bt_get_def map_of_eq_None_iff)

lemma last_opt_filter:
  assumes "bt_wf m" "last_opt (filter P m) = Some (k, v)"
  shows "(k, v) \<in> set m" "P (k, v)" "\<forall>e \<in> set m. P e \<longrightarrow> fst e \<le> k"
proof -
  have ne: "filter P m \<noteq> []" and l: "last (filter P m) = (k, v)"
    using assms(2) by (auto simp: last_opt_def split: if_splits)
  then have "(k, v) \<in> set (filter P m)" using last_in_set by metis
  then show "(k, v) \<in> set m" "P (k, v)" by auto
  obtain xs where xs: "filter P m = xs @ [(k, v)]" using ne l by (metis append_butlast_last_id)
  have "bt_wf (xs @ [(k, v)])" using bt_wf_filter [OF assms(1), of P] by (simp add: xs)
  then have "\<forall>e \<in> set xs. fst e < k" by (simp add: bt_wf_def sorted_wrt_append)
  moreover have "set (filter P m) = insert (k, v) (set xs)" by (simp add: xs)
  ultimately have "\<forall>e \<in> set (filter P m). fst e \<le> k" by auto
  then show "\<forall>e \<in> set m. P e \<longrightarrow> fst e \<le> k" by auto
qed

lemma last_opt_None: "last_opt xs = None \<longleftrightarrow> xs = []"
  by (simp add: last_opt_def)

lemma bt_insert_length: "bt_wf m \<Longrightarrow> length (bt_insert k v m) = length m + (if bt_get m k = None then 1 else 0)"
proof (induction m)
  case (Cons e m)
  obtain k' v' where e: "e = (k', v')" by fastforce
  show ?case
  proof (cases "k < k'")
    case True
    then have "k \<notin> fst ` set m" using Cons.prems by (auto simp: e)
    then show ?thesis using True by (auto simp: e bt_get_None)
  next
    case False
    then show ?thesis using Cons by (auto simp: e bt_get_def)
  qed
qed (simp add: bt_get_def)

text \<open>The total of a measure of the values changes by what is replaced.\<close>

lemma bt_insert_sum:
  fixes f :: "'v \<Rightarrow> nat"
  assumes "bt_wf m"
  shows "sum_list (map (\<lambda>e. f (snd e)) (bt_insert k v m)) + (case bt_get m k of None \<Rightarrow> 0 | Some w \<Rightarrow> f w)
    = sum_list (map (\<lambda>e. f (snd e)) m) + f v"
  using assms
proof (induction m)
  case (Cons e m)
  obtain k' v' where e: "e = (k', v')" by fastforce
  show ?case
  proof (cases "k < k'")
    case True
    then have "k \<notin> fst ` set m" using Cons.prems by (auto simp: e)
    then have "bt_get (e # m) k = None" using True by (auto simp: e bt_get_None)
    then show ?thesis using True by (simp add: e)
  next
    case False
    then show ?thesis using Cons by (auto simp: e bt_get_def)
  qed
qed (simp add: bt_get_def)

end
