(* ===== verification/Reassembly.thy ===== *)
theory Reassembly
  imports BTree
begin

text \<open>
  The contract of an in-order reassembly buffer: fragments of a byte stream arrive in any order, overlapping and
  repeated, and the buffer releases the stream.  \<open>reassembler\<close> states what one step promises; the lemmas proved once
  in it say what a whole sequence of arrivals releases.
\<close>

section \<open>Fragments of a stream\<close>

text \<open>A stream is a function from offsets to bytes; a fragment is an offset with bytes.\<close>

definition is_slice :: "(nat \<Rightarrow> u8) \<Rightarrow> nat \<times> bytes \<Rightarrow> bool" where
  "is_slice S f \<longleftrightarrow> snd f = map S [fst f..<fst f + length (snd f)]"

definition span :: "nat \<times> bytes \<Rightarrow> nat set" where
  "span f = {fst f..<fst f + length (snd f)}"

lemma is_slice_Nil [simp]: "is_slice S (n, [])"
  by (simp add: is_slice_def)

lemma is_slice_append: "is_slice S (n, xs @ ys) \<longleftrightarrow> is_slice S (n, xs) \<and> is_slice S (n + length xs, ys)"
proof -
  have "[n..<n + (length xs + length ys)] = [n..<n + length xs] @ [n + length xs..<n + length xs + length ys]"
    unfolding add.assoc [symmetric] by (rule upt_add_eq_append) simp
  then show ?thesis by (simp add: is_slice_def)
qed

lemma is_slice_drop: "is_slice S (n, xs) \<Longrightarrow> k \<le> length xs \<Longrightarrow> is_slice S (n + k, drop k xs)"
  using is_slice_append [of S n "take k xs" "drop k xs"] by simp

lemma is_slice_take: "is_slice S (n, xs) \<Longrightarrow> is_slice S (n, take k xs)"
  using is_slice_append [of S n "take k xs" "drop k xs"] by simp

lemma span_Nil [simp]: "span (n, []) = {}"
  by (simp add: span_def)

section \<open>Sequences of arrivals\<close>

fun feed :: "('s \<Rightarrow> 'f \<Rightarrow> (bytes \<times> 's) option) \<Rightarrow> 's \<Rightarrow> 'f list \<Rightarrow> (bytes \<times> 's) option" where
  "feed step s [] = Some ([], s)"
| "feed step s (f # fs) =
     (case step s f of
        None \<Rightarrow> None
      | Some (r, s') \<Rightarrow> (case feed step s' fs of None \<Rightarrow> None | Some (rs, s'') \<Rightarrow> Some (r @ rs, s'')))"

lemma feed_Cons_Some:
  "feed step s (f # fs) = Some (rel, t) \<longleftrightarrow>
   (\<exists>r s' rs. step s f = Some (r, s') \<and> feed step s' fs = Some (rs, t) \<and> rel = r @ rs)"
  by (auto split: option.splits)

locale reassembler =
  fixes step :: "'s \<Rightarrow> 'f \<Rightarrow> (bytes \<times> 's) option"
    and frag :: "'f \<Rightarrow> nat \<times> bytes"
    and nxt :: "'s \<Rightarrow> nat"
    and held :: "'s \<Rightarrow> (nat \<times> bytes) set"
    and ok :: "'s \<Rightarrow> bool"
    and fits :: "'f \<Rightarrow> bool"
  assumes step_ok: "ok s \<Longrightarrow> fits f \<Longrightarrow> step s f = Some (r, s') \<Longrightarrow> ok s'"
    and step_next: "ok s \<Longrightarrow> fits f \<Longrightarrow> step s f = Some (r, s') \<Longrightarrow> nxt s' = nxt s + length r"
    and step_cover: "ok s \<Longrightarrow> fits f \<Longrightarrow> step s f = Some (r, s') \<Longrightarrow>
      {..<nxt s'} \<union> \<Union> (span ` held s') = {..<nxt s} \<union> \<Union> (span ` held s) \<union> span (frag f)"
    and step_bytes: "ok s \<Longrightarrow> fits f \<Longrightarrow> step s f = Some (r, s') \<Longrightarrow> is_slice S (frag f) \<Longrightarrow>
      \<forall>h \<in> held s. is_slice S h \<Longrightarrow> is_slice S (nxt s, r) \<and> (\<forall>h \<in> held s'. is_slice S h)"
    and gap: "ok s \<Longrightarrow> nxt s \<notin> \<Union> (span ` held s)"
begin

lemma feed_ok: "feed step s fs = Some (rel, t) \<Longrightarrow> ok s \<Longrightarrow> \<forall>f \<in> set fs. fits f \<Longrightarrow> ok t"
proof (induction fs arbitrary: s rel)
  case (Cons f fs)
  obtain r s' rs where s: "step s f = Some (r, s')" "feed step s' fs = Some (rs, t)"
    using Cons.prems(1) unfolding feed_Cons_Some by blast
  show ?case using Cons.IH [OF s(2) step_ok [OF Cons.prems(2) _ s(1)]] Cons.prems(3) by simp
qed simp

lemma feed_next:
  "feed step s fs = Some (rel, t) \<Longrightarrow> ok s \<Longrightarrow> \<forall>f \<in> set fs. fits f \<Longrightarrow> nxt t = nxt s + length rel"
proof (induction fs arbitrary: s rel)
  case (Cons f fs)
  obtain r s' rs where s: "step s f = Some (r, s')" "feed step s' fs = Some (rs, t)" "rel = r @ rs"
    using Cons.prems(1) unfolding feed_Cons_Some by blast
  have "nxt t = nxt s' + length rs" using Cons.IH [OF s(2) step_ok [OF _ _ s(1)]] Cons.prems by simp
  then show ?case using step_next [OF _ _ s(1)] Cons.prems s(3) by simp
qed simp

lemma feed_cover:
  "feed step s fs = Some (rel, t) \<Longrightarrow> ok s \<Longrightarrow> \<forall>f \<in> set fs. fits f \<Longrightarrow>
   {..<nxt t} \<union> \<Union> (span ` held t) = {..<nxt s} \<union> \<Union> (span ` held s) \<union> \<Union> (span ` frag ` set fs)"
proof (induction fs arbitrary: s rel)
  case (Cons f fs)
  obtain r s' rs where s: "step s f = Some (r, s')" "feed step s' fs = Some (rs, t)" "rel = r @ rs"
    using Cons.prems(1) unfolding feed_Cons_Some by blast
  have f: "fits f" using Cons.prems(3) by simp
  have "{..<nxt t} \<union> \<Union> (span ` held t) = {..<nxt s'} \<union> \<Union> (span ` held s') \<union> \<Union> (span ` frag ` set fs)"
    using Cons.IH [OF s(2) step_ok [OF Cons.prems(2) f s(1)]] Cons.prems(3) by simp
  then show ?case unfolding step_cover [OF Cons.prems(2) f s(1)] by auto
qed simp

lemma feed_bytes:
  "feed step s fs = Some (rel, t) \<Longrightarrow> ok s \<Longrightarrow> \<forall>f \<in> set fs. fits f \<and> is_slice S (frag f) \<Longrightarrow>
   \<forall>h \<in> held s. is_slice S h \<Longrightarrow> is_slice S (nxt s, rel)"
proof (induction fs arbitrary: s rel)
  case (Cons f fs)
  obtain r s' rs where s: "step s f = Some (r, s')" "feed step s' fs = Some (rs, t)" "rel = r @ rs"
    using Cons.prems(1) unfolding feed_Cons_Some by blast
  have f: "fits f" "is_slice S (frag f)" using Cons.prems(3) by simp_all
  note b = step_bytes [OF Cons.prems(2) f(1) s(1) f(2) Cons.prems(4)]
  have "is_slice S (nxt s', rs)"
    using Cons.IH [OF s(2) step_ok [OF Cons.prems(2) f(1) s(1)]] Cons.prems(3) b by simp
  then show ?case using b step_next [OF Cons.prems(2) f(1) s(1)] by (simp add: s(3) is_slice_append)
qed simp

text \<open>From an empty buffer, what has been released is the stream up to the first offset no fragment covered.\<close>

lemma feed_prefix:
  assumes "feed step s fs = Some (rel, t)" "ok s" "\<forall>f \<in> set fs. fits f \<and> is_slice S (frag f)" "nxt s = 0" "held s = {}"
  shows "rel = map S [0..<nxt t] \<and> {..<nxt t} \<subseteq> \<Union> (span ` frag ` set fs) \<and> nxt t \<notin> \<Union> (span ` frag ` set fs)"
proof -
  have fits: "\<forall>f \<in> set fs. fits f" using assms(3) by blast
  have "is_slice S (nxt s, rel)" using feed_bytes [OF assms(1,2,3)] assms(5) by blast
  moreover have "nxt t = length rel" using feed_next [OF assms(1,2) fits] assms(4) by simp
  ultimately have "rel = map S [0..<nxt t]" using assms(4) by (simp add: is_slice_def)
  moreover have c: "{..<nxt t} \<union> \<Union> (span ` held t) = \<Union> (span ` frag ` set fs)"
    using feed_cover [OF assms(1,2) fits] unfolding assms(4,5) by simp
  moreover have "nxt t \<notin> {..<nxt t} \<union> \<Union> (span ` held t)" using gap [OF feed_ok [OF assms(1,2) fits]] by simp
  ultimately show ?thesis unfolding c [symmetric] by blast
qed

end

end
