(* ===== verification/CryptoBuf.thy ===== *)
theory CryptoBuf
  imports Reassembly TlsError
begin

text \<open>
  The CRYPTO stream of one QUIC encryption level (\<open>quic/crypto_buf.rs\<close>): reassembly of what the peer sends, and the
  outbound queue with its retransmissions.  The receive side implements the reassembly contract.
\<close>

section \<open>State\<close>

definition MAX_PENDING_CRYPTO_BYTES :: nat where
  "MAX_PENDING_CRYPTO_BYTES = 64 * 1024"

definition MAX_PENDING_FRAGMENTS :: nat where
  "MAX_PENDING_FRAGMENTS = 32"

record crypto_buf =
  cb_next_offset :: u64
  cb_pending :: "bytes btree"
  cb_outbound :: bytes
  cb_outbound_offset :: u64
  cb_last_sent :: "(u64 \<times> bytes) option"
  cb_rtx :: "(u64 \<times> bytes) list"
  cb_sent_history :: "bytes btree"

definition crypto_buf_new :: crypto_buf where
  "crypto_buf_new = \<lparr>cb_next_offset = 0, cb_pending = [], cb_outbound = [], cb_outbound_offset = 0,
     cb_last_sent = None, cb_rtx = [], cb_sent_history = []\<rparr>"

definition is_pending_empty :: "crypto_buf \<Rightarrow> bool" where
  "is_pending_empty self \<longleftrightarrow> cb_pending self = []"

section \<open>Receiving\<close>

text \<open>The drain of consecutive pending fragments; removing the first entry of a map leaves its tail.\<close>

fun drain_pending :: "bytes btree \<Rightarrow> u64 \<Rightarrow> bytes \<Rightarrow> bytes btree \<times> u64 \<times> bytes" where
  "drain_pending [] next_offset released = ([], next_offset, released)"
| "drain_pending ((p_off, frag) # pending) next_offset released =
     (if p_off \<le> next_offset then
        (let end_off = p_off + word_of_nat (length frag) in
         if end_off \<le> next_offset then drain_pending pending next_offset released
         else drain_pending pending end_off (released @ drop (unat (next_offset - p_off)) frag))
      else ((p_off, frag) # pending, next_offset, released))"

definition total_pending_bytes :: "crypto_buf \<Rightarrow> nat" where
  "total_pending_bytes self = sum_list (map (\<lambda>e. length (snd e)) (cb_pending self))"

definition on_crypto_in_order :: "crypto_buf \<Rightarrow> bytes \<Rightarrow> (tls_error + bytes) \<times> crypto_buf" where
  "on_crypto_in_order self data = (
     let (pending, next_offset, released) =
       drain_pending (cb_pending self) (cb_next_offset self + word_of_nat (length data)) data in
     (Inr released, self\<lparr>cb_pending := pending, cb_next_offset := next_offset\<rparr>))"

definition on_crypto_out_of_order :: "crypto_buf \<Rightarrow> u64 \<Rightarrow> bytes \<Rightarrow> (tls_error + bytes) \<times> crypto_buf" where
  "on_crypto_out_of_order self offset data = (
     let end_off = offset + word_of_nat (length data);
         covered = (case bt_last_below offset (cb_pending self) of
             None \<Rightarrow> False
           | Some (prev_off, prev_data) \<Rightarrow> end_off \<le> prev_off + word_of_nat (length prev_data));
         existing_len = (case bt_get (cb_pending self) offset of None \<Rightarrow> 0 | Some v \<Rightarrow> length v) in
     if covered then (Inr [], self)
     else if length data \<le> existing_len then (Inr [], self)
     else
       let new_total_bytes = min (2 ^ 64 - 1) (total_pending_bytes self + (length data - existing_len)) in
       if MAX_PENDING_CRYPTO_BYTES < new_total_bytes then (Inl DecodeErr, self)
       else if existing_len = 0 \<and> MAX_PENDING_FRAGMENTS \<le> length (cb_pending self) then (Inl DecodeErr, self)
       else (Inr [], self\<lparr>cb_pending := bt_insert offset data (cb_pending self)\<rparr>))"

definition on_crypto_trimmed :: "crypto_buf \<Rightarrow> u64 \<Rightarrow> bytes \<Rightarrow> (tls_error + bytes) \<times> crypto_buf" where
  "on_crypto_trimmed self offset data =
     (if data = [] then (Inr [], self)
      else if offset = cb_next_offset self then on_crypto_in_order self data
      else on_crypto_out_of_order self offset data)"

definition on_crypto :: "crypto_buf \<Rightarrow> u64 \<Rightarrow> bytes \<Rightarrow> (tls_error + bytes) \<times> crypto_buf" where
  "on_crypto self offset data =
     (if offset < cb_next_offset self then
        (let skip = unat (cb_next_offset self - offset) in
         if length data \<le> skip then (Inr [], self)
         else on_crypto_trimmed self (cb_next_offset self) (drop skip data))
      else on_crypto_trimmed self offset data)"

section \<open>Sending\<close>

definition enqueue_outbound :: "crypto_buf \<Rightarrow> bytes \<Rightarrow> crypto_buf" where
  "enqueue_outbound self data = self\<lparr>cb_outbound := cb_outbound self @ data\<rparr>"

definition outbound_pending :: "crypto_buf \<Rightarrow> bool" where
  "outbound_pending self \<longleftrightarrow> cb_outbound self \<noteq> [] \<or> cb_rtx self \<noteq> []"

definition outbound_len :: "crypto_buf \<Rightarrow> nat" where
  "outbound_len self = length (cb_outbound self) + sum_list (map (\<lambda>e. length (snd e)) (cb_rtx self))"

definition carve_rtx :: "crypto_buf \<Rightarrow> nat \<Rightarrow> u64 \<Rightarrow> bytes \<Rightarrow> (u64 \<times> bytes) list \<Rightarrow> (u64 \<times> bytes) option \<times> crypto_buf" where
  "carve_rtx self cap offset chunk rest = (
     let rtx = (if cap < length chunk then (offset + word_of_nat cap, drop cap chunk) # rest else rest);
         chunk = take cap chunk;
         known = (case bt_get (cb_sent_history self) offset of None \<Rightarrow> 0 | Some v \<Rightarrow> length v) in
     (Some (offset, chunk),
      self\<lparr>cb_rtx := rtx, cb_last_sent := Some (offset, chunk),
           cb_sent_history := (if known \<le> length chunk then bt_insert offset chunk (cb_sent_history self)
                               else cb_sent_history self)\<rparr>))"

definition carve :: "crypto_buf \<Rightarrow> nat \<Rightarrow> (u64 \<times> bytes) option \<times> crypto_buf" where
  "carve self cap =
     (case cb_rtx self of
        (offset, chunk) # rest \<Rightarrow> carve_rtx self cap offset chunk rest
      | [] \<Rightarrow>
          if cb_outbound self = [] then (None, self)
          else
            let n = min cap (length (cb_outbound self)); chunk = take n (cb_outbound self); offset = cb_outbound_offset self in
            (Some (offset, chunk),
             self\<lparr>cb_outbound := drop n (cb_outbound self),
                  cb_outbound_offset := cb_outbound_offset self + word_of_nat (length chunk),
                  cb_last_sent := Some (offset, chunk),
                  cb_sent_history := bt_insert offset chunk (cb_sent_history self)\<rparr>))"

text \<open>The gathering loop of \<open>requeue_range\<close>: \<open>None\<close> for the early \<open>return false\<close>.  An iteration that would not advance
the cursor is \<open>None\<close> as well; \<open>requeue_gather_advances\<close> shows that there is none.\<close>

function requeue_gather :: "bytes btree \<Rightarrow> u64 \<Rightarrow> u64 \<Rightarrow> bytes \<Rightarrow> bytes option" where
  "requeue_gather history cursor end_off acc =
     (if cursor < end_off then
        (case bt_last_upto cursor history of
           None \<Rightarrow> None
         | Some (entry_off, entry_bytes) \<Rightarrow>
             if entry_off + word_of_nat (length entry_bytes) \<le> cursor then None
             else
               let local_skip = unat (cursor - entry_off);
                   local_take = min (unat (end_off - cursor)) (length entry_bytes - local_skip) in
               if local_take = 0 then None
               else requeue_gather history (cursor + word_of_nat local_take) end_off
                      (acc @ take local_take (drop local_skip entry_bytes)))
      else Some acc)"
  by pat_completeness auto
termination
proof (relation "measure (\<lambda>(_, cursor, end_off, _). unat end_off - unat cursor)")
  fix history :: "bytes btree" and cursor end_off :: u64 and acc entry_bytes :: bytes and local_skip local_take
  assume lt: "cursor < end_off" and "local_take = min (unat (end_off - cursor)) (length entry_bytes - local_skip)" "local_take \<noteq> 0"
  then have "local_take \<le> unat end_off - unat cursor" "0 < local_take" by (auto simp: unat_sub word_less_nat_alt word_le_nat_alt)
  then have "unat (cursor + word_of_nat local_take) = unat cursor + local_take"
    using lt unat_lt [of end_off] by (simp add: unat_word_ariths unat_of_nat word_less_nat_alt)
  then show "((history, cursor + word_of_nat local_take, end_off, acc @ take local_take (drop local_skip entry_bytes)),
      (history, cursor, end_off, acc)) \<in> measure (\<lambda>(_, cursor, end_off, _). unat end_off - unat cursor)"
    using lt \<open>0 < local_take\<close> by (simp add: word_less_nat_alt)
qed simp

declare requeue_gather.simps [simp del]

definition saturating_add_u64 :: "u64 \<Rightarrow> u64 \<Rightarrow> u64" where
  "saturating_add_u64 a b = (if unat a + unat b < 2 ^ 64 then a + b else -1)"

definition requeue_range :: "crypto_buf \<Rightarrow> u64 \<Rightarrow> u64 \<Rightarrow> bool \<times> crypto_buf" where
  "requeue_range self offset len =
     (if len = 0 then (False, self)
      else if \<exists>e \<in> set (cb_rtx self). fst e \<le> offset \<and> offset + len \<le> fst e + word_of_nat (length (snd e)) then (False, self)
      else case requeue_gather (cb_sent_history self) offset (saturating_add_u64 offset len) [] of
          None \<Rightarrow> (False, self)
        | Some bytes_to_requeue \<Rightarrow> (True, self\<lparr>cb_rtx := cb_rtx self @ [(offset, bytes_to_requeue)]\<rparr>))"

definition on_range_acked :: "crypto_buf \<Rightarrow> u64 \<Rightarrow> u64 \<Rightarrow> crypto_buf" where
  "on_range_acked self offset len =
     (if len = 0 then self
      else
        let end_off = saturating_add_u64 offset len;
            covered = map fst (filter (\<lambda>e. fst e + word_of_nat (length (snd e)) \<le> end_off)
                         (bt_range offset end_off (cb_sent_history self))) in
        self\<lparr>cb_sent_history := fold bt_remove covered (cb_sent_history self)\<rparr>)"

definition schedule_last_chunk_retransmit :: "crypto_buf \<Rightarrow> bool \<times> crypto_buf" where
  "schedule_last_chunk_retransmit self =
     (case cb_last_sent self of
        Some (off, bytes) \<Rightarrow> (True, self\<lparr>cb_rtx := (off, bytes) # cb_rtx self\<rparr>)
      | None \<Rightarrow> (False, self))"

section \<open>The buffer stays within its budget\<close>

definition cb_bounded :: "crypto_buf \<Rightarrow> bool" where
  "cb_bounded self \<longleftrightarrow> bt_wf (cb_pending self) \<and> length (cb_pending self) \<le> MAX_PENDING_FRAGMENTS
     \<and> total_pending_bytes self \<le> MAX_PENDING_CRYPTO_BYTES"

lemma drain_suffix: "drain_pending m n rel = (m', n', rel') \<Longrightarrow> \<exists>xs. m = xs @ m'"
proof (induction m n rel rule: drain_pending.induct)
  case (2 p_off frag pending n rel)
  then show ?case by (auto simp: Let_def split: if_splits)
qed simp

lemma suffix_bounded:
  assumes "cb_bounded self" "cb_pending self = xs @ m"
  shows "cb_bounded (self\<lparr>cb_pending := m, cb_next_offset := n\<rparr>)"
  using assms by (auto simp: cb_bounded_def total_pending_bytes_def bt_wf_def sorted_wrt_append)

lemma insert_bounded:
  assumes "cb_bounded self"
    and len: "len = (case bt_get (cb_pending self) offset of None \<Rightarrow> 0 | Some v \<Rightarrow> length v)"
    and "len \<le> length data" "total_pending_bytes self + (length data - len) \<le> MAX_PENDING_CRYPTO_BYTES"
    and "len \<noteq> 0 \<or> length (cb_pending self) < MAX_PENDING_FRAGMENTS"
  shows "cb_bounded (self\<lparr>cb_pending := bt_insert offset data (cb_pending self)\<rparr>)"
proof -
  have wf: "bt_wf (cb_pending self)" using assms(1) by (simp add: cb_bounded_def)
  have "length (bt_insert offset data (cb_pending self)) \<le> MAX_PENDING_FRAGMENTS"
    using assms(1,5) len bt_insert_length [OF wf, of offset data] by (auto simp: cb_bounded_def split: option.splits)
  moreover have "sum_list (map (\<lambda>e. length (snd e)) (bt_insert offset data (cb_pending self))) + len
    = total_pending_bytes self + length data"
    using bt_insert_sum [OF wf, of length offset data] unfolding len total_pending_bytes_def .
  ultimately show ?thesis using assms(3,4) bt_insert_wf [OF wf, of offset data]
    by (simp add: cb_bounded_def total_pending_bytes_def)
qed

lemma on_crypto_out_of_order_bounded: "cb_bounded self \<Longrightarrow> cb_bounded (snd (on_crypto_out_of_order self offset data))"
  unfolding on_crypto_out_of_order_def Let_def
  by (auto simp: MAX_PENDING_CRYPTO_BYTES_def not_less not_le intro!: insert_bounded [OF _ refl] split: option.splits)

lemma on_crypto_bounded: "cb_bounded self \<Longrightarrow> cb_bounded (snd (on_crypto self offset data))"
  using on_crypto_out_of_order_bounded suffix_bounded drain_suffix
  by (auto simp: on_crypto_def on_crypto_trimmed_def on_crypto_in_order_def Let_def split: prod.splits) metis+

lemma on_crypto_result: "(\<exists>r s'. on_crypto self offset data = (Inr r, s')) \<or> on_crypto self offset data = (Inl DecodeErr, self)"
  by (auto simp: on_crypto_def on_crypto_trimmed_def on_crypto_in_order_def on_crypto_out_of_order_def Let_def split: prod.splits)

text \<open>C13. Whatever the peer sends, in whatever order and with whatever offsets, the out-of-order buffer never holds
more than 32 fragments or 64 KiB, and a call that would exceed the budget is an error that leaves the buffer as it
was.\<close>

theorem crypto_buffer_bounded:
  "(let b = fold (\<lambda>(offset, data) self. snd (on_crypto self offset data)) frags crypto_buf_new in
    length (cb_pending b) \<le> 32 \<and> total_pending_bytes b \<le> 65536)
   \<and> ((\<exists>r s'. on_crypto self offset data = (Inr r, s')) \<or> on_crypto self offset data = (Inl DecodeErr, self))"
proof -
  have "cb_bounded (fold (\<lambda>(offset, data) self. snd (on_crypto self offset data)) frags b)" if "cb_bounded b" for b
    using that by (induction frags arbitrary: b) (auto simp: on_crypto_bounded)
  moreover have "cb_bounded crypto_buf_new" by (simp add: cb_bounded_def crypto_buf_new_def total_pending_bytes_def)
  ultimately show ?thesis using on_crypto_result [of self offset data]
    by (simp add: Let_def cb_bounded_def MAX_PENDING_FRAGMENTS_def MAX_PENDING_CRYPTO_BYTES_def)
qed

section \<open>The receive side reassembles\<close>

definition cb_step :: "crypto_buf \<Rightarrow> u64 \<times> bytes \<Rightarrow> (bytes \<times> crypto_buf) option" where
  "cb_step self f = (case on_crypto self (fst f) (snd f) of (Inl _, _) \<Rightarrow> None | (Inr r, self') \<Rightarrow> Some (r, self'))"

definition nat_frag :: "u64 \<times> bytes \<Rightarrow> nat \<times> bytes" where
  "nat_frag f = (unat (fst f), snd f)"

definition frag_fits :: "u64 \<times> bytes \<Rightarrow> bool" where
  "frag_fits f \<longleftrightarrow> unat (fst f) + length (snd f) < 2 ^ 64"

abbreviation map_cover :: "bytes btree \<Rightarrow> nat set" where
  "map_cover m \<equiv> \<Union> (span ` nat_frag ` set m)"

definition cb_ok :: "crypto_buf \<Rightarrow> bool" where
  "cb_ok self \<longleftrightarrow> bt_wf (cb_pending self)
     \<and> (\<forall>f \<in> set (cb_pending self). frag_fits f \<and> cb_next_offset self < fst f)"

lemma frag_end: "frag_fits f \<Longrightarrow> unat (fst f + word_of_nat (length (snd f))) = unat (fst f) + length (snd f)"
  by (simp add: frag_fits_def unat_word_ariths unat_of_nat)

lemma span_nat_frag: "span (nat_frag f) = {unat (fst f)..<unat (fst f) + length (snd f)}"
  by (simp add: span_def nat_frag_def)

lemma drain_spec:
  assumes "drain_pending m n rel = (m', n', rel')" "bt_wf m" "\<forall>f \<in> set m. frag_fits f"
  shows "\<exists>r. rel' = rel @ r \<and> unat n' = unat n + length r
    \<and> {..<unat n'} \<union> map_cover m' = {..<unat n} \<union> map_cover m
    \<and> (\<forall>S. (\<forall>f \<in> set m. is_slice S (nat_frag f)) \<longrightarrow> is_slice S (unat n, r))
    \<and> bt_wf m' \<and> set m' \<subseteq> set m \<and> (\<forall>f \<in> set m'. n' < fst f)"
  using assms
proof (induction m n rel rule: drain_pending.induct)
  case (1 n rel)
  then show ?case by simp
next
  case (2 p frag m n rel)
  have fit: "frag_fits (p, frag)" and wf: "bt_wf m" "\<forall>f \<in> set m. frag_fits f" using 2(4,5) by simp_all
  have e: "unat (p + word_of_nat (length frag)) = unat p + length frag" using frag_end [OF fit] by simp
  let ?e = "p + word_of_nat (length frag)"
  consider (stop) "\<not> p \<le> n" | (skip) "p \<le> n" "?e \<le> n" | (extend) "p \<le> n" "\<not> ?e \<le> n" by blast
  then show ?case
  proof cases
    case stop
    then have "m' = (p, frag) # m" "n' = n" "rel' = rel" using 2(3) by auto
    then show ?thesis using stop 2(4) by (intro exI [of _ "[]"]) (auto simp: not_le)
  next
    case skip
    have "drain_pending m n rel = (m', n', rel')" using 2(3) skip by simp
    from 2(1) [OF skip(1) refl skip(2) this wf] obtain r where r: "rel' = rel @ r" "unat n' = unat n + length r"
      "{..<unat n'} \<union> map_cover m' = {..<unat n} \<union> map_cover m"
      "\<forall>S. (\<forall>f \<in> set m. is_slice S (nat_frag f)) \<longrightarrow> is_slice S (unat n, r)" "bt_wf m'" "set m' \<subseteq> set m" "\<forall>f \<in> set m'. n' < fst f"
      by blast
    have "span (nat_frag (p, frag)) \<subseteq> {..<unat n}" using skip(2) e by (auto simp: span_nat_frag word_le_nat_alt)
    then show ?thesis using r by (intro exI [of _ r]) auto
  next
    case extend
    let ?k = "unat (n - p)"
    have k: "?k = unat n - unat p" "unat p \<le> unat n" "unat n < unat p + length frag"
      using extend e by (simp_all add: unat_sub word_le_nat_alt not_le)
    have "drain_pending m ?e (rel @ drop ?k frag) = (m', n', rel')" using 2(3) extend by (simp add: Let_def)
    from 2(2) [OF extend(1) refl extend(2) this wf] obtain r where r: "rel' = (rel @ drop ?k frag) @ r" "unat n' = unat ?e + length r"
      "{..<unat n'} \<union> map_cover m' = {..<unat ?e} \<union> map_cover m"
      "\<forall>S. (\<forall>f \<in> set m. is_slice S (nat_frag f)) \<longrightarrow> is_slice S (unat ?e, r)" "bt_wf m'" "set m' \<subseteq> set m" "\<forall>f \<in> set m'. n' < fst f"
      by blast
    have l: "unat n + length (drop ?k frag) = unat ?e" using k e by simp
    have c: "{..<unat ?e} = {..<unat n} \<union> span (nat_frag (p, frag))" using k e by (auto simp: span_nat_frag)
    have s: "is_slice S (unat n, drop ?k frag)" if "is_slice S (nat_frag (p, frag))" for S
      using is_slice_drop [of S "unat p" frag ?k] that k by (simp add: nat_frag_def)
    have "{..<unat n'} \<union> map_cover m' = {..<unat n} \<union> map_cover ((p, frag) # m)" unfolding r(3) c by auto
    moreover have "is_slice S (unat n, drop ?k frag @ r)" if "\<forall>f \<in> set ((p, frag) # m). is_slice S (nat_frag f)" for S
      using s r(4) that l by (simp add: is_slice_append)
    ultimately show ?thesis using r(1,2,5,6,7) l by (intro exI [of _ "drop ?k frag @ r"]) auto
  qed
qed

lemma in_order_spec:
  assumes "cb_ok self" "frag_fits (cb_next_offset self, data)" "on_crypto_in_order self data = (Inr r, self')"
  shows "cb_ok self' \<and> unat (cb_next_offset self') = unat (cb_next_offset self) + length r
    \<and> {..<unat (cb_next_offset self')} \<union> map_cover (cb_pending self')
      = {..<unat (cb_next_offset self)} \<union> map_cover (cb_pending self) \<union> span (nat_frag (cb_next_offset self, data))
    \<and> (\<forall>S. is_slice S (nat_frag (cb_next_offset self, data)) \<longrightarrow> (\<forall>f \<in> set (cb_pending self). is_slice S (nat_frag f)) \<longrightarrow>
        is_slice S (unat (cb_next_offset self), r)) \<and> set (cb_pending self') \<subseteq> set (cb_pending self)"
proof -
  let ?n = "cb_next_offset self + word_of_nat (length data)"
  obtain m n' rel where d: "drain_pending (cb_pending self) ?n data = (m, n', rel)" using prod_cases3 by blast
  then have s: "r = rel" "self' = self\<lparr>cb_pending := m, cb_next_offset := n'\<rparr>"
    using assms(3) by (simp_all add: on_crypto_in_order_def)
  have ok: "bt_wf (cb_pending self)" "\<forall>f \<in> set (cb_pending self). frag_fits f" using assms(1) by (simp_all add: cb_ok_def)
  have n: "unat ?n = unat (cb_next_offset self) + length data" using frag_end [OF assms(2)] by simp
  obtain r' where r: "rel = data @ r'" "unat n' = unat ?n + length r'" "{..<unat n'} \<union> map_cover m = {..<unat ?n} \<union> map_cover (cb_pending self)"
    "\<forall>S. (\<forall>f \<in> set (cb_pending self). is_slice S (nat_frag f)) \<longrightarrow> is_slice S (unat ?n, r')" "bt_wf m"
    "set m \<subseteq> set (cb_pending self)" "\<forall>f \<in> set m. n' < fst f"
    using drain_spec [OF d ok] by blast
  have c: "{..<unat ?n} = {..<unat (cb_next_offset self)} \<union> span (nat_frag (cb_next_offset self, data))"
    unfolding n by (auto simp: span_nat_frag)
  have "cb_ok self'" using r(5,6,7) ok(2) by (auto simp: s cb_ok_def)
  moreover have "{..<unat n'} \<union> map_cover m = {..<unat (cb_next_offset self)} \<union> map_cover (cb_pending self)
    \<union> span (nat_frag (cb_next_offset self, data))" unfolding r(3) c by blast
  moreover have "is_slice S (unat (cb_next_offset self), rel)"
    if "is_slice S (nat_frag (cb_next_offset self, data))" "\<forall>f \<in> set (cb_pending self). is_slice S (nat_frag f)" for S
    using that r(4) by (simp add: r(1) is_slice_append n nat_frag_def)
  ultimately show ?thesis using r(2,6) n by (simp add: s r(1))
qed

lemma out_of_order_cases:
  assumes "on_crypto_out_of_order self offset data = (Inr r, self')"
  obtains (prev) o' d' where "bt_last_below offset (cb_pending self) = Some (o', d')"
      "offset + word_of_nat (length data) \<le> o' + word_of_nat (length d')" "r = []" "self' = self"
    | (same) d' where "bt_get (cb_pending self) offset = Some d'" "length data \<le> length d'" "r = []" "self' = self"
    | (none) "data = []" "r = []" "self' = self"
    | (insert) "\<forall>d'. bt_get (cb_pending self) offset = Some d' \<longrightarrow> length d' < length data" "r = []"
        "self' = self\<lparr>cb_pending := bt_insert offset data (cb_pending self)\<rparr>"
proof -
  let ?cov = "case bt_last_below offset (cb_pending self) of None \<Rightarrow> False
    | Some (o', d') \<Rightarrow> offset + word_of_nat (length data) \<le> o' + word_of_nat (length d')"
  let ?ex = "case bt_get (cb_pending self) offset of None \<Rightarrow> 0 | Some v \<Rightarrow> length v"
  show thesis
  proof (cases ?cov)
    case True
    then have "r = []" "self' = self" using assms by (simp_all add: on_crypto_out_of_order_def Let_def)
    then show thesis using True prev by (auto split: option.splits)
  next
    case cov: False
    show thesis
    proof (cases "length data \<le> ?ex")
      case True
      then have "r = []" "self' = self" using assms cov by (simp_all add: on_crypto_out_of_order_def Let_def)
      then show thesis using True same none by (cases "bt_get (cb_pending self) offset") auto
    next
      case False
      then have "r = []" "self' = self\<lparr>cb_pending := bt_insert offset data (cb_pending self)\<rparr>"
        using assms cov by (simp_all add: on_crypto_out_of_order_def Let_def split: if_splits)
      then show thesis using False insert by (auto split: option.splits)
    qed
  qed
qed

lemma out_of_order_spec:
  assumes "cb_ok self" "frag_fits (offset, data)" "cb_next_offset self < offset"
    "on_crypto_out_of_order self offset data = (Inr r, self')"
  shows "r = [] \<and> cb_ok self' \<and> cb_next_offset self' = cb_next_offset self
    \<and> map_cover (cb_pending self') = map_cover (cb_pending self) \<union> span (nat_frag (offset, data))
    \<and> set (cb_pending self') \<subseteq> insert (offset, data) (set (cb_pending self))"
proof -
  let ?m = "cb_pending self"
  have wf: "bt_wf ?m" "\<forall>f \<in> set ?m. frag_fits f \<and> cb_next_offset self < fst f" using assms(1) by (simp_all add: cb_ok_def)
  have e: "unat (offset + word_of_nat (length data)) = unat offset + length data" using frag_end [OF assms(2)] by simp
  have inside: "map_cover ?m = map_cover ?m \<union> span (nat_frag (offset, data))"
    if "(o', d') \<in> set ?m" "o' \<le> offset" "unat offset + length data \<le> unat o' + length d'" for o' d'
  proof -
    have "span (nat_frag (offset, data)) \<subseteq> span (nat_frag (o', d'))"
      using that(2,3) by (auto simp: span_nat_frag word_le_nat_alt)
    then show ?thesis using that(1) by blast
  qed
  from assms(4) show ?thesis
  proof (cases rule: out_of_order_cases)
    case (prev o' d')
    have m: "(o', d') \<in> set ?m" "o' < offset" using last_opt_filter(1,2) [OF wf(1) prev(1) [unfolded bt_last_below_def]] by simp_all
    then have "frag_fits (o', d')" using wf(2) by blast
    then have "unat offset + length data \<le> unat o' + length d'" using prev(2) e frag_end [of "(o', d')"] by (simp add: word_le_nat_alt)
    then show ?thesis using inside [OF m(1)] m(2) prev(3,4) assms(1) by auto
  next
    case (same d')
    then have "(offset, d') \<in> set ?m" using bt_get_iff [OF wf(1)] by simp
    then show ?thesis using inside [of offset d'] same(2,3,4) assms(1) by auto
  next
    case none
    then show ?thesis using assms(1) by (auto simp: nat_frag_def)
  next
    case insert
    have set: "set (bt_insert offset data ?m) = insert (offset, data) {f \<in> set ?m. fst f \<noteq> offset}" by (rule set_bt_insert [OF wf(1)])
    have "span (nat_frag f) \<subseteq> span (nat_frag (offset, data))" if "f \<in> set ?m" "fst f = offset" for f
    proof -
      have "(offset, snd f) \<in> set ?m" using that by (metis prod.collapse)
      then have "bt_get ?m offset = Some (snd f)" using bt_get_iff [OF wf(1)] by simp
      then show ?thesis using insert(1) that(2) by (auto simp: span_nat_frag)
    qed
    then have "map_cover (bt_insert offset data ?m) = map_cover ?m \<union> span (nat_frag (offset, data))" unfolding set by blast
    moreover have "cb_ok self'" using wf assms(2,3) bt_insert_wf [OF wf(1)] by (auto simp: cb_ok_def insert(3) set)
    ultimately show ?thesis using insert(2,3) set by auto
  qed
qed

text \<open>One call, in the terms of the contract.\<close>

definition cb_good :: "crypto_buf \<Rightarrow> nat \<times> bytes \<Rightarrow> bytes \<Rightarrow> crypto_buf \<Rightarrow> bool" where
  "cb_good self f r self' \<longleftrightarrow> cb_ok self' \<and> unat (cb_next_offset self') = unat (cb_next_offset self) + length r
    \<and> {..<unat (cb_next_offset self')} \<union> map_cover (cb_pending self')
      = {..<unat (cb_next_offset self)} \<union> map_cover (cb_pending self) \<union> span f
    \<and> (\<forall>S. is_slice S f \<longrightarrow> (\<forall>g \<in> set (cb_pending self). is_slice S (nat_frag g)) \<longrightarrow>
        is_slice S (unat (cb_next_offset self), r) \<and> (\<forall>g \<in> set (cb_pending self'). is_slice S (nat_frag g)))"

lemma cb_good_trivial: "cb_ok self \<Longrightarrow> span f \<subseteq> {..<unat (cb_next_offset self)} \<Longrightarrow> cb_good self f [] self"
  by (auto simp: cb_good_def)

lemma cb_good_weaken:
  assumes "cb_good self f r self'" "{..<unat (cb_next_offset self)} \<union> span f = {..<unat (cb_next_offset self)} \<union> span g"
    "\<And>S. is_slice S g \<Longrightarrow> is_slice S f"
  shows "cb_good self g r self'"
proof -
  have "{..<unat (cb_next_offset self)} \<union> map_cover (cb_pending self) \<union> span f
    = {..<unat (cb_next_offset self)} \<union> map_cover (cb_pending self) \<union> span g" using assms(2) by blast
  then show ?thesis using assms(1,3) unfolding cb_good_def by metis
qed

lemma in_order_good:
  assumes "cb_ok self" "frag_fits (cb_next_offset self, data)" "on_crypto_in_order self data = (Inr r, self')"
  shows "cb_good self (nat_frag (cb_next_offset self, data)) r self'"
proof -
  note s = in_order_spec [OF assms]
  have "\<forall>g \<in> set (cb_pending self'). is_slice S (nat_frag g)" if "\<forall>g \<in> set (cb_pending self). is_slice S (nat_frag g)" for S
    using that conjunct2 [OF conjunct2 [OF conjunct2 [OF conjunct2 [OF s]]]] by (auto dest: subsetD)
  then show ?thesis unfolding cb_good_def using s by blast
qed

lemma out_of_order_good:
  assumes "cb_ok self" "frag_fits (offset, data)" "cb_next_offset self < offset"
    "on_crypto_out_of_order self offset data = (Inr r, self')"
  shows "cb_good self (nat_frag (offset, data)) r self'"
proof -
  note s = out_of_order_spec [OF assms]
  have m: "map_cover (cb_pending self') = map_cover (cb_pending self) \<union> span (nat_frag (offset, data))" using s by (elim conjE)
  have "{..<unat (cb_next_offset self)} \<union> map_cover (cb_pending self')
    = {..<unat (cb_next_offset self)} \<union> map_cover (cb_pending self) \<union> span (nat_frag (offset, data))" unfolding m by (simp only: Un_assoc)
  moreover have "\<forall>g \<in> set (cb_pending self'). is_slice S (nat_frag g)"
    if "is_slice S (nat_frag (offset, data))" "\<forall>g \<in> set (cb_pending self). is_slice S (nat_frag g)" for S
    using that s by (auto dest: subsetD)
  ultimately show ?thesis unfolding cb_good_def by (intro conjI; use s in simp)
qed

lemma cb_step_good:
  assumes "cb_ok self" "frag_fits f" "cb_step self f = Some (r, self')"
  shows "cb_good self (nat_frag f) r self'"
proof -
  obtain offset data where f: "f = (offset, data)" by fastforce
  let ?n = "cb_next_offset self"
  have run: "on_crypto self offset data = (Inr r, self')"
    using assms(3) by (auto simp: cb_step_def f split: prod.splits sum.splits)
  consider (stale) "offset < ?n" "length data \<le> unat (?n - offset)" | (trim) "offset < ?n" "unat (?n - offset) < length data"
    | (empty) "\<not> offset < ?n" "data = []" | (exact) "offset = ?n" "data \<noteq> []" | (later) "?n < offset" "data \<noteq> []"
    by force
  then show ?thesis
  proof cases
    case stale
    then have "r = []" "self' = self" using run by (simp_all add: on_crypto_def)
    moreover have "span (nat_frag f) \<subseteq> {..<unat ?n}"
      using stale by (auto simp: f span_nat_frag unat_sub word_less_nat_alt word_le_nat_alt)
    ultimately show ?thesis using cb_good_trivial [OF assms(1)] by simp
  next
    case trim
    let ?k = "unat (?n - offset)"
    have k: "?k = unat ?n - unat offset" "unat offset < unat ?n" using trim(1) by (simp_all add: unat_sub word_less_nat_alt word_le_nat_alt)
    have io: "on_crypto_in_order self (drop ?k data) = (Inr r, self')"
      using run trim by (simp add: on_crypto_def on_crypto_trimmed_def not_le)
    have fit: "frag_fits (?n, drop ?k data)" using assms(2) k trim(2) by (simp add: f frag_fits_def)
    show ?thesis
    proof (rule cb_good_weaken [OF in_order_good [OF assms(1) fit io]])
      show "{..<unat ?n} \<union> span (nat_frag (?n, drop ?k data)) = {..<unat ?n} \<union> span (nat_frag f)"
        using k trim(2) by (auto simp: f span_nat_frag)
      show "is_slice S (nat_frag (?n, drop ?k data))" if "is_slice S (nat_frag f)" for S
        using is_slice_drop [of S "unat offset" data ?k] that k trim(2) by (simp add: f nat_frag_def)
    qed
  next
    case empty
    then show ?thesis using run cb_good_trivial [OF assms(1)] by (simp add: f nat_frag_def on_crypto_def on_crypto_trimmed_def)
  next
    case exact
    then show ?thesis using run in_order_good [OF assms(1)] assms(2) by (simp add: f on_crypto_def on_crypto_trimmed_def)
  next
    case later
    then have "\<not> offset < ?n" "offset \<noteq> ?n" by simp_all
    then have "on_crypto_out_of_order self offset data = (Inr r, self')"
      using run later(2) by (simp add: on_crypto_def on_crypto_trimmed_def)
    then show ?thesis using out_of_order_good [OF assms(1) _ later(1)] assms(2) by (simp add: f)
  qed
qed

interpretation crypto: reassembler cb_step nat_frag "\<lambda>s. unat (cb_next_offset s)" "\<lambda>s. nat_frag ` set (cb_pending s)" cb_ok frag_fits
proof
  fix s f r s'
  assume "cb_ok s" "frag_fits f" "cb_step s f = Some (r, s')"
  note g = cb_step_good [OF this, unfolded cb_good_def]
  show "cb_ok s'" using g by (elim conjE)
  show "unat (cb_next_offset s') = unat (cb_next_offset s) + length r" using g by (elim conjE)
  show "{..<unat (cb_next_offset s')} \<union> map_cover (cb_pending s')
     = {..<unat (cb_next_offset s)} \<union> map_cover (cb_pending s) \<union> span (nat_frag f)" using g by (elim conjE)
  show "is_slice S (unat (cb_next_offset s), r) \<and> (\<forall>h \<in> nat_frag ` set (cb_pending s'). is_slice S h)"
    if "is_slice S (nat_frag f)" "\<forall>h \<in> nat_frag ` set (cb_pending s). is_slice S h" for S
    using g that by simp
qed (auto simp: cb_ok_def span_nat_frag word_less_nat_alt)

text \<open>C12. Reassembly is faithful and complete: when a stream \<open>S\<close> arrives in fragments, in any order, overlapping and
repeated, and no call fails, the bytes released so far are the stream from its start up to the first offset that no
fragment has covered, neither less nor more.\<close>

theorem crypto_reassembly:
  assumes "feed cb_step crypto_buf_new frags = Some (released, self)"
    "\<forall>f \<in> set frags. frag_fits f \<and> is_slice S (nat_frag f)"
  shows "released = map S [0..<unat (cb_next_offset self)]
    \<and> {..<unat (cb_next_offset self)} \<subseteq> \<Union> (span ` nat_frag ` set frags)
    \<and> unat (cb_next_offset self) \<notin> \<Union> (span ` nat_frag ` set frags)"
  using crypto.feed_prefix [OF assms(1) _ assms(2)] by (simp add: crypto_buf_new_def cb_ok_def)

theorem crypto_reassembly_witness:
  "\<exists>released self. feed cb_step crypto_buf_new [(3, [4, 5]), (0, [1, 2]), (1, [2, 3, 4])] = Some (released, self)
    \<and> released = map (\<lambda>i. word_of_nat (i + 1)) [0..<unat (cb_next_offset self)] \<and> released = [1, 2, 3, 4, 5]"
proof -
  let ?frags = "[(3, [4, 5]), (0, [1, 2]), (1, [2, 3, 4])] :: (u64 \<times> bytes) list"
  have ok: "\<forall>f \<in> set ?frags. frag_fits f \<and> is_slice (\<lambda>i. word_of_nat (i + 1)) (nat_frag f)"
    by (simp add: frag_fits_def is_slice_def nat_frag_def upt_rec_numeral)
  have v: "map_option fst (feed cb_step crypto_buf_new ?frags) = Some [1, 2, 3, 4, 5]"
    by (simp add: cb_step_def on_crypto_def on_crypto_trimmed_def on_crypto_in_order_def on_crypto_out_of_order_def crypto_buf_new_def
        bt_last_below_def bt_get_def last_opt_def total_pending_bytes_def MAX_PENDING_CRYPTO_BYTES_def MAX_PENDING_FRAGMENTS_def)
  then obtain self where s: "feed cb_step crypto_buf_new ?frags = Some ([1, 2, 3, 4, 5], self)" by auto
  have "([1, 2, 3, 4, 5] :: bytes) = map (\<lambda>i. word_of_nat (i + 1)) [0..<unat (cb_next_offset self)]"
    by (rule conjunct1 [OF crypto_reassembly [OF s ok]])
  with s show ?thesis by (intro exI [of _ "[1, 2, 3, 4, 5]"] exI [of _ self] conjI refl)
qed

section \<open>Delivery within the budget\<close>

lemma drain_smaller:
  assumes "drain_pending m n rel = (m', n', rel')" "bt_wf m"
  shows "bt_wf m'" "length m' \<le> length m" "sum_list (map (\<lambda>e. length (snd e)) m') \<le> sum_list (map (\<lambda>e. length (snd e)) m)"
proof -
  obtain xs where "m = xs @ m'" using drain_suffix [OF assms(1)] by blast
  then show "bt_wf m'" "length m' \<le> length m" "sum_list (map (\<lambda>e. length (snd e)) m') \<le> sum_list (map (\<lambda>e. length (snd e)) m)"
    using assms(2) by (simp_all add: bt_wf_def sorted_wrt_append)
qed

definition cb_room :: "crypto_buf \<Rightarrow> nat \<Rightarrow> nat \<Rightarrow> bool" where
  "cb_room self count bytes \<longleftrightarrow> bt_wf (cb_pending self) \<and> length (cb_pending self) + count \<le> MAX_PENDING_FRAGMENTS
     \<and> total_pending_bytes self + bytes \<le> MAX_PENDING_CRYPTO_BYTES"

lemma in_order_room: "cb_room self (Suc k) (length data + n) \<Longrightarrow> \<exists>r s'. on_crypto_in_order self data = (Inr r, s') \<and> cb_room s' k n"
proof -
  assume room: "cb_room self (Suc k) (length data + n)"
  obtain m' n' rel where d: "drain_pending (cb_pending self) (cb_next_offset self + word_of_nat (length data)) data = (m', n', rel)"
    using prod_cases3 by blast
  have "bt_wf (cb_pending self)" using room by (simp add: cb_room_def)
  from drain_smaller [OF d this] show ?thesis using room by (simp add: on_crypto_in_order_def d cb_room_def total_pending_bytes_def)
qed

lemma out_of_order_room:
  assumes "cb_room self (Suc k) (length data + n)"
  shows "\<exists>r s'. on_crypto_out_of_order self offset data = (Inr r, s') \<and> cb_room s' k n"
proof -
  let ?ex = "case bt_get (cb_pending self) offset of None \<Rightarrow> 0 | Some v \<Rightarrow> length v"
  have wf: "bt_wf (cb_pending self)" using assms by (simp add: cb_room_def)
  have keep: "cb_room self k n" using assms by (simp add: cb_room_def)
  have room: "\<not> MAX_PENDING_CRYPTO_BYTES < min (2 ^ 64 - 1) (total_pending_bytes self + (length data - ?ex))"
    "\<not> MAX_PENDING_FRAGMENTS \<le> length (cb_pending self)" using assms by (auto simp: cb_room_def min_def)
  have "sum_list (map (\<lambda>e. length (snd e)) (bt_insert offset data (cb_pending self))) \<le> total_pending_bytes self + length data"
    using bt_insert_sum [OF wf, of length offset data] unfolding total_pending_bytes_def by linarith
  then have "cb_room (self\<lparr>cb_pending := bt_insert offset data (cb_pending self)\<rparr>) k n"
    using assms bt_insert_length [OF wf, of offset data] bt_insert_wf [OF wf]
    by (auto simp: cb_room_def total_pending_bytes_def)
  then show ?thesis unfolding on_crypto_out_of_order_def Let_def using keep room by auto
qed

lemma on_crypto_room:
  assumes "cb_room self (Suc k) (length data + n)"
  shows "\<exists>r s'. on_crypto self offset data = (Inr r, s') \<and> cb_room s' k n"
proof -
  have less: "cb_room self (Suc k) (length (drop j data) + n)" for j using assms by (auto simp: cb_room_def)
  have keep: "cb_room self k n" using assms by (simp add: cb_room_def)
  have "\<exists>r s'. on_crypto_trimmed self offset' (drop j data) = (Inr r, s') \<and> cb_room s' k n" for offset' j
    using keep in_order_room [OF less] out_of_order_room [OF less] by (simp add: on_crypto_trimmed_def)
  from this [of _ 0] this show ?thesis using keep by (simp add: on_crypto_def Let_def)
qed

lemma feed_room:
  "cb_room self (length frags) (sum_list (map (\<lambda>f. length (snd f)) frags)) \<Longrightarrow> \<exists>rel t. feed cb_step self frags = Some (rel, t)"
proof (induction frags arbitrary: self)
  case (Cons f frags)
  obtain r s' where s: "on_crypto self (fst f) (snd f) = (Inr r, s')" "cb_room s' (length frags) (sum_list (map (\<lambda>f. length (snd f)) frags))"
    using on_crypto_room [of self "length frags" "snd f" "sum_list (map (\<lambda>f. length (snd f)) frags)" "fst f"] Cons.prems by auto
  obtain rs t where "feed cb_step s' frags = Some (rs, t)" using Cons.IH [OF s(2)] by blast
  moreover have "cb_step self f = Some (r, s')" using s(1) by (simp add: cb_step_def)
  ultimately show ?case by simp
qed simp

text \<open>C18. Delivery: up to 32 fragments of at most 64 KiB in all are accepted in every order, with overlaps and repeats,
and once they cover the first \<open>n\<close> bytes of the stream those bytes have been released.\<close>

theorem crypto_delivery:
  assumes "length frags \<le> 32" "sum_list (map (\<lambda>f. length (snd f)) frags) \<le> 65536"
    "\<forall>f \<in> set frags. frag_fits f \<and> is_slice S (nat_frag f)" "{..<n} \<subseteq> \<Union> (span ` nat_frag ` set frags)"
  shows "\<exists>released self. feed cb_step crypto_buf_new frags = Some (released, self) \<and> take n released = map S [0..<n]"
proof -
  have "cb_room crypto_buf_new (length frags) (sum_list (map (\<lambda>f. length (snd f)) frags))"
    using assms(1,2) by (simp add: cb_room_def crypto_buf_new_def total_pending_bytes_def MAX_PENDING_FRAGMENTS_def
        MAX_PENDING_CRYPTO_BYTES_def)
  then obtain rel t where f: "feed cb_step crypto_buf_new frags = Some (rel, t)" using feed_room by blast
  have p: "rel = map S [0..<unat (cb_next_offset t)]" "unat (cb_next_offset t) \<notin> \<Union> (span ` nat_frag ` set frags)"
    using crypto.feed_prefix [OF f _ assms(3)] by (simp_all add: crypto_buf_new_def cb_ok_def)
  then have "n \<le> unat (cb_next_offset t)" using assms(4) by (meson lessThan_iff not_le subsetD)
  then have "take n rel = map S [0..<n]" by (simp add: p(1) take_map)
  then show ?thesis using f by blast
qed

theorem crypto_delivery_witness:
  "\<exists>released self. feed cb_step crypto_buf_new [(2, [7, 7]), (0, [7, 7, 7])] = Some (released, self)
    \<and> take 4 released = map (\<lambda>_. 7) [0..<4]"
proof (rule crypto_delivery)
  show "{..<4} \<subseteq> \<Union> (span ` nat_frag ` set [(2, [7, 7]), (0, [7, 7, 7])])"
    by (auto simp: span_nat_frag)
qed (simp_all add: frag_fits_def is_slice_def nat_frag_def upt_rec_numeral)

section \<open>The send side\<close>

text \<open>The queue of a sender for the bytes \<open>st\<close> enqueued so far: what is left to send is their tail, and every chunk
that is kept or was handed out is a piece of what has been sent.\<close>

definition sent_piece :: "bytes \<Rightarrow> u64 \<Rightarrow> u64 \<times> bytes \<Rightarrow> bool" where
  "sent_piece st sent c \<longleftrightarrow> unat (fst c) + length (snd c) \<le> unat sent \<and> is_slice (nth st) (nat_frag c)"

definition cb_sender_ok :: "bytes \<Rightarrow> crypto_buf \<Rightarrow> bool" where
  "cb_sender_ok st self \<longleftrightarrow> length st < 2 ^ 64 \<and> unat (cb_outbound_offset self) \<le> length st
     \<and> cb_outbound self = drop (unat (cb_outbound_offset self)) st
     \<and> (\<forall>c \<in> set (cb_rtx self) \<union> set (cb_sent_history self) \<union> set_option (cb_last_sent self).
          sent_piece st (cb_outbound_offset self) c)
     \<and> bt_wf (cb_sent_history self)"

lemma is_slice_nth: "n + length d \<le> length st \<Longrightarrow> is_slice (nth st) (n, d) \<longleftrightarrow> d = take (length d) (drop n st)"
proof -
  assume "n + length d \<le> length st"
  then have "map (nth st) [n..<n + length d] = take (length d) (drop n st)"
    by (intro nth_equalityI) (simp_all add: add.commute)
  then show ?thesis by (simp add: is_slice_def)
qed

lemma sent_piece_mono: "sent_piece st sent c \<Longrightarrow> unat sent \<le> unat sent' \<Longrightarrow> sent_piece st sent' c"
  by (auto simp: sent_piece_def)

lemma sent_piece_enqueue: "sent_piece st sent c \<Longrightarrow> unat sent \<le> length st \<Longrightarrow> sent_piece (st @ data) sent c"
  by (auto simp: sent_piece_def nat_frag_def is_slice_nth)

lemma sent_piece_take: "sent_piece st sent (o', c) \<Longrightarrow> sent_piece st sent (o', take k c)"
  using is_slice_take [of "nth st" "unat o'" c k] by (auto simp: sent_piece_def nat_frag_def)

lemma sent_piece_drop:
  assumes "sent_piece st sent (o', c)" "k \<le> length c"
  shows "sent_piece st sent (o' + word_of_nat k, drop k c)"
proof -
  have "unat (o' + word_of_nat k) = unat o' + k"
    using assms unat_lt [of sent] by (simp add: sent_piece_def unat_word_ariths unat_of_nat)
  then show ?thesis using assms is_slice_drop [of "nth st" "unat o'" c k] by (simp add: sent_piece_def nat_frag_def)
qed

lemma sender_new: "cb_sender_ok [] crypto_buf_new"
  by (simp add: cb_sender_ok_def crypto_buf_new_def)

lemma sender_enqueue:
  "cb_sender_ok st self \<Longrightarrow> length st + length data < 2 ^ 64 \<Longrightarrow> cb_sender_ok (st @ data) (enqueue_outbound self data)"
  by (auto simp: cb_sender_ok_def enqueue_outbound_def sent_piece_enqueue)

abbreviation kept :: "crypto_buf \<Rightarrow> (u64 \<times> bytes) set" where
  "kept self \<equiv> set (cb_rtx self) \<union> set (cb_sent_history self) \<union> set_option (cb_last_sent self)"

lemma sender_update:
  assumes "cb_sender_ok st self" "unat (cb_outbound_offset self) \<le> unat (cb_outbound_offset self')"
    "unat (cb_outbound_offset self') \<le> length st" "cb_outbound self' = drop (unat (cb_outbound_offset self')) st"
    "bt_wf (cb_sent_history self')" "kept self' \<subseteq> insert c (insert d (kept self))"
    "sent_piece st (cb_outbound_offset self') c" "sent_piece st (cb_outbound_offset self') d"
  shows "cb_sender_ok st self'"
proof -
  have "\<forall>e \<in> kept self. sent_piece st (cb_outbound_offset self') e"
    using assms(1,2) sent_piece_mono unfolding cb_sender_ok_def by blast
  then have "\<forall>e \<in> kept self'. sent_piece st (cb_outbound_offset self') e" using assms(6,7,8) by blast
  moreover have "length st < 2 ^ 64" using assms(1) by (simp add: cb_sender_ok_def)
  ultimately show ?thesis using assms(3,4,5) unfolding cb_sender_ok_def by (intro conjI)
qed

lemma set_bt_insert_subset: "bt_wf m \<Longrightarrow> set (bt_insert k v m) \<subseteq> insert (k, v) (set m)"
  by (auto simp: set_bt_insert)

lemma carve_rtx_shape:
  assumes "carve_rtx self cap o' chunk rest = (c, self')" "bt_wf (cb_sent_history self)"
  shows "c = Some (o', take cap chunk)" "cb_outbound_offset self' = cb_outbound_offset self" "cb_outbound self' = cb_outbound self"
    "bt_wf (cb_sent_history self')" "set (cb_sent_history self') \<subseteq> insert (o', take cap chunk) (set (cb_sent_history self))"
    "cb_last_sent self' = Some (o', take cap chunk)"
    "set (cb_rtx self') \<subseteq> insert (if cap < length chunk then (o' + word_of_nat cap, drop cap chunk) else (o', take cap chunk)) (set rest)"
  using assms(1) bt_insert_wf [OF assms(2), of o' "take cap chunk"] set_bt_insert_subset [OF assms(2), of o' "take cap chunk"] assms(2)
  unfolding carve_rtx_def Let_def by (auto split: if_splits dest: subsetD)

lemma sender_carve:
  assumes "cb_sender_ok st self" "carve self cap = (Some c, self')"
  shows "cb_sender_ok st self' \<and> sent_piece st (cb_outbound_offset self') c
    \<and> {..<unat (cb_outbound_offset self')} \<subseteq> {..<unat (cb_outbound_offset self)} \<union> span (nat_frag c)
    \<and> unat (cb_outbound_offset self) \<le> unat (cb_outbound_offset self')"
proof (cases "cb_rtx self")
  case (Cons e rest)
  obtain o' chunk where e: "e = (o', chunk)" by fastforce
  have p: "sent_piece st (cb_outbound_offset self) (o', chunk)" using assms(1) by (simp add: cb_sender_ok_def Cons e)
  have r: "carve_rtx self cap o' chunk rest = (Some c, self')" using assms(2) by (simp add: carve_def Cons e)
  have ok: "bt_wf (cb_sent_history self)" "unat (cb_outbound_offset self) \<le> length st"
    "cb_outbound self = drop (unat (cb_outbound_offset self)) st" using assms(1) by (simp_all add: cb_sender_ok_def)
  note s = carve_rtx_shape [OF r ok(1)]
  define d where "d = (if cap < length chunk then (o' + word_of_nat cap, drop cap chunk) else (o', take cap chunk))"
  have t: "sent_piece st (cb_outbound_offset self) (o', take cap chunk)" by (rule sent_piece_take [OF p])
  have d: "sent_piece st (cb_outbound_offset self) d" using p sent_piece_drop [OF p, of cap] by (simp add: d_def)
  have "kept self' \<subseteq> insert (o', take cap chunk) (insert d (kept self))" using s(5,6,7) unfolding Cons d_def [symmetric] by auto
  from sender_update [OF assms(1) _ _ _ s(4) this] have "cb_sender_ok st self'" using s(2,3) ok t d by simp
  then show ?thesis using t s(1,2) by simp
next
  case Nil
  let ?o = "cb_outbound_offset self" and ?n = "min cap (length (cb_outbound self))"
  have ne: "cb_outbound self \<noteq> []" and c: "c = (?o, take ?n (cb_outbound self))"
    using assms(2) by (auto simp: carve_def Nil Let_def split: if_splits)
  have ok: "length st < 2 ^ 64" "unat ?o \<le> length st" "cb_outbound self = drop (unat ?o) st" using assms(1) by (auto simp: cb_sender_ok_def)
  have off: "cb_outbound_offset self' = ?o + word_of_nat ?n" using assms(2) ne by (auto simp: carve_def Nil Let_def)
  have u: "unat (?o + word_of_nat ?n) = unat ?o + ?n" using ok by (simp add: unat_word_ariths unat_of_nat)
  have p: "sent_piece st (?o + word_of_nat ?n) (?o, take ?n (cb_outbound self))"
    using ok u by (simp add: sent_piece_def nat_frag_def is_slice_nth)
  have s: "cb_outbound self' = drop ?n (cb_outbound self)" "cb_sent_history self' = bt_insert ?o (snd c) (cb_sent_history self)"
    "cb_rtx self' = []" "cb_last_sent self' = Some c"
    using assms(2) ne unfolding c by (auto simp: carve_def Nil Let_def)
  have wf: "bt_wf (cb_sent_history self)" using assms(1) by (simp add: cb_sender_ok_def)
  have "kept self' \<subseteq> insert c (insert c (kept self))" using s(2,3,4) set_bt_insert_subset [OF wf, of ?o "snd c"] c by auto
  moreover have "bt_wf (cb_sent_history self')" unfolding s(2) by (rule bt_insert_wf [OF wf])
  moreover have "cb_outbound self' = drop (unat (cb_outbound_offset self')) st" unfolding s(1) off u by (metis (no_types) ok(3) drop_drop add.commute)
  ultimately have "cb_sender_ok st self'" using sender_update [OF assms(1), of self' c c] p u ok(2,3) c off by simp
  then show ?thesis using p u by (auto simp: off c span_nat_frag)
qed

lemma requeue_gather_advances:
  assumes "bt_wf history" "\<forall>c \<in> set history. frag_fits c" "cursor < end_off" "bt_last_upto cursor history = Some (o', d)"
    "\<not> o' + word_of_nat (length d) \<le> cursor"
  shows "0 < min (unat (end_off - cursor)) (length d - unat (cursor - o'))"
proof -
  have m: "(o', d) \<in> set history" "o' \<le> cursor" using last_opt_filter(1,2) [OF assms(1) assms(4) [unfolded bt_last_upto_def]] by simp_all
  then have "unat (o' + word_of_nat (length d)) = unat o' + length d" using frag_end [of "(o', d)"] assms(2) by simp
  then show ?thesis using assms(3,5) m(2) by (simp add: unat_sub word_le_nat_alt word_less_nat_alt)
qed

text \<open>A chunk that is still in the history is found whole.\<close>

lemma requeue_found:
  assumes "bt_wf (cb_sent_history self)" "(offset, d) \<in> set (cb_sent_history self)" "d \<noteq> []" "frag_fits (offset, d)"
    "\<not> (\<exists>e \<in> set (cb_rtx self). fst e \<le> offset \<and> offset + word_of_nat (length d) \<le> fst e + word_of_nat (length (snd e)))"
  shows "requeue_range self offset (word_of_nat (length d)) = (True, self\<lparr>cb_rtx := cb_rtx self @ [(offset, d)]\<rparr>)"
proof -
  let ?h = "cb_sent_history self" and ?len = "word_of_nat (length d) :: u64"
  have u: "unat ?len = length d" "unat offset + length d < 2 ^ 64" "unat (offset + ?len) = unat offset + length d"
    using assms(4) frag_end [OF assms(4)] by (simp_all add: frag_fits_def unat_of_nat)
  have lt: "offset < offset + ?len" using u assms(3) by (simp add: word_less_nat_alt)
  then have nle: "\<not> offset + ?len \<le> offset" using leD by blast
  have l: "bt_last_upto offset ?h = Some (offset, d)"
  proof (cases "bt_last_upto offset ?h")
    case None
    then show ?thesis using assms(2) by (force simp: bt_last_upto_def last_opt_None filter_empty_conv)
  next
    case (Some e)
    obtain k v where e: "e = (k, v)" by fastforce
    note s = last_opt_filter [OF assms(1) Some [unfolded bt_last_upto_def e]]
    have "k = offset" using s(2,3) assms(2) by force
    then have "v = d" using s(1) assms(1,2) by (metis bt_get_iff option.inject)
    then show ?thesis using Some e \<open>k = offset\<close> by simp
  qed
  have "requeue_gather ?h offset (offset + ?len) [] = requeue_gather ?h (offset + ?len) (offset + ?len) d"
    using lt l u(1) assms(3) nle by (subst requeue_gather.simps) (simp add: Let_def)
  also have "\<dots> = Some d" by (subst requeue_gather.simps) simp
  finally have g: "requeue_gather ?h offset (saturating_add_u64 offset ?len) [] = Some d"
    using u by (simp add: saturating_add_u64_def)
  have "?len \<noteq> 0" using u(1) assms(3) by auto
  then show ?thesis using g assms(5) by (simp add: requeue_range_def)
qed

lemma gather_step:
  assumes "requeue_gather history cursor end_off acc = Some bytes" "cursor < end_off" "bt_wf history" "\<forall>c \<in> set history. sent_piece st sent c"
  obtains k o' d where "(o', d) \<in> set history" "0 < k" "unat cursor + k \<le> unat end_off" "unat o' \<le> unat cursor"
    "unat cursor + k \<le> unat o' + length d"
    "requeue_gather history (cursor + word_of_nat k) end_off (acc @ take k (drop (unat cursor - unat o') d)) = Some bytes"
proof -
  obtain o' d where e: "bt_last_upto cursor history = Some (o', d)" "\<not> o' + word_of_nat (length d) \<le> cursor"
    using assms(1,2) by (subst (asm) requeue_gather.simps) (auto split: option.splits if_splits)
  let ?k = "min (unat (end_off - cursor)) (length d - unat (cursor - o'))"
  have m: "(o', d) \<in> set history" "o' \<le> cursor" using last_opt_filter(1,2) [OF assms(3) e(1) [unfolded bt_last_upto_def]] by simp_all
  have k: "?k \<noteq> 0" "requeue_gather history (cursor + word_of_nat ?k) end_off (acc @ take ?k (drop (unat (cursor - o')) d)) = Some bytes"
    using assms(1,2) e by (subst (asm) requeue_gather.simps, simp add: Let_def split: if_splits)+
  have u: "unat (cursor - o') = unat cursor - unat o'" "unat (end_off - cursor) = unat end_off - unat cursor" "unat o' \<le> unat cursor"
    using m(2) assms(2) by (simp_all add: unat_sub word_le_nat_alt word_less_nat_alt)
  show thesis using k m(1) u assms(2) by (intro that [of o' d ?k]) (auto simp: word_less_nat_alt)
qed

lemma gather_slice:
  assumes "requeue_gather history cursor end_off acc = Some bytes" "bt_wf history" "\<forall>c \<in> set history. sent_piece st sent c"
    "is_slice (nth st) (n, acc)" "n + length acc = unat cursor" "unat cursor \<le> unat end_off"
  shows "is_slice (nth st) (n, bytes) \<and> n + length bytes = unat end_off
    \<and> (unat cursor \<le> unat sent \<longrightarrow> unat end_off \<le> unat sent)"
  using assms
proof (induction "unat end_off - unat cursor" arbitrary: cursor acc rule: less_induct)
  case less
  show ?case
  proof (cases "cursor < end_off")
    case False
    then show ?thesis using less.prems(1,4,5,6) by (subst (asm) requeue_gather.simps) (simp add: word_less_nat_alt)
  next
    case True
    obtain k o' d where g: "(o', d) \<in> set history" "0 < k" "unat cursor + k \<le> unat end_off" "unat o' \<le> unat cursor"
      "unat cursor + k \<le> unat o' + length d"
      "requeue_gather history (cursor + word_of_nat k) end_off (acc @ take k (drop (unat cursor - unat o') d)) = Some bytes"
      using gather_step [OF less.prems(1) True less.prems(2,3)] by blast
    let ?piece = "take k (drop (unat cursor - unat o') d)"
    have u: "unat (cursor + word_of_nat k) = unat cursor + k"
      using g(3) unat_lt [of end_off] by (simp add: unat_word_ariths unat_of_nat)
    have h: "is_slice (nth st) (unat o', d)" "unat o' + length d \<le> unat sent"
      using less.prems(3) g(1) by (auto simp: sent_piece_def nat_frag_def)
    have "is_slice (nth st) (unat cursor, ?piece)"
      using is_slice_take [OF is_slice_drop [OF h(1)], of "unat cursor - unat o'" k] g(2,4,5) by simp
    then have s: "is_slice (nth st) (n, acc @ ?piece)" using less.prems(4,5) by (simp add: is_slice_append)
    have l: "length ?piece = k" using g(2,4,5) by simp
    have "is_slice (nth st) (n, bytes) \<and> n + length bytes = unat end_off
      \<and> (unat (cursor + word_of_nat k) \<le> unat sent \<longrightarrow> unat end_off \<le> unat sent)"
      using less.prems(2,3,5) g(2,3,6) u s l True by (intro less.hyps) (auto simp: word_less_nat_alt)
    then show ?thesis using u g(5) h(2) by auto
  qed
qed

lemma sender_requeue:
  assumes "cb_sender_ok st self" "requeue_range self offset len = (ok, self')" "unat offset + unat len < 2 ^ 64"
  shows "cb_sender_ok st self' \<and> cb_outbound_offset self' = cb_outbound_offset self"
proof (cases ok)
  case False
  then show ?thesis using assms by (auto simp: requeue_range_def split: if_splits option.splits)
next
  case True
  let ?fin = "saturating_add_u64 offset len" and ?sent = "cb_outbound_offset self"
  obtain bs where g: "requeue_gather (cb_sent_history self) offset ?fin [] = Some bs" "len \<noteq> 0"
    "self' = self\<lparr>cb_rtx := cb_rtx self @ [(offset, bs)]\<rparr>"
    using assms(2) True unfolding requeue_range_def by (auto split: if_splits option.splits)
  have ok: "bt_wf (cb_sent_history self)" "\<forall>c \<in> set (cb_sent_history self). sent_piece st ?sent c"
    using assms(1) by (auto simp: cb_sender_ok_def)
  have e: "unat ?fin = unat offset + unat len" using assms(3) by (simp add: saturating_add_u64_def unat_word_ariths)
  moreover have "0 < unat len" using g(2) by (simp add: unat_gt_0)
  ultimately have lt: "offset < ?fin" by (simp add: word_less_nat_alt)
  obtain k o' d where "(o', d) \<in> set (cb_sent_history self)" "unat offset + k \<le> unat o' + length d"
    using gather_step [OF g(1) lt ok] by blast
  then have "unat offset \<le> unat ?sent" using ok(2) by (auto simp: sent_piece_def)
  then have "sent_piece st ?sent (offset, bs)"
    using gather_slice [OF g(1) ok, of "unat offset"] e by (simp add: sent_piece_def nat_frag_def)
  then have "cb_sender_ok st self'"
    using assms(1) sender_update [OF assms(1), of self' "(offset, bs)" "(offset, bs)"] by (auto simp: g(3) cb_sender_ok_def)
  then show ?thesis by (simp add: g(3))
qed

lemma set_fold_remove: "set (fold bt_remove ks m) \<subseteq> set m" "bt_wf m \<Longrightarrow> bt_wf (fold bt_remove ks m)"
proof (induction ks arbitrary: m)
  case (Cons k ks)
  {
    case 1
    show ?case using Cons.IH(1) [of "bt_remove k m"] by auto
  next
    case 2
    then show ?case using Cons.IH(2) [of "bt_remove k m"] by (simp add: bt_remove_wf)
  }
qed simp_all

lemma sender_acked: "cb_sender_ok st self \<Longrightarrow> cb_sender_ok st (on_range_acked self offset len)"
  "cb_outbound_offset (on_range_acked self offset len) = cb_outbound_offset self"
  using set_fold_remove by (fastforce simp: cb_sender_ok_def on_range_acked_def Let_def)+

lemma sender_retransmit: "cb_sender_ok st self \<Longrightarrow> cb_sender_ok st (snd (schedule_last_chunk_retransmit self))"
  "cb_outbound_offset (snd (schedule_last_chunk_retransmit self)) = cb_outbound_offset self"
  by (auto simp: cb_sender_ok_def schedule_last_chunk_retransmit_def split: option.splits)

text \<open>A run of the sender: the bytes enqueued, the state, and the chunks handed out to packets.\<close>

inductive cb_sender :: "bytes \<Rightarrow> crypto_buf \<Rightarrow> (u64 \<times> bytes) list \<Rightarrow> bool" where
  start: "cb_sender [] crypto_buf_new []"
| enqueue: "cb_sender st self out \<Longrightarrow> length st + length data < 2 ^ 64 \<Longrightarrow> cb_sender (st @ data) (enqueue_outbound self data) out"
| carve: "cb_sender st self out \<Longrightarrow> carve self cap = (Some c, self') \<Longrightarrow> cb_sender st self' (out @ [c])"
| lost: "cb_sender st self out \<Longrightarrow> unat offset + unat len < 2 ^ 64 \<Longrightarrow> requeue_range self offset len = (r, self') \<Longrightarrow>
    cb_sender st self' out"
| acked: "cb_sender st self out \<Longrightarrow> cb_sender st (on_range_acked self offset len) out"
| probe: "cb_sender st self out \<Longrightarrow> cb_sender st (snd (schedule_last_chunk_retransmit self)) out"

lemma sender_invariant:
  "cb_sender st self out \<Longrightarrow> cb_sender_ok st self \<and> (\<forall>c \<in> set out. sent_piece st (cb_outbound_offset self) c)
   \<and> {..<unat (cb_outbound_offset self)} \<subseteq> \<Union> (span ` nat_frag ` set out)"
proof (induction rule: cb_sender.induct)
  case start
  show ?case by (simp add: sender_new) (simp add: crypto_buf_new_def)
next
  case (enqueue st self out data)
  then have "unat (cb_outbound_offset self) \<le> length st" by (simp add: cb_sender_ok_def)
  then show ?case using enqueue sender_enqueue sent_piece_enqueue by (simp add: enqueue_outbound_def)
next
  case (carve st self out cap c self')
  note s = sender_carve [OF conjunct1 [OF carve.IH] carve.hyps(2)]
  have "\<forall>d \<in> set (out @ [c]). sent_piece st (cb_outbound_offset self') d"
    using carve.IH s sent_piece_mono by auto
  then show ?case using carve.IH s by auto
next
  case (lost st self out offset len r self')
  then show ?case using sender_requeue [of st self offset len r self'] by simp
next
  case (acked st self out offset len)
  then show ?case using sender_acked by simp
next
  case (probe st self out)
  then show ?case using sender_retransmit by simp
qed

text \<open>C1. The CRYPTO stream from end to end: a sender that enqueues bytes, carves chunks of any size, requeues lost
ranges, forgets acknowledged ones and probes, in any order, hands out chunks such that a receiver that gets any of
them, in any order and with repeats, releases a prefix of the bytes enqueued; when all has been carved and every chunk
has arrived, it releases exactly these bytes.\<close>

theorem crypto_stream_end_to_end:
  assumes "cb_sender st sender out" "set frags \<subseteq> set out" "feed cb_step crypto_buf_new frags = Some (released, receiver)"
  shows "released = take (length released) st \<and> (cb_outbound sender = [] \<and> set frags = set out \<longrightarrow> released = st)"
proof -
  note inv = sender_invariant [OF assms(1)]
  have ok: "length st < 2 ^ 64" "unat (cb_outbound_offset sender) \<le> length st" "cb_outbound sender = drop (unat (cb_outbound_offset sender)) st"
    using inv by (simp_all add: cb_sender_ok_def)
  have piece: "unat (fst c) + length (snd c) \<le> length st \<and> is_slice (nth st) (nat_frag c)" if "c \<in> set frags" for c
  proof -
    have "sent_piece st (cb_outbound_offset sender) c" using inv assms(2) that by blast
    then show ?thesis using ok(2) unfolding sent_piece_def by linarith
  qed
  then have "\<forall>f \<in> set frags. frag_fits f \<and> is_slice (nth st) (nat_frag f)"
    using ok(1) unfolding frag_fits_def by (meson le_less_trans)
  from crypto.feed_prefix [OF assms(3) _ this] have p: "released = map (nth st) [0..<unat (cb_next_offset receiver)]"
    "{..<unat (cb_next_offset receiver)} \<subseteq> \<Union> (span ` nat_frag ` set frags)"
    "unat (cb_next_offset receiver) \<notin> \<Union> (span ` nat_frag ` set frags)"
    by (simp_all add: crypto_buf_new_def cb_ok_def)
  have "\<Union> (span ` nat_frag ` set frags) \<subseteq> {..<length st}" using piece by (fastforce simp: span_nat_frag)
  then have le: "unat (cb_next_offset receiver) \<le> length st" using p(2) by (meson lessThan_subset_iff subset_trans)
  then have r: "released = take (unat (cb_next_offset receiver)) st" unfolding p(1) by (intro nth_equalityI) simp_all
  moreover have "unat (cb_next_offset receiver) = length st" if "cb_outbound sender = []" "set frags = set out"
  proof -
    have "{..<length st} \<subseteq> \<Union> (span ` nat_frag ` set frags)" using inv ok(2,3) that by simp
    then show ?thesis using p(3) le by (meson lessThan_iff not_le_imp_less le_antisym subsetD)
  qed
  ultimately show ?thesis using le by simp
qed

theorem crypto_stream_end_to_end_witness:
  "\<exists>sender receiver. cb_sender [1, 2, 3] sender [(0, [1, 2]), (2, [3])]
    \<and> feed cb_step crypto_buf_new [(2, [3]), (0, [1, 2])] = Some ([1, 2, 3], receiver)
    \<and> ([1, 2, 3] :: bytes) = take (length ([1, 2, 3] :: bytes)) [1, 2, 3]"
proof -
  define s0 where "s0 = enqueue_outbound crypto_buf_new [1, 2, 3]"
  define s1 where "s1 = snd (carve s0 2)"
  define s2 where "s2 = snd (carve s1 2)"
  note defs = s0_def s1_def s2_def carve_def enqueue_outbound_def crypto_buf_new_def Let_def
  have a: "cb_sender ([] @ [1, 2, 3]) s0 []" unfolding s0_def by (rule cb_sender.enqueue [OF cb_sender.start]) simp
  have "carve s0 2 = (Some (0, [1, 2]), s1)" by (simp add: defs)
  from cb_sender.carve [OF a this] have b: "cb_sender [1, 2, 3] s1 [(0, [1, 2])]" by simp
  have "carve s1 2 = (Some (2, [3]), s2)" by (simp add: defs)
  from cb_sender.carve [OF b this] have c: "cb_sender [1, 2, 3] s2 [(0, [1, 2]), (2, [3])]" by simp
  have "map_option fst (feed cb_step crypto_buf_new [(2, [3]), (0, [1, 2])]) = Some [1, 2, 3]"
    by (simp add: cb_step_def on_crypto_def on_crypto_trimmed_def on_crypto_in_order_def on_crypto_out_of_order_def crypto_buf_new_def
        bt_last_below_def bt_get_def last_opt_def total_pending_bytes_def MAX_PENDING_CRYPTO_BYTES_def MAX_PENDING_FRAGMENTS_def)
  then obtain receiver where f: "feed cb_step crypto_buf_new [(2, [3]), (0, [1, 2])] = Some ([1, 2, 3], receiver)" by auto
  have "set [(2, [3]), (0, [1, 2])] \<subseteq> set [(0, [1, 2]), (2 :: u64, [3 :: u8])]" by simp
  from crypto_stream_end_to_end [OF c this f] c f show ?thesis by blast
qed

end
