(* ===== verification/AesGf.thy ===== *)
theory AesGf
  imports Prelude
begin

unbundle bit_operations_syntax

text \<open>
  Module \<open>cipher/aes/gf.rs\<close>: the field GF(2^8) of AES, the S-box as the algebraic definition of
  FIPS 197 (a field inversion followed by an affine map), and the bitsliced S-box circuit the cipher
  runs.  The lemmas show that the field laws hold, that 3 generates the non-zero bytes, and that one
  lane of the circuit is the algebraic S-box.
\<close>

section \<open>The field and the scalar S-box\<close>

text \<open>One iteration of the loop of \<open>gf_mul\<close> on \<open>(product, a, b)\<close>.\<close>

definition gf_mul_step :: "u8 \<times> u8 \<times> u8 \<Rightarrow> u8 \<times> u8 \<times> u8" where
  "gf_mul_step = (\<lambda>(product, a, b).
     let bt = 0 - (b AND 1);
         product = product XOR (bt AND a);
         carry = 0 - drop_bit 7 a;
         a = push_bit 1 a XOR (carry AND 0x1b)
     in (product, a, drop_bit 1 b))"

definition gf_mul :: "u8 \<Rightarrow> u8 \<Rightarrow> u8" where
  "gf_mul a b = fst ((gf_mul_step ^^ 8) (0, a, b))"

definition gf_inv :: "u8 \<Rightarrow> u8" where
  "gf_inv x =
    (let x2 = gf_mul x x; x4 = gf_mul x2 x2; x8 = gf_mul x4 x4; x16 = gf_mul x8 x8;
         x32 = gf_mul x16 x16; x64 = gf_mul x32 x32; x128 = gf_mul x64 x64;
         r = x2; r = gf_mul r x4; r = gf_mul r x8; r = gf_mul r x16; r = gf_mul r x32;
         r = gf_mul r x64
     in gf_mul r x128)"

definition sub_byte :: "u8 \<Rightarrow> u8" where
  "sub_byte x =
    (let i = gf_inv x
     in i XOR word_rotl 1 i XOR word_rotl 2 i XOR word_rotl 3 i XOR word_rotl 4 i
        XOR 0x63)"

definition inv_sub_byte :: "u8 \<Rightarrow> u8" where
  "inv_sub_byte x = gf_inv (word_rotl 1 x XOR word_rotl 3 x XOR word_rotl 6 x XOR 0x05)"

section \<open>The bitsliced S-box\<close>

text \<open>
  The circuit.  The code runs it on 32-bit planes; the width is left open here, so that one lane
  of it is the same circuit on one-bit planes.
\<close>

definition sbox_planes :: "'w::len word list \<Rightarrow> 'w word list" where
  "sbox_planes q =
    (let x0 = q ! 7; x1 = q ! 6; x2 = q ! 5; x3 = q ! 4;
     x4 = q ! 3; x5 = q ! 2; x6 = q ! 1; x7 = q ! 0;
     y14 = x3 XOR x5; y13 = x0 XOR x6; y9 = x0 XOR x3; y8 = x0 XOR x5;
     t0 = x1 XOR x2; y1 = t0 XOR x7; y4 = y1 XOR x3; y12 = y13 XOR y14;
     y2 = y1 XOR x0; y5 = y1 XOR x6; y3 = y5 XOR y8; t1 = x4 XOR y12;
     y15 = t1 XOR x5; y20 = t1 XOR x1; y6 = y15 XOR x7; y10 = y15 XOR t0;
     y11 = y20 XOR y9; y7 = x7 XOR y11; y17 = y10 XOR y11; y19 = y10 XOR y8;
     y16 = t0 XOR y11; y21 = y13 XOR y16; y18 = x0 XOR y16; t2 = y12 AND y15;
     t3 = y3 AND y6; t4 = t3 XOR t2; t5 = y4 AND x7; t6 = t5 XOR t2;
     t7 = y13 AND y16; t8 = y5 AND y1; t9 = t8 XOR t7; t10 = y2 AND y7;
     t11 = t10 XOR t7; t12 = y9 AND y11; t13 = y14 AND y17; t14 = t13 XOR t12;
     t15 = y8 AND y10; t16 = t15 XOR t12; t17 = t4 XOR t14; t18 = t6 XOR t16;
     t19 = t9 XOR t14; t20 = t11 XOR t16; t21 = t17 XOR y20; t22 = t18 XOR y19;
     t23 = t19 XOR y21; t24 = t20 XOR y18; t25 = t21 XOR t22; t26 = t21 AND t23;
     t27 = t24 XOR t26; t28 = t25 AND t27; t29 = t28 XOR t22; t30 = t23 XOR t24;
     t31 = t22 XOR t26; t32 = t31 AND t30; t33 = t32 XOR t24; t34 = t23 XOR t33;
     t35 = t27 XOR t33; t36 = t24 AND t35; t37 = t36 XOR t34; t38 = t27 XOR t36;
     t39 = t29 AND t38; t40 = t25 XOR t39; t41 = t40 XOR t37; t42 = t29 XOR t33;
     t43 = t29 XOR t40; t44 = t33 XOR t37; t45 = t42 XOR t41; z0 = t44 AND y15;
     z1 = t37 AND y6; z2 = t33 AND x7; z3 = t43 AND y16; z4 = t40 AND y1;
     z5 = t29 AND y7; z6 = t42 AND y11; z7 = t45 AND y17; z8 = t41 AND y10;
     z9 = t44 AND y12; z10 = t37 AND y3; z11 = t33 AND y4; z12 = t43 AND y13;
     z13 = t40 AND y5; z14 = t29 AND y2; z15 = t42 AND y9; z16 = t45 AND y14;
     z17 = t41 AND y8; t46 = z15 XOR z16; t47 = z10 XOR z11; t48 = z5 XOR z13;
     t49 = z9 XOR z10; t50 = z2 XOR z12; t51 = z2 XOR z5; t52 = z7 XOR z8;
     t53 = z0 XOR z3; t54 = z6 XOR z7; t55 = z16 XOR z17; t56 = z12 XOR t48;
     t57 = t50 XOR t53; t58 = z4 XOR t46; t59 = z3 XOR t54; t60 = t46 XOR t57;
     t61 = z14 XOR t57; t62 = t52 XOR t58; t63 = t49 XOR t58; t64 = z4 XOR t59;
     t65 = t61 XOR t62; t66 = z1 XOR t63; s0 = t59 XOR t63; s6 = t56 XOR NOT t62;
     s7 = t48 XOR NOT t60; t67 = t64 XOR t65; s3 = t53 XOR t66; s4 = t51 XOR t66;
     s5 = t47 XOR t65; s1 = t64 XOR NOT s3; s2 = t55 XOR NOT t67
     in [s7, s6, s5, s4, s3, s2, s1, s0])"

section \<open>The field laws\<close>

definition xt :: "u8 \<Rightarrow> u8" where
  "xt a = push_bit 1 a XOR (if bit a 7 then 0x1b else 0)"

primrec gf_acc :: "nat \<Rightarrow> u8 \<Rightarrow> u8 \<Rightarrow> u8" where
  "gf_acc 0 a b = 0"
| "gf_acc (Suc n) a b = gf_acc n a b XOR (if bit b n then (xt ^^ n) a else 0)"

lemma mask_low: "(0 - (b AND 1)) AND a = (if bit b 0 then a else 0)" for a b :: "'w::len word"
  by (simp add: and_one_eq mod_2_eq_odd bit_0)

lemma mask_top: "(0 - drop_bit 7 a) AND c = (if bit a 7 then c else 0)" for a c :: u8
proof -
  have "drop_bit 7 a = drop_bit 7 a AND 1"
    by (rule bit_word_eqI)
      (auto simp: bit_drop_bit_eq bit_and_iff bit_1_iff dest: bit_imp_le_length)
  then show ?thesis
    using mask_low [of "drop_bit 7 a" c] by (simp add: bit_drop_bit_eq)
qed

lemma gf_mul_step_eq:
  "gf_mul_step (p, a, b) = (p XOR (if bit b 0 then a else 0), xt a, drop_bit 1 b)"
  by (simp only: gf_mul_step_def Let_def prod.case mask_low mask_top xt_def)

lemma gf_mul_steps:
  "(gf_mul_step ^^ n) (0, a, b) = (gf_acc n a b, (xt ^^ n) a, drop_bit n b)"
  by (induction n) (simp_all add: gf_mul_step_eq bit_drop_bit_eq)

lemma gf_mul_acc: "gf_mul a b = gf_acc 8 a b"
  by (simp add: gf_mul_def gf_mul_steps)

lemma xt_xor: "xt (a XOR b) = xt a XOR xt b"
  by (simp add: xt_def push_bit_xor bit_xor_iff ac_simps)

lemma xt_0 [simp]: "xt 0 = 0"
  by (simp add: xt_def)

lemma xt_pow_xor: "(xt ^^ n) (a XOR b) = (xt ^^ n) a XOR (xt ^^ n) b"
  by (induction n) (simp_all add: xt_xor)

lemma xt_pow_0 [simp]: "(xt ^^ n) 0 = 0"
  by (induction n) simp_all

lemma gf_acc_xor_right: "gf_acc n a (b XOR c) = gf_acc n a b XOR gf_acc n a c"
  by (induction n) (simp_all add: bit_xor_iff ac_simps)

lemma gf_acc_xor_left: "gf_acc n (a XOR b) c = gf_acc n a c XOR gf_acc n b c"
  by (induction n) (simp_all add: xt_pow_xor ac_simps)

lemma gf_acc_xt: "gf_acc n ((xt ^^ k) a) b = (xt ^^ k) (gf_acc n a b)"
  by (induction n) (simp_all add: xt_pow_xor funpow_add [symmetric, THEN fun_cong, unfolded comp_def] add.commute)

lemma gf_acc_0 [simp]: "gf_acc n 0 b = 0" "gf_acc n a 0 = 0"
  by (induction n) simp_all

lemma gf_acc_acc: "gf_acc n (gf_acc m a b) c = gf_acc m (gf_acc n a c) b"
  by (induction m) (simp_all add: gf_acc_xor_left gf_acc_xt)

lemma xt_pow_1: "n < 8 \<Longrightarrow> (xt ^^ n) 1 = 2 ^ n"
  by (induction n) (auto simp: xt_def bit_exp_iff)

lemma gf_acc_1_left: "n \<le> 8 \<Longrightarrow> gf_acc n 1 b = take_bit n b"
proof (induction n)
  case (Suc n)
  then show ?case
    by (intro bit_word_eqI)
      (auto simp: xt_pow_1 bit_xor_iff bit_take_bit_iff bit_exp_iff less_Suc_eq)
qed simp

lemma gf_mul_1_left [simp]: "gf_mul 1 b = b"
  by (simp add: gf_mul_acc gf_acc_1_left take_bit_word_eq_self)

lemma gf_mul_swap: "gf_mul (gf_mul a b) c = gf_mul (gf_mul a c) b"
  by (simp add: gf_mul_acc gf_acc_acc)

lemma gf_mul_commute: "gf_mul a b = gf_mul b a"
  using gf_mul_swap [of 1 a b] by simp

lemma gf_mul_assoc: "gf_mul (gf_mul a b) c = gf_mul a (gf_mul b c)"
  by (metis gf_mul_commute gf_mul_swap)

lemma gf_mul_xor: "gf_mul (a XOR b) c = gf_mul a c XOR gf_mul b c"
  "gf_mul a (b XOR c) = gf_mul a b XOR gf_mul a c"
  by (simp_all add: gf_mul_acc gf_acc_xor_left gf_acc_xor_right)

interpretation gf: comm_monoid_mult gf_mul 1
  by unfold_locales (rule gf_mul_assoc gf_mul_commute gf_mul_1_left)+

lemma gf_power_mul: "gf_mul (gf.power x m) (gf.power x n) = gf.power x (m + n)"
  by (rule gf.power_add [symmetric])

lemma gf_inv_power: "gf_inv x = gf.power x 254"
proof -
  have "gf_mul x x = gf.power x 2"
    by (rule gf.power2_eq_square [symmetric])
  then show ?thesis
    by (simp add: gf_inv_def Let_def gf_power_mul del: gf.power_Suc)
qed

text \<open>The powers of the generator 3 run through the non-zero bytes.\<close>

primrec gf_exps :: "nat \<Rightarrow> u8 \<Rightarrow> bytes" where
  "gf_exps 0 a = []"
| "gf_exps (Suc n) a = a # gf_exps n (xt a XOR a)"

lemma gf_mul_3: "gf_mul 3 a = xt a XOR a"
proof -
  have "gf_mul a 3 = a XOR xt a"
    by (simp add: gf_mul_acc numeral_eq_Suc)
  then show ?thesis
    by (simp add: gf_mul_commute xor.commute)
qed

lemma gf_exps_eq: "gf_exps n (gf.power 3 k) = map (gf.power 3) [k..<k + n]"
  by (induction n arbitrary: k)
     (simp_all add: upt_rec gf_mul_3 [symmetric] flip: gf.power_Suc)

lemma gf_exps_numeral:
  "gf_exps (numeral k) a = a # gf_exps (pred_numeral k) (xt a XOR a)"
  by (simp add: numeral_eq_Suc)

definition exp_table :: bytes where
  "exp_table = [
     1, 3, 5, 15, 17, 51, 85, 255, 26, 46, 114, 150, 161, 248, 19, 53, 95, 225, 56, 72, 216, 115,
     149, 164, 247, 2, 6, 10, 30, 34, 102, 170, 229, 52, 92, 228, 55, 89, 235, 38, 106, 190, 217, 112,
     144, 171, 230, 49, 83, 245, 4, 12, 20, 60, 68, 204, 79, 209, 104, 184, 211, 110, 178, 205, 76, 212,
     103, 169, 224, 59, 77, 215, 98, 166, 241, 8, 24, 40, 120, 136, 131, 158, 185, 208, 107, 189, 220, 127,
     129, 152, 179, 206, 73, 219, 118, 154, 181, 196, 87, 249, 16, 48, 80, 240, 11, 29, 39, 105, 187, 214,
     97, 163, 254, 25, 43, 125, 135, 146, 173, 236, 47, 113, 147, 174, 233, 32, 96, 160, 251, 22, 58, 78,
     210, 109, 183, 194, 93, 231, 50, 86, 250, 21, 63, 65, 195, 94, 226, 61, 71, 201, 64, 192, 91, 237,
     44, 116, 156, 191, 218, 117, 159, 186, 213, 100, 172, 239, 42, 126, 130, 157, 188, 223, 122, 142, 137, 128,
     155, 182, 193, 88, 232, 35, 101, 175, 234, 37, 111, 177, 200, 67, 197, 84, 252, 31, 33, 99, 165, 244,
     7, 9, 27, 45, 119, 153, 176, 203, 70, 202, 69, 207, 74, 222, 121, 139, 134, 145, 168, 227, 62, 66,
     198, 81, 243, 14, 18, 54, 90, 238, 41, 123, 141, 140, 143, 138, 133, 148, 167, 242, 13, 23, 57, 75,
     221, 124, 132, 151, 162, 253, 28, 36, 108, 180, 199, 82, 246]"

lemma gf_exps_table: "gf_exps 256 1 = exp_table @ [1]"
  by (simp add: gf_exps_numeral exp_table_def xt_def)

lemma exp_table_powers: "exp_table @ [1] = map (gf.power 3) [0..<256]"
  using gf_exps_eq [of 256 0] gf_exps_table by simp

lemma length_exp_table [simp]: "length exp_table = 255"
  by (simp add: exp_table_def)

lemma nth_exp_table: "k < 255 \<Longrightarrow> exp_table ! k = gf.power 3 k"
  using arg_cong [OF exp_table_powers, of "\<lambda>xs. xs ! k"] by (simp add: nth_append)

lemma gf_order: "gf.power 3 255 = 1"
  using arg_cong [OF exp_table_powers, of "\<lambda>xs. xs ! 255"] by (simp add: nth_append)

lemma gf_power_neq_1:
  assumes "0 < d" and "d < 255"
  shows "gf.power 3 d \<noteq> 1"
proof -
  have "tl exp_table ! (d - 1) = gf.power 3 d"
    using assms nth_exp_table [of d] by (simp add: nth_tl)
  moreover have "tl exp_table ! (d - 1) \<in> set (tl exp_table)"
    using assms by (intro nth_mem) simp
  moreover have "1 \<notin> set (tl exp_table)"
    by (simp add: exp_table_def)
  ultimately show ?thesis by auto
qed

lemma gf_power_inverse: "k \<le> 255 \<Longrightarrow> gf_mul (gf.power 3 k) (gf.power 3 (255 - k)) = 1"
  by (simp add: gf_power_mul gf_order)

lemma gf_power_inj: "inj_on (gf.power 3) {..<255}"
proof -
  have False if "gf.power 3 i = gf.power 3 j" and "i < j" and "j < 255" for i j
  proof -
    have "gf_mul (gf.power 3 j) (gf.power 3 (255 - i)) = gf.power 3 (255 + (j - i))"
      using that by (simp add: gf_power_mul add.commute)
    also have "\<dots> = gf.power 3 (j - i)"
      by (simp only: gf.power_add gf_order gf_mul_1_left)
    finally show False
      using that gf_power_inverse [of i] gf_power_neq_1 [of "j - i"] by simp
  qed
  then show ?thesis
    by (intro inj_onI) (metis lessThan_iff linorder_neqE_nat)
qed

lemma gf_mul_0 [simp]: "gf_mul 0 a = 0" "gf_mul a 0 = 0"
  by (simp_all add: gf_mul_acc)

lemma gf_power_neq_0: "k < 255 \<Longrightarrow> gf.power 3 k \<noteq> 0"
  using gf_power_inverse [of k] by fastforce

lemma gf_log:
  assumes "x \<noteq> 0"
  obtains k where "k < 255" and "x = gf.power 3 k"
proof -
  have "card (gf.power 3 ` {..<255}) = 255"
    using card_image [OF gf_power_inj] by simp
  moreover have "card (UNIV - {0 :: u8}) = 255"
    by (simp add: card_Diff_singleton card_word)
  moreover have "gf.power 3 ` {..<255} \<subseteq> UNIV - {0}"
    using gf_power_neq_0 by auto
  ultimately have "gf.power 3 ` {..<255} = UNIV - {0}"
    by (metis card_subset_eq finite)
  then show ?thesis
    using assms that by blast
qed

lemma gf_fermat: "x \<noteq> 0 \<Longrightarrow> gf.power x 255 = 1"
proof (erule gf_log)
  fix k assume x: "x = gf.power 3 k"
  have "gf.power x 255 = gf.power (gf.power 3 255) k"
    unfolding x by (simp only: gf.power_mult [symmetric] mult.commute)
  then show "gf.power x 255 = 1"
    by (simp only: gf_order gf.power_one)
qed

lemma gf_inv_right: "x \<noteq> 0 \<Longrightarrow> gf_mul x (gf_inv x) = 1"
  using gf_fermat [of x] gf.power_Suc [of x 254] by (simp add: gf_inv_power del: gf.power_Suc)

lemma gf_inv_0 [simp]: "gf_inv 0 = 0"
  by (simp add: gf_inv_def)

lemma gf_inv_unique:
  assumes "gf_mul x y = 1"
  shows "gf_inv x = y"
proof -
  have "x \<noteq> 0" using assms by auto
  then have "gf_mul (gf_mul x y) (gf_inv x) = y"
    by (metis gf_inv_right gf_mul_1_left gf_mul_commute gf_mul_swap)
  then show ?thesis using assms by simp
qed

lemma gf_inv_inv [simp]: "gf_inv (gf_inv x) = x"
  by (cases "x = 0") (simp_all add: gf_inv_unique gf_inv_right gf_mul_commute [of "gf_inv x"])

lemma gf_inv_powers: "map gf_inv exp_table = 1 # rev (tl exp_table)"
proof (rule nth_equalityI)
  fix k assume "k < length (map gf_inv exp_table)"
  then have k: "k < 255" by simp
  have "gf_inv (gf.power 3 k) = gf.power 3 (255 - k)"
    using k by (intro gf_inv_unique gf_power_inverse) simp
  moreover have "(1 # rev (tl exp_table)) ! k = gf.power 3 (255 - k)"
  proof (cases k)
    case 0
    then show ?thesis by (simp add: gf_order)
  next
    case (Suc j)
    then have "rev (tl exp_table) ! j = exp_table ! (255 - k)"
      using k by (simp add: rev_nth nth_tl flip: Suc_diff_le)
    then show ?thesis using Suc k by (simp add: nth_exp_table)
  qed
  ultimately show "map gf_inv exp_table ! k = (1 # rev (tl exp_table)) ! k"
    using k by (simp add: nth_exp_table)
qed simp

section \<open>The affine maps of the S-box\<close>

lemma word_rotl_0 [simp]: "word_rotl 0 x = (x :: 'w::len word)"
  by (rule bit_word_eqI) (simp add: bit_word_rotl_iff)

lemma word_rotl_roti: "word_rotl n w = word_roti (- int n) w"
proof (cases "n = 0")
  case True
  then show ?thesis
    by (simp add: bit_word_eqI [of "word_rotr 0 w" w] bit_word_rotr_iff)
qed simp

lemma word_rotl_rotl:
  "word_rotl a (word_rotl b x) = word_rotl ((a + b) mod LENGTH('w)) (x :: 'w::len word)"
proof -
  have "word_rotl a (word_rotl b x) = word_rotl (a + b) x"
    by (simp only: word_rotl_roti word_roti_add [symmetric])
      (simp only: of_nat_add minus_add_distrib)
  also have "\<dots> = word_rotl ((a + b) mod LENGTH('w)) x"
    by (rule bit_word_eqI) (simp add: bit_word_rotl_iff)
  finally show ?thesis .
qed

lemma word_rotl8:
  assumes "0 < k" and "k < 8"
  shows "word_rotl k (x :: u8) = push_bit k x OR drop_bit (8 - k) x"
proof (rule bit_word_eqI)
  fix n assume "n < LENGTH(8)"
  then have n: "n < 8" by simp
  have "(n + 8 - k) mod 8 = (if k \<le> n then n - k else n + 8 - k)"
    using n assms by (simp add: mod_if)
  moreover have "n + 8 - k = 8 - k + n" using assms by simp
  ultimately show "bit (word_rotl k x) n = bit (push_bit k x OR drop_bit (8 - k) x) n"
    using n assms bit_imp_le_length [of x "8 - k + n"]
    by (auto simp: bit_word_rotl_iff bit_or_iff bit_push_bit_iff bit_drop_bit_eq)
qed

lemma xor_cancel [simp]: "a XOR (a XOR b) = (b :: 'w::len word)"
  by (simp flip: xor.assoc)

definition affine :: "u8 \<Rightarrow> u8" where
  "affine i = i XOR word_rotl 1 i XOR word_rotl 2 i XOR word_rotl 3 i XOR word_rotl 4 i XOR 0x63"

definition inv_affine :: "u8 \<Rightarrow> u8" where
  "inv_affine i = word_rotl 1 i XOR word_rotl 3 i XOR word_rotl 6 i XOR 5"

lemma sub_byte_affine: "sub_byte x = affine (gf_inv x)"
  by (simp add: sub_byte_def affine_def Let_def)

lemma inv_sub_byte_affine: "inv_sub_byte x = gf_inv (inv_affine x)"
  by (simp add: inv_sub_byte_def inv_affine_def)

lemma rotl_consts:
  "word_rotl 1 (0x63 :: u8) = 0xc6" "word_rotl 3 (0x63 :: u8) = 0x1b"
  "word_rotl 6 (0x63 :: u8) = 0xd8" "word_rotl 1 (5 :: u8) = 10" "word_rotl 2 (5 :: u8) = 20"
  "word_rotl 3 (5 :: u8) = 40" "word_rotl 4 (5 :: u8) = 80"
  by (simp_all add: word_rotl8)

lemma inv_affine_affine [simp]: "inv_affine (affine x) = x"
  by (simp add: affine_def inv_affine_def word_rot_logs word_rotl_rotl rotl_consts ac_simps
      numeral_2_eq_2 [symmetric] del: One_nat_def)

lemma affine_inv_affine [simp]: "affine (inv_affine x) = x"
  by (simp add: affine_def inv_affine_def word_rot_logs word_rotl_rotl rotl_consts ac_simps
      numeral_2_eq_2 [symmetric] del: One_nat_def)

lemma inv_sub_sub_byte [simp]: "inv_sub_byte (sub_byte x) = x"
  by (simp add: sub_byte_affine inv_sub_byte_affine)

lemma sub_inv_sub_byte [simp]: "sub_byte (inv_sub_byte x) = x"
  by (simp add: sub_byte_affine inv_sub_byte_affine)

section \<open>One lane of the circuit\<close>

text \<open>
  Bit \<open>l\<close> of every plane is a lane.  A lane is one byte, and the circuit on 32-bit planes is the
  circuit on one-bit planes in every lane.
\<close>

definition lane :: "nat \<Rightarrow> 'w::len word \<Rightarrow> 1 word" where
  "lane l x = (if bit x l then - 1 else 0)"

definition byte_lanes :: "u8 \<Rightarrow> 1 word list" where
  "byte_lanes x = [lane 0 x, lane 1 x, lane 2 x, lane 3 x, lane 4 x, lane 5 x, lane 6 x, lane 7 x]"

lemma let_lane:
  "(\<And>x x'. h x = x' \<Longrightarrow> h' (f x) = f' x') \<Longrightarrow> h a = a' \<Longrightarrow> h' (Let a f) = Let a' f'"
  by (simp add: Let_def)

lemma lane_xor: "lane l x = x' \<Longrightarrow> lane l y = y' \<Longrightarrow> lane l (x XOR y) = x' XOR y'"
  by (auto simp: lane_def bit_xor_iff)

lemma lane_and: "lane l x = x' \<Longrightarrow> lane l y = y' \<Longrightarrow> lane l (x AND y) = x' AND y'"
  by (auto simp: lane_def bit_and_iff)

lemma lane_not:
  "lane l (x :: 'w::len word) = x' \<Longrightarrow> l < LENGTH('w) \<Longrightarrow> lane l (NOT x) = NOT x'"
  by (auto simp: lane_def bit_not_iff possible_bit_def)

lemma map_Cons_eq: "f x = x' \<Longrightarrow> map f xs = xs' \<Longrightarrow> map f (x # xs) = x' # xs'"
  by simp

lemma map_Nil_eq: "map f [] = []"
  by simp

lemma sbox_planes_lane:
  assumes len: "length q = 8" and l: "l < LENGTH('w)"
  shows "map (lane l) (sbox_planes (q :: 'w::len word list)) = sbox_planes (map (lane l) q)"
proof -
  have nth: "lane l (q ! k) = map (lane l) q ! k" if "k < 8" for k using that len by simp
  show ?thesis
    unfolding sbox_planes_def
    by (rule let_lane [where h = "lane l"])+
      (assumption | rule map_Cons_eq map_Nil_eq lane_xor lane_and lane_not l nth | simp)+
qed

text \<open>One lane evaluated on every byte: the gates on the two values of a one-bit plane.\<close>

lemma nth_8:
  "[a, b, c, d, e, f, g, h] ! 0 = a" "[a, b, c, d, e, f, g, h] ! 1 = b"
  "[a, b, c, d, e, f, g, h] ! 2 = c" "[a, b, c, d, e, f, g, h] ! 3 = d"
  "[a, b, c, d, e, f, g, h] ! 4 = e" "[a, b, c, d, e, f, g, h] ! 5 = f"
  "[a, b, c, d, e, f, g, h] ! 6 = g" "[a, b, c, d, e, f, g, h] ! 7 = h"
  by simp_all

lemma gates:
  "- 1 XOR - 1 = (0 :: 1 word)" "- 1 XOR 0 = (- 1 :: 1 word)" "0 XOR - 1 = (- 1 :: 1 word)"
  "0 XOR 0 = (0 :: 1 word)" "- 1 AND - 1 = (- 1 :: 1 word)" "- 1 AND 0 = (0 :: 1 word)"
  "0 AND - 1 = (0 :: 1 word)" "0 AND 0 = (0 :: 1 word)" "NOT 0 = (- 1 :: 1 word)"
  "NOT (- 1) = (0 :: 1 word)" "Let (- 1) k = k (- 1 :: 1 word)" "Let 0 k = k (0 :: 1 word)"
  by (simp_all only: Let_def) simp_all

lemmas run_circuit = sbox_planes_def nth_8 gates

definition lane_ok :: "u8 \<Rightarrow> u8 \<Rightarrow> bool" where
  "lane_ok x y \<longleftrightarrow> sbox_planes (byte_lanes x) = byte_lanes y"

definition sbox_table :: bytes where
  "sbox_table = [
     124, 123, 107, 118, 130, 195, 252, 22, 162, 49, 64, 144, 50, 65, 125, 150, 207, 248, 7, 82, 97, 143,
     42, 73, 104, 119, 111, 103, 114, 147, 51, 172, 217, 24, 74, 105, 154, 203, 233, 247, 2, 174, 53, 81,
     96, 98, 142, 199, 237, 230, 242, 254, 250, 235, 27, 75, 132, 62, 69, 108, 102, 159, 55, 189, 41, 72,
     133, 211, 225, 226, 227, 14, 170, 36, 161, 48, 173, 52, 188, 196, 236, 11, 86, 112, 127, 122, 134, 210,
     12, 70, 109, 139, 59, 185, 56, 184, 213, 28, 91, 153, 202, 4, 83, 140, 43, 164, 204, 249, 234, 246,
     239, 10, 187, 212, 241, 255, 23, 79, 149, 206, 21, 163, 220, 228, 30, 183, 208, 224, 15, 71, 128, 47,
     181, 60, 169, 37, 76, 148, 35, 177, 45, 89, 117, 131, 46, 88, 152, 39, 160, 221, 9, 186, 57, 85,
     113, 146, 222, 8, 87, 157, 219, 244, 3, 67, 145, 223, 229, 243, 19, 94, 101, 158, 218, 25, 167, 205,
     20, 78, 120, 106, 155, 38, 77, 121, 135, 63, 168, 200, 232, 26, 166, 32, 176, 192, 253, 251, 6, 191,
     197, 1, 175, 216, 245, 238, 231, 31, 90, 116, 110, 138, 214, 29, 182, 61, 68, 129, 194, 17, 178, 44,
     180, 209, 13, 171, 201, 5, 190, 40, 165, 33, 93, 100, 115, 126, 151, 34, 92, 137, 215, 240, 18, 179,
     193, 16, 95, 136, 58, 84, 156, 54, 80, 141, 198, 0, 66]"

lemma affine_table: "list_all2 (\<lambda>x y. affine x = y) (1 # rev (tl exp_table)) sbox_table"
  by (simp add: exp_table_def sbox_table_def affine_def word_rotl8)

lemma circuit_table: "list_all2 lane_ok exp_table sbox_table"
  by (simp only: exp_table_def sbox_table_def list_all2_Cons list_all2_Nil)
    (intro conjI TrueI; simp add: lane_ok_def byte_lanes_def lane_def;
      simp only: run_circuit cong: let_weak_cong)

lemma circuit_0: "lane_ok 0 0x63"
  by (simp add: lane_ok_def byte_lanes_def lane_def)
    (simp only: run_circuit cong: let_weak_cong)

lemma sbox_byte: "sbox_planes (byte_lanes x) = byte_lanes (sub_byte x)"
proof (cases "x = 0")
  case True
  have "sub_byte 0 = 0x63" by (simp add: sub_byte_def)
  then show ?thesis using True circuit_0 by (simp add: lane_ok_def)
next
  case False
  then obtain k where k: "k < 255" "x = exp_table ! k"
    by (metis gf_log nth_exp_table)
  have "affine (map gf_inv exp_table ! k) = sbox_table ! k"
    using affine_table k by (simp add: list_all2_conv_all_nth flip: gf_inv_powers)
  then have "sub_byte x = sbox_table ! k"
    using k by (simp add: sub_byte_affine)
  moreover have "lane_ok x (sbox_table ! k)"
    using circuit_table k by (simp add: list_all2_conv_all_nth)
  ultimately show ?thesis by (simp add: lane_ok_def)
qed

end
