(* ===== verification/AesSbox.thy ===== *)
theory AesSbox
  imports AesGf
begin

unbundle bit_operations_syntax

text \<open>
  Module \<open>cipher/aes/gf.rs\<close>, continued: the transposition of 32 bytes into bit planes and back, and
  \<open>sub_words\<close>, which applies the S-box of \<open>AesGf\<close> or its inverse to every byte of four words.
\<close>

section \<open>Bit planes\<close>

definition transpose8 :: "u64 \<Rightarrow> u64" where
  "transpose8 x =
    (let t = (x XOR drop_bit 7 x) AND 0x00aa00aa00aa00aa; x = x XOR (t XOR push_bit 7 t);
         t = (x XOR drop_bit 14 x) AND 0x0000cccc0000cccc; x = x XOR (t XOR push_bit 14 t);
         t = (x XOR drop_bit 28 x) AND 0x00000000f0f0f0f0
     in x XOR (t XOR push_bit 28 t))"

text \<open>
  Plane \<open>i\<close> holds, in bits \<open>8 w .. 8 w + 7\<close>, byte \<open>i\<close> of the transposed word \<open>w\<close>.
\<close>

definition plane_word :: "nat \<Rightarrow> u64 \<Rightarrow> u32 list \<Rightarrow> u32 list" where
  "plane_word w x q =
    (let t = transpose8 x
     in map (\<lambda>(i, p). p OR push_bit (8 * w) (ucast (ucast (drop_bit (8 * i) t) :: u8)))
          (enumerate 0 q))"

definition to_planes :: "u64 list \<Rightarrow> u32 list" where
  "to_planes words = fold (\<lambda>(w, x). plane_word w x) (enumerate 0 words) (replicate 8 0)"

definition from_planes :: "u32 list \<Rightarrow> nat \<Rightarrow> u64 list" where
  "from_planes q n =
     map (\<lambda>w. transpose8
           (fold (\<lambda>(i, p) t. t OR push_bit (8 * i) (ucast (ucast (drop_bit (8 * w) p) :: u8)))
              (enumerate 0 q) 0))
       [0..<n]"

definition inv_affine_planes :: "u32 list \<Rightarrow> u32 list" where
  "inv_affine_planes q =
    (let x = q;
         q = map (\<lambda>i. x ! ((i + 7) mod 8) XOR x ! ((i + 5) mod 8) XOR x ! ((i + 2) mod 8))
               [0..<length q];
         q = q[0 := NOT (q ! 0)]
     in q[2 := NOT (q ! 2)])"

definition sub_words :: "u64 list \<Rightarrow> bool \<Rightarrow> u64 list" where
  "sub_words words invert =
    (let q = to_planes words;
         q = (if invert then inv_affine_planes q else q);
         q = sbox_planes q;
         q = (if invert then inv_affine_planes q else q)
     in from_planes q (length words))"

section \<open>The transpositions\<close>

definition delta_swap :: "nat \<Rightarrow> 'w::len word \<Rightarrow> 'w word \<Rightarrow> 'w word" where
  "delta_swap d m x = (let t = (x XOR drop_bit d x) AND m in x XOR (t XOR push_bit d t))"

lemma bit_delta_swap:
  assumes "\<not> (d \<le> n \<and> bit m n \<and> bit m (n - d))" and "n < LENGTH('w)"
  shows "bit (delta_swap d m x) n \<longleftrightarrow>
    bit (x :: 'w::len word)
      (if bit m n then n + d else if d \<le> n \<and> bit m (n - d) then n - d else n)"
  using assms
  by (auto simp: delta_swap_def Let_def bit_xor_iff bit_and_iff bit_drop_bit_eq bit_push_bit_iff
      add.commute)

lemma transpose8_swaps:
  "transpose8 x = delta_swap 28 0x00000000f0f0f0f0 (delta_swap 14 0x0000cccc0000cccc
     (delta_swap 7 0x00aa00aa00aa00aa x))"
  by (simp add: transpose8_def delta_swap_def Let_def)

lemma list_all_upto:
  "list_all P [0..<numeral n] \<longleftrightarrow> P 0 \<and> list_all P [1..<numeral n]"
  "list_all P [1..<numeral (num.Bit0 n)] \<longleftrightarrow> P 1 \<and> list_all P [2..<numeral (num.Bit0 n)]"
  by (simp_all add: numeral_eq_Suc upt_conv_Cons del: upt_Suc)

lemma bit_transpose8:
  assumes "n < 64"
  shows "bit (transpose8 x) n \<longleftrightarrow> bit x (8 * (n mod 8) + n div 8)"
proof -
  have "list_all (\<lambda>n. bit (transpose8 x) n \<longleftrightarrow> bit x (8 * (n mod 8) + n div 8)) [0..<64]"
    unfolding transpose8_swaps
    by (simp add: list_all_upto del: One_nat_def) (simp add: bit_delta_swap numeral_2_eq_2)
  then show ?thesis using assms by (simp add: list_all_iff)
qed

lemma bit_byte_at:
  "bit (ucast (ucast (drop_bit k t) :: u8) :: 'w::len word) n \<longleftrightarrow>
    n < 8 \<and> n < LENGTH('w) \<and> bit t (k + n)"
  for t :: "'v::len word"
  by (auto simp: bit_ucast_iff bit_drop_bit_eq)

lemma shifted_byte:
  "bit (push_bit (8 * m) (ucast (ucast (drop_bit (8 * i) t) :: u8) :: 'w::len word)) l \<longleftrightarrow>
    l < LENGTH('w) \<and> l div 8 = m \<and> bit (t :: 'v::len word) (8 * i + l mod 8)"
proof (cases "l div 8 = m")
  case True
  then have "8 * m \<le> l" "l - 8 * m = l mod 8"
    by (auto simp: minus_mult_div_eq_mod)
  then show ?thesis
    using True by (auto simp: bit_push_bit_iff bit_byte_at)
next
  case False
  have "l div 8 = m" if "8 * m \<le> l" and "l - 8 * m < 8"
    using that by (intro div_nat_eqI) simp_all
  then have "\<not> (8 * m \<le> l \<and> l - 8 * m < 8)" using False by metis
  then show ?thesis
    using False by (auto simp: bit_push_bit_iff bit_byte_at)
qed

text \<open>Bit \<open>8 w + k\<close> of plane \<open>i\<close> is bit \<open>i\<close> of byte \<open>k\<close> of word \<open>w\<close>.\<close>

lemma fold_planes:
  assumes "length q = 8" and "i < 8" and "l < 32"
  shows "bit (fold (\<lambda>(w, x). plane_word w x) (enumerate m ws) q ! i) l
    \<longleftrightarrow> bit (q ! i :: u32) l \<or> (\<exists>w < length ws. l div 8 = m + w \<and> bit (transpose8 (ws ! w)) (8 * i + l mod 8))"
  using assms
proof (induction ws arbitrary: q m)
  case (Cons x ws)
  have "length (plane_word m x q) = 8"
    using Cons.prems by (simp add: plane_word_def)
  moreover have "bit (plane_word m x q ! i) l
      \<longleftrightarrow> bit (q ! i) l \<or> l div 8 = m \<and> bit (transpose8 x) (8 * i + l mod 8)"
    using Cons.prems by (simp add: plane_word_def nth_enumerate_eq bit_or_iff shifted_byte)
  ultimately have "bit (fold (\<lambda>(w, x). plane_word w x) (enumerate m (x # ws)) q ! i) l
      \<longleftrightarrow> bit (q ! i) l \<or> l div 8 = m \<and> bit (transpose8 x) (8 * i + l mod 8)
        \<or> (\<exists>w < length ws. l div 8 = Suc m + w \<and> bit (transpose8 (ws ! w)) (8 * i + l mod 8))"
    using Cons.IH [of "plane_word m x q" "Suc m"] Cons.prems by simp
  then show ?case
    by (simp only: length_Cons less_Suc_eq_0_disj) fastforce
qed simp

lemma length_fold_planes: "length (fold (\<lambda>(w, x). plane_word w x) ws q) = length q"
  by (induction ws arbitrary: q) (auto simp: plane_word_def Let_def)

lemma length_to_planes [simp]: "length (to_planes words) = 8"
  by (simp add: to_planes_def length_fold_planes)

lemma bit_to_planes:
  assumes "i < 8" and "k < 8" and "w < length words" and "length words \<le> 4"
  shows "bit (to_planes words ! i) (8 * w + k) \<longleftrightarrow> bit (words ! w) (8 * k + i)"
proof -
  have "bit (to_planes words ! i) (8 * w + k) \<longleftrightarrow> bit (transpose8 (words ! w)) (8 * i + k)"
    unfolding to_planes_def using assms by (subst fold_planes) (auto simp: nth_replicate)
  also have "\<dots> \<longleftrightarrow> bit (words ! w) (8 * k + i)"
    using assms by (subst bit_transpose8) auto
  finally show ?thesis .
qed

lemma fold_words:
  "bit (fold (\<lambda>(i, p) t. t OR push_bit (8 * i) (ucast (ucast (drop_bit (8 * w) p) :: u8)))
      (enumerate m q) (t :: u64)) n
    \<longleftrightarrow> bit t n \<or> n < 64 \<and> (\<exists>i < length q. n div 8 = m + i \<and> bit (q ! i :: u32) (8 * w + n mod 8))"
proof (induction q arbitrary: m t)
  case (Cons p q)
  have "bit (push_bit (8 * m) (ucast (ucast (drop_bit (8 * w) p) :: u8) :: u64)) n
      \<longleftrightarrow> n < 64 \<and> n div 8 = m \<and> bit p (8 * w + n mod 8)"
    by (simp add: shifted_byte)
  then have "bit (fold (\<lambda>(i, p) t. t OR push_bit (8 * i) (ucast (ucast (drop_bit (8 * w) p) :: u8)))
      (enumerate m (p # q)) t) n
    \<longleftrightarrow> bit t n \<or> n < 64 \<and> n div 8 = m \<and> bit p (8 * w + n mod 8)
      \<or> n < 64 \<and> (\<exists>i < length q. n div 8 = Suc m + i \<and> bit (q ! i) (8 * w + n mod 8))"
    by (simp add: Cons.IH bit_or_iff)
  then show ?case
    by (simp only: length_Cons less_Suc_eq_0_disj) fastforce
qed simp

lemma bit_from_planes:
  assumes "length q = 8" and "w < n" and "i < 8" and "k < 8"
  shows "bit (from_planes q n ! w) (8 * k + i) \<longleftrightarrow> bit (q ! i) (8 * w + k)"
  using assms
  by (simp add: from_planes_def bit_transpose8 fold_words)

lemma length_from_planes [simp]: "length (from_planes q n) = n"
  by (simp add: from_planes_def)

section \<open>The S-box on every byte\<close>

lemma length_byte_lanes [simp]: "length (byte_lanes x) = 8"
  by (simp add: byte_lanes_def)

lemma less_8_cases: "i < 8 \<Longrightarrow> i = 0 \<or> i = 1 \<or> i = 2 \<or> i = 3 \<or> i = 4 \<or> i = 5 \<or> i = 6 \<or> i = (7::nat)"
  by linarith

lemma nth_byte_lanes: "i < 8 \<Longrightarrow> byte_lanes x ! i = lane i x"
  by (drule less_8_cases) (auto simp: byte_lanes_def)

lemma lane_eq_iff: "lane k x = lane l y \<longleftrightarrow> bit x k = bit y l"
  by (simp add: lane_def)

lemma lanes_eq_iff:
  "length q = 8 \<Longrightarrow> map (lane l) q = byte_lanes y \<longleftrightarrow> (\<forall>i < 8. bit (q ! i) l \<longleftrightarrow> bit y i)"
  by (simp add: list_eq_iff_nth_eq nth_byte_lanes lane_eq_iff)

lemma to_planes_lane:
  assumes "k < 8" and "w < length words" and "length words \<le> 4"
  shows "map (lane (8 * w + k)) (to_planes words) = byte_lanes (ucast (drop_bit (8 * k) (words ! w)))"
  using assms by (simp add: lanes_eq_iff bit_to_planes bit_ucast_iff bit_drop_bit_eq)

lemma length_Let: "(\<And>x. length (f x) = n) \<Longrightarrow> length (Let a f) = n"
  by (simp add: Let_def)

lemma length_sbox_planes [simp]: "length (sbox_planes q) = 8"
  unfolding sbox_planes_def by (intro length_Let) simp

lemma length_inv_affine_planes [simp]: "length (inv_affine_planes q) = length q"
  by (simp add: inv_affine_planes_def Let_def)

lemma sbox_lane:
  assumes "length q = 8" and "l < 32" and "map (lane l) q = byte_lanes y"
  shows "map (lane l) (sbox_planes (q :: u32 list)) = byte_lanes (sub_byte y)"
  using assms by (simp add: sbox_planes_lane sbox_byte)

lemma inv_affine_lane:
  assumes len: "length q = 8" and l: "l < 32" and y: "map (lane l) q = byte_lanes y"
  shows "map (lane l) (inv_affine_planes q) = byte_lanes (inv_affine y)"
proof -
  have bit_q: "bit (q ! i) l \<longleftrightarrow> bit y i" if "i < 8" for i
    using y len that by (simp add: lanes_eq_iff)
  have "bit (inv_affine_planes q ! i) l \<longleftrightarrow> bit (inv_affine y) i" if "i < 8" for i
    using less_8_cases [OF that] l len
    by (elim disjE)
      (simp_all add: inv_affine_planes_def inv_affine_def Let_def bit_xor_iff bit_not_iff
        bit_word_rotl_iff bit_q)
  then show ?thesis using len by (simp add: lanes_eq_iff)
qed

lemma from_planes_byte:
  assumes "length q = 8" and "w < n" and "k < 8" and "map (lane (8 * w + k)) q = byte_lanes y"
  shows "ucast (drop_bit (8 * k) (from_planes q n ! w)) = y"
proof (rule bit_word_eqI)
  fix i assume "i < LENGTH(8)"
  then have "i < 8" by simp
  then show "bit (ucast (drop_bit (8 * k) (from_planes q n ! w)) :: u8) i = bit y i"
    using assms by (simp add: lanes_eq_iff bit_ucast_iff bit_drop_bit_eq bit_from_planes)
qed

lemma sub_words_byte:
  assumes "k < 8" and "w < length words" and "length words \<le> 4"
  shows "ucast (drop_bit (8 * k) (sub_words words invert ! w)) =
    (if invert then inv_sub_byte else sub_byte) (ucast (drop_bit (8 * k) (words ! w)))"
proof -
  have l: "8 * w + k < 32" using assms by simp
  note lanes = to_planes_lane [OF assms]
  note sbox = sbox_lane [OF length_to_planes l lanes]
  have "map (lane (8 * w + k)) (inv_affine_planes (sbox_planes (inv_affine_planes (to_planes words))))
      = byte_lanes (inv_affine (sub_byte (inv_affine (ucast (drop_bit (8 * k) (words ! w))))))"
    by (intro inv_affine_lane sbox_lane lanes l) simp_all
  then have "map (lane (8 * w + k)) (inv_affine_planes (sbox_planes (inv_affine_planes (to_planes words))))
      = byte_lanes (inv_sub_byte (ucast (drop_bit (8 * k) (words ! w))))"
    by (simp add: sub_byte_affine inv_sub_byte_affine)
  then show ?thesis
    unfolding sub_words_def Let_def using assms(1,2) sbox
    by (auto intro!: from_planes_byte)
qed

lemma length_sub_words [simp]: "length (sub_words words invert) = length words"
  by (simp add: sub_words_def Let_def)

text \<open>
  C3.  The bitsliced S-box of the cipher agrees with the algebraic one of FIPS 197 on every byte
  of its four words: \<open>sub_words\<close> replaces each byte \<open>x\<close> by \<open>affine (x^-1)\<close>, computed in GF(2^8)
  by \<open>sub_byte\<close>, or by the inverse substitution.
\<close>

theorem sub_words_correct:
  "map to_le_bytes (sub_words [a, b, c, d] invert) =
    map (\<lambda>x. map (if invert then inv_sub_byte else sub_byte) (to_le_bytes x)) [a, b, c, d]"
proof (rule nth_equalityI)
  fix w assume "w < length (map to_le_bytes (sub_words [a, b, c, d] invert))"
  then have w: "w < length [a, b, c, d]" by simp
  have "to_le_bytes (sub_words [a, b, c, d] invert ! w) =
      map (if invert then inv_sub_byte else sub_byte) (to_le_bytes ([a, b, c, d] ! w))"
    using sub_words_byte [OF _ w, of _ invert] by (simp add: to_le_bytes_def)
  then show "map to_le_bytes (sub_words [a, b, c, d] invert) ! w =
      map (\<lambda>x. map (if invert then inv_sub_byte else sub_byte) (to_le_bytes x)) [a, b, c, d] ! w"
    using w by (simp only: nth_map length_sub_words)
qed simp

end
