(* ===== verification/Blocks.thy ===== *)
theory Blocks
  imports Prelude
begin

unbundle bit_operations_syntax

text \<open>
  What the symmetric ciphers share: the iterator \<open>chunks_exact\<close> over whole blocks of a buffer, the
  bytes of a machine word, and the XOR of byte strings.
\<close>

section \<open>Whole blocks of a buffer\<close>

definition chunks_exact :: "nat \<Rightarrow> 'a list \<Rightarrow> 'a list list" where
  "chunks_exact n xs = map (\<lambda>i. take n (drop (n * i) xs)) [0..<length xs div n]"

lemma length_chunks_exact [simp]: "length (chunks_exact n xs) = length xs div n"
  by (simp add: chunks_exact_def)

lemma nth_chunks_exact: "i < length xs div n \<Longrightarrow> chunks_exact n xs ! i = take n (drop (n * i) xs)"
  by (simp add: chunks_exact_def)

lemma chunks_exact_step:
  assumes "n \<le> length xs" and "0 < n"
  shows "chunks_exact n xs = take n xs # chunks_exact n (drop n xs)"
proof -
  have "length xs div n = Suc ((length xs - n) div n)"
    using assms by (simp add: le_div_geq)
  then show ?thesis
    by (simp add: chunks_exact_def upt_conv_Cons map_Suc_upt [symmetric] add.commute del: upt_Suc)
qed

lemma chunks_exact_short: "length xs < n \<Longrightarrow> chunks_exact n xs = []"
  by (simp add: chunks_exact_def)

lemma length_in_chunks_exact:
  assumes "c \<in> set (chunks_exact n xs)"
  shows "length c = n"
proof -
  obtain i where i: "i < length xs div n" and c: "c = take n (drop (n * i) xs)"
    using assms by (auto simp: chunks_exact_def)
  have "n * Suc i \<le> length xs"
    using i by (metis Suc_leI div_times_less_eq_dividend mult.commute mult_le_mono1 order_trans)
  then show ?thesis using c by simp
qed

lemma concat_chunks_exact:
  assumes "0 < n" and "n dvd length xs"
  shows "concat (chunks_exact n xs) = xs"
  using assms
proof (induction "length xs" arbitrary: xs rule: less_induct)
  case less
  show ?case
  proof (cases "xs = []")
    case False
    then have le: "n \<le> length xs" using less.prems by (simp add: dvd_imp_le)
    then have "concat (chunks_exact n (drop n xs)) = drop n xs"
      using less by simp
    then show ?thesis by (simp add: chunks_exact_step [OF le less.prems(1)])
  qed (simp add: chunks_exact_def)
qed

lemma chunks_exact_concat:
  "(\<And>c. c \<in> set cs \<Longrightarrow> length c = n) \<Longrightarrow> 0 < n \<Longrightarrow> chunks_exact n (concat cs) = cs"
proof (induction cs)
  case (Cons c cs)
  then have "chunks_exact n (c @ concat cs) = c # chunks_exact n (concat cs)"
    by (subst chunks_exact_step) simp_all
  then show ?case using Cons by simp
qed (simp add: chunks_exact_def)

section \<open>Bytes of a word\<close>

definition byte_at :: "nat \<Rightarrow> 'w::len word \<Rightarrow> u8" where
  "byte_at k x = ucast (drop_bit (8 * k) x)"

named_theorems byte_simps \<open>bytes of the results of word operations\<close>

lemma bit_byte_at_iff: "bit (byte_at k x) i \<longleftrightarrow> i < 8 \<and> bit x (8 * k + i)"
  by (simp add: byte_at_def bit_ucast_iff bit_drop_bit_eq)

lemma byte_at_bits [byte_simps]:
  "byte_at k (x XOR y) = byte_at k x XOR byte_at k y"
  "byte_at k (x AND y) = byte_at k x AND byte_at k y"
  "byte_at k (x OR y) = byte_at k x OR byte_at k y"
  by (auto intro!: bit_word_eqI simp: bit_byte_at_iff bit_xor_iff bit_and_iff bit_or_iff)

lemma byte_at_drop_bit [byte_simps]: "byte_at k (drop_bit (8 * j) x) = byte_at (k + j) x"
  by (auto intro!: bit_word_eqI simp: bit_byte_at_iff bit_drop_bit_eq algebra_simps)

lemma byte_at_push_bit [byte_simps]:
  "byte_at k (push_bit (8 * j) (x :: 'w::len word)) =
    (if j \<le> k \<and> 8 * k < LENGTH('w) then
       (if 8 * k + 8 \<le> LENGTH('w) then byte_at (k - j) x
        else take_bit (LENGTH('w) - 8 * k) (byte_at (k - j) x))
     else 0)"
  by (auto intro!: bit_word_eqI simp: bit_byte_at_iff bit_push_bit_iff bit_take_bit_iff
      diff_mult_distrib2)

lemma byte_at_ge [byte_simps]: "LENGTH('w) \<le> 8 * k \<Longrightarrow> byte_at k (x :: 'w::len word) = 0"
  by (rule bit_word_eqI) (auto simp: bit_byte_at_iff dest: bit_imp_le_length)

lemma to_le_bytes_byte_at: "to_le_bytes (w :: 'w::len word) = map (\<lambda>i. byte_at i w) [0..<LENGTH('w) div 8]"
  by (simp add: to_le_bytes_def byte_at_def)

lemma nth_to_le_bytes:
  "i < LENGTH('w) div 8 \<Longrightarrow> to_le_bytes (w :: 'w::len word) ! i = byte_at i w"
  by (simp add: to_le_bytes_byte_at)

lemma to_from_le_bytes:
  assumes "8 * length bs = LENGTH('w)"
  shows "to_le_bytes (from_le_bytes bs :: 'w::len word) = bs"
proof -
  have "wval bs < 2 ^ LENGTH('w)"
    using wval_lt [of bs] assms by simp
  then have "unat (from_le_bytes bs :: 'w word) = wval bs"
    by (simp add: from_le_bytes_def unat_of_nat)
  then show ?thesis
    by (simp add: to_le_bytes_wdigits assms [symmetric])
qed

lemma byte_at_from_le_bytes:
  assumes "8 * length bs = LENGTH('w)" and "i < length bs"
  shows "byte_at i (from_le_bytes bs :: 'w::len word) = bs ! i"
proof -
  have "LENGTH('w) div 8 = length bs"
    by (simp add: assms(1) [symmetric])
  then show ?thesis
    using nth_to_le_bytes [of i "from_le_bytes bs :: 'w word"] assms(2)
    by (simp only: to_from_le_bytes [OF assms(1)])
qed

lemma word_eq_bytes:
  assumes "8 dvd LENGTH('w)" and "\<And>k. 8 * k < LENGTH('w) \<Longrightarrow> byte_at k x = byte_at k y"
  shows "x = (y :: 'w::len word)"
proof -
  have "to_le_bytes x = to_le_bytes y"
    using assms by (auto simp: to_le_bytes_byte_at)
  then show ?thesis
    using assms(1) by (metis from_to_le_bytes)
qed

section \<open>XOR of byte strings\<close>

lemmas xor_ac = xor.assoc xor.commute xor.left_commute

abbreviation xor_bytes :: "bytes \<Rightarrow> bytes \<Rightarrow> bytes" where
  "xor_bytes \<equiv> map2 (XOR)"

lemma xor_bytes_cancel [simp]:
  "length xs \<le> length ys \<Longrightarrow> xor_bytes (xor_bytes xs ys) ys = xs"
  by (induction xs ys rule: list_induct2') (simp_all add: xor.assoc)

end
