(* ===== verification/Aes.thy ===== *)
theory Aes
  imports AesSbox Blocks
begin

unbundle bit_operations_syntax

text \<open>
  Module \<open>cipher/aes/mod.rs\<close>, the software backend: the round functions on a block held as one
  little-endian \<open>u128\<close>, the key expansion, the block cipher on one and two blocks at a time, and the
  batch routine.  The second half states the cipher of FIPS 197 on 16-byte states and shows that
  the code computes it.
\<close>

section \<open>The round functions\<close>

definition ROW0 :: u128 where "ROW0 = 0x000000ff000000ff000000ff000000ff"

definition LSB :: u128 where "LSB = 0x01010101010101010101010101010101"

definition EVERY_COLUMN :: u128 where "EVERY_COLUMN = 0x00000001000000010000000100000001"

text \<open>
  The slice of the key schedule is in range wherever the cipher calls this: the schedule of an
  \<open>nr\<close>-round key has \<open>16 (nr + 1)\<close> bytes and \<open>i\<close> is at most \<open>nr\<close>.
\<close>

definition round_key :: "bytes \<Rightarrow> nat \<Rightarrow> u128" where
  "round_key rk i = from_le_bytes (take 16 (drop (16 * i) rk))"

text \<open>The S-box on one or two blocks; the unused half of the four words stays zero.\<close>

definition sub_layer :: "u128 list \<Rightarrow> bool \<Rightarrow> u128 list" where
  "sub_layer s invert =
    (let w = concat (map (\<lambda>x. [ucast x, ucast (drop_bit 64 x)]) (take 2 s));
         w = sub_words (w @ replicate (4 - length w) 0) invert
     in map2 (\<lambda>i x. ucast (w ! (2 * i)) OR push_bit 64 (ucast (w ! (2 * i + 1))))
          [0..<2] s @ drop 2 s)"

definition shift_rows :: "u128 \<Rightarrow> u128" where
  "shift_rows s =
    ((s AND ROW0) OR (word_rotr 32 s AND push_bit 8 ROW0) OR (word_rotr 64 s AND push_bit 16 ROW0)
     OR (word_rotr 96 s AND push_bit 24 ROW0))"

definition inv_shift_rows :: "u128 \<Rightarrow> u128" where
  "inv_shift_rows s =
    ((s AND ROW0) OR (word_rotl 32 s AND push_bit 8 ROW0) OR (word_rotl 64 s AND push_bit 16 ROW0)
     OR (word_rotl 96 s AND push_bit 24 ROW0))"

definition xtime :: "u128 \<Rightarrow> u128" where
  "xtime x =
    (let hi = drop_bit 7 x AND LSB
     in push_bit 1 (x AND (LSB * 0x7f)) XOR hi XOR push_bit 1 hi XOR push_bit 3 hi
        XOR push_bit 4 hi)"

definition rot_columns :: "nat \<Rightarrow> u128 \<Rightarrow> u128" where
  "rot_columns K s =
    (let low = ucast (drop_bit (8 * K) (- 1 :: u32)) * EVERY_COLUMN
     in (drop_bit (8 * K) s AND low) OR (push_bit (32 - 8 * K) s AND NOT low))"

definition mix_columns :: "u128 \<Rightarrow> u128" where
  "mix_columns s =
    (let r1 = rot_columns 1 s; t = s XOR r1 in xtime t XOR r1 XOR rot_columns 2 t)"

definition inv_mix_columns :: "u128 \<Rightarrow> u128" where
  "inv_mix_columns s = mix_columns (s XOR xtime (xtime (s XOR rot_columns 2 s)))"

section \<open>The key schedule\<close>

definition sub_word :: "bytes \<Rightarrow> bytes" where
  "sub_word w =
    (let s = sub_layer [ucast (from_le_bytes w :: u32)] False in to_le_bytes (ucast (s ! 0) :: u32))"

text \<open>One iteration of the expansion loop, on the word array and the round constant.\<close>

definition key_step :: "nat \<Rightarrow> nat \<Rightarrow> u32 list \<times> u8 \<Rightarrow> u32 list \<times> u8" where
  "key_step nk i = (\<lambda>(w, rcon).
     let t = w ! (i - 1);
         (t, rcon) =
           (if i mod nk = 0 then
              (from_le_bytes (sub_word (to_le_bytes (word_rotr 8 t))) XOR ucast rcon,
               push_bit 1 rcon XOR (if rcon AND 0x80 \<noteq> 0 then 0x1b else 0))
            else if nk > 6 \<and> i mod nk = 4 then (from_le_bytes (sub_word (to_le_bytes t)), rcon)
            else (t, rcon))
     in (w[i := w ! (i - nk) XOR t], rcon))"

definition key_expansion :: "bytes \<Rightarrow> nat \<Rightarrow> nat \<Rightarrow> bytes" where
  "key_expansion key nk nr =
    (let total_words = 4 * (nr + 1);
         w = map from_le_bytes (chunks_exact 4 key);
         w = w @ replicate (60 - length w) 0;
         (w, _) = fold (key_step nk) [nk..<total_words] (w, 1)
     in concat (map to_le_bytes (take total_words w)))"

section \<open>The block cipher\<close>

definition encrypt_n :: "bytes \<Rightarrow> nat \<Rightarrow> u128 list \<Rightarrow> u128 list" where
  "encrypt_n rk nr s =
    (let s = map (\<lambda>x. x XOR round_key rk 0) s;
         s = fold (\<lambda>round s.
               map (\<lambda>x. mix_columns (shift_rows x) XOR round_key rk round) (sub_layer s False))
             [1..<nr] s;
         s = sub_layer s False
     in map (\<lambda>x. shift_rows x XOR round_key rk nr) s)"

definition decrypt_n :: "bytes \<Rightarrow> nat \<Rightarrow> u128 list \<Rightarrow> u128 list" where
  "decrypt_n rk nr s =
    (let s = map (\<lambda>x. x XOR round_key rk nr) s;
         s = fold (\<lambda>round s.
               map (\<lambda>x. inv_mix_columns (inv_shift_rows x XOR round_key rk round)) (sub_layer s True))
             (rev [1..<nr]) s;
         s = sub_layer s True
     in map (\<lambda>x. inv_shift_rows x XOR round_key rk 0) s)"

definition encrypt :: "bytes \<Rightarrow> nat \<Rightarrow> bytes \<Rightarrow> bytes" where
  "encrypt rk nr block = to_le_bytes (encrypt_n rk nr [from_le_bytes block] ! 0)"

definition decrypt :: "bytes \<Rightarrow> nat \<Rightarrow> bytes \<Rightarrow> bytes" where
  "decrypt rk nr block = to_le_bytes (decrypt_n rk nr [from_le_bytes block] ! 0)"

text \<open>
  The batch routine: pairs of blocks share one evaluation of the S-box, an odd last block goes
  alone, and a trailing partial block is left as it is.
\<close>

fun crypt_blocks_soft :: "bool \<Rightarrow> bytes \<Rightarrow> nat \<Rightarrow> bytes \<Rightarrow> bytes" where
  "crypt_blocks_soft INV rk nr blocks =
    (if 32 \<le> length blocks then
       let s = [from_le_bytes (take 16 blocks), from_le_bytes (take 16 (drop 16 blocks))];
           s = (if INV then decrypt_n rk nr s else encrypt_n rk nr s)
       in to_le_bytes (s ! 0) @ to_le_bytes (s ! 1) @ crypt_blocks_soft INV rk nr (drop 32 blocks)
     else if 16 \<le> length blocks then
       (if INV then decrypt rk nr (take 16 blocks) else encrypt rk nr (take 16 blocks))
       @ drop 16 blocks
     else blocks)"

declare crypt_blocks_soft.simps [simp del]

definition aes_round_soft :: "bytes \<Rightarrow> bytes \<Rightarrow> bytes" where
  "aes_round_soft state rkey =
    (let s = sub_layer [from_le_bytes state] False
     in to_le_bytes (mix_columns (shift_rows (s ! 0)) XOR (from_le_bytes rkey :: u128)))"

section \<open>The round functions on bytes\<close>

lemma byte_at_rotr [byte_simps]:
  assumes "j < 16" and "k < 16"
  shows "byte_at k (word_rotr (8 * j) (s :: u128)) = byte_at ((k + j) mod 16) s"
proof (rule bit_word_eqI)
  fix i assume "i < LENGTH(8)"
  then have i: "i < 8" by simp
  have "(8 * k + i + 8 * j) mod 128 = 8 * ((k + j) mod 16) + i"
    using i assms by (cases "k + j < 16") (auto simp: mod_if)
  then show "bit (byte_at k (word_rotr (8 * j) s)) i = bit (byte_at ((k + j) mod 16) s) i"
    using i assms by (simp add: bit_byte_at_iff bit_word_rotr_iff)
qed

lemma byte_at_rotl [byte_simps]:
  assumes "j < 16" and "k < 16"
  shows "byte_at k (word_rotl (8 * j) (s :: u128)) = byte_at ((k + (16 - j)) mod 16) s"
proof -
  have "word_rotr 128 s = word_rotr 0 s"
    by (rule bit_word_eqI) (simp add: bit_word_rotr_iff)
  then have "word_rotl (8 * j) s = word_rotr (8 * ((16 - j) mod 16)) s"
    using assms by (cases "j = 0") (simp_all add: word_rotl_eq_word_rotr diff_mult_distrib2)
  then show ?thesis
    using assms byte_at_rotr [of "(16 - j) mod 16" k s] by (simp add: mod_simps)
qed

lemma less_16_cases:
  "k < 16 \<Longrightarrow> k = 0 \<or> k = 1 \<or> k = 2 \<or> k = 3 \<or> k = 4 \<or> k = 5 \<or> k = 6 \<or> k = 7
    \<or> k = 8 \<or> k = 9 \<or> k = 10 \<or> k = 11 \<or> k = 12 \<or> k = 13 \<or> k = 14 \<or> k = (15 :: nat)"
  by presburger

lemma mod_4_cases: "k mod 4 = 0 \<or> k mod 4 = 1 \<or> k mod 4 = 2 \<or> k mod 4 = (3 :: nat)"
  by linarith

lemmas rot_bytes =
  byte_at_rotr [of 4, simplified] byte_at_rotr [of 8, simplified] byte_at_rotr [of 12, simplified]
  byte_at_rotl [of 4, simplified] byte_at_rotl [of 8, simplified] byte_at_rotl [of 12, simplified]

lemma and_byte [simp]: "x AND 0xff = (x :: u8)"
proof -
  have "(0xff :: u8) = - 1" by simp
  then show ?thesis by (simp only: and.right_neutral)
qed

lemma and_not_byte [simp]: "x AND (- 256) = (0 :: u8)"
proof -
  have "(- 256 :: u8) = 0" by simp
  then show ?thesis by (simp only: and_zero_eq)
qed

lemma byte_ROW0: "k < 16 \<Longrightarrow> byte_at k ROW0 = (if k mod 4 = 0 then 0xff else 0)"
  by (drule less_16_cases, elim disjE) (simp_all add: ROW0_def byte_at_def)

lemma byte_row:
  assumes "k < 16" and "j < 4"
  shows "byte_at k (push_bit (8 * j) ROW0) = (if k mod 4 = j then 0xff else 0)"
proof -
  have "k mod 4 = j" if "j \<le> k" and "(k - j) mod 4 = 0"
  proof -
    obtain q where "k = 4 * q + j" using \<open>(k - j) mod 4 = 0\<close> \<open>j \<le> k\<close>
      by (metis dvd_def le_add_diff_inverse2 mod_0_imp_dvd)
    then show ?thesis using assms(2) by simp
  qed
  then have "j \<le> k \<and> (k - j) mod 4 = 0 \<longleftrightarrow> k mod 4 = j"
    by (auto simp: minus_mod_eq_mult_div)
  moreover have "byte_at k (push_bit (8 * j) ROW0) = (if j \<le> k then byte_at (k - j) ROW0 else 0)"
    using assms(1) by (simp add: byte_at_push_bit)
  moreover have "byte_at (k - j) ROW0 = (if (k - j) mod 4 = 0 then 0xff else 0)"
    using assms(1) by (intro byte_ROW0) simp
  ultimately show ?thesis by metis
qed

lemma row_bytes:
  assumes "k < 16"
  shows "byte_at k (push_bit 8 ROW0) = (if k mod 4 = 1 then 0xff else 0)"
    and "byte_at k (push_bit 16 ROW0) = (if k mod 4 = 2 then 0xff else 0)"
    and "byte_at k (push_bit 24 ROW0) = (if k mod 4 = 3 then 0xff else 0)"
  using byte_row [OF assms, of 1] byte_row [OF assms, of 2] byte_row [OF assms, of 3] by simp_all

lemma byte_shift_rows:
  assumes "k < 16"
  shows "byte_at k (shift_rows s) = byte_at ((k + 4 * (k mod 4)) mod 16) s"
  using mod_4_cases [of k] assms
  by (elim disjE) (simp_all add: shift_rows_def byte_at_bits rot_bytes byte_ROW0 row_bytes)

lemma byte_inv_shift_rows:
  assumes "k < 16"
  shows "byte_at k (inv_shift_rows s) = byte_at ((k + (16 - 4 * (k mod 4))) mod 16) s"
  using mod_4_cases [of k] assms
  by (elim disjE) (simp_all add: inv_shift_rows_def byte_at_bits rot_bytes byte_ROW0 row_bytes)

lemma byte_LSB: "k < 16 \<Longrightarrow> byte_at k LSB = 1"
  by (drule less_16_cases, elim disjE) (simp_all add: LSB_def byte_at_def)

lemma byte_LSB_7f: "k < 16 \<Longrightarrow> byte_at k (LSB * 0x7f) = 0x7f"
  by (drule less_16_cases, elim disjE) (simp_all add: LSB_def byte_at_def)

lemma bit_of_byte: "bit x (8 * k + i) \<longleftrightarrow> bit (byte_at k x) i" if "i < 8"
  using that by (simp add: bit_byte_at_iff)

lemma bit_LSB:
  assumes "k < 16" and "i < 8"
  shows "bit LSB (8 * k + i) \<longleftrightarrow> i = 0"
  using assms by (simp add: bit_of_byte byte_LSB bit_1_iff)

lemma bit_LSB_7f:
  assumes "k < 16" and "i < 8"
  shows "bit (LSB * 0x7f) (8 * k + i) \<longleftrightarrow> i < 7"
  using assms less_8_cases [of i] by (simp add: bit_of_byte byte_LSB_7f) auto

text \<open>A shift inside the bytes: position \<open>8 k + i - j\<close> is in this byte or high in the one below.\<close>

lemma bit_push_byte:
  assumes "k < 16" and "i < 8" and "j < 8" and "\<And>k i. k < 16 \<Longrightarrow> i < 8 \<Longrightarrow> 8 - j \<le> i \<Longrightarrow> \<not> bit (y :: u128) (8 * k + i)"
  shows "bit (push_bit j y) (8 * k + i) \<longleftrightarrow> j \<le> i \<and> bit y (8 * k + (i - j))"
proof (cases "j \<le> i")
  case False
  have "\<not> bit y (8 * k + i - j)" if "j \<le> 8 * k + i"
  proof -
    have "0 < k" using that False by (cases k) auto
    then have "8 * k + i - j = 8 * (k - 1) + (8 + i - j)"
      using assms(2,3) False by (simp add: algebra_simps)
    then show ?thesis
      using assms(4) [of "k - 1" "8 + i - j"] assms(1,2,3) False by simp
  qed
  then show ?thesis using False by (auto simp: bit_push_bit_iff)
qed (use assms(1,2) in \<open>simp add: bit_push_bit_iff\<close>)

lemma bit_xt:
  assumes "i < 8"
  shows "bit (xt a) i \<longleftrightarrow> (1 \<le> i \<and> bit a (i - 1)) \<noteq> (i \<in> {0, 1, 3, 4} \<and> bit a 7)"
  using less_8_cases [OF assms]
  by (simp only: xt_def bit_xor_iff bit_push_bit_iff) (elim disjE; simp)

lemma byte_xtime:
  assumes k: "k < 16"
  shows "byte_at k (xtime x) = xt (byte_at k x)"
proof (rule bit_word_eqI)
  fix i assume "i < LENGTH(8)"
  then have i: "i < 8" by simp
  let ?hi = "drop_bit 7 x AND LSB"
  have top: "bit ?hi (8 * m + l) \<longleftrightarrow> l = 0 \<and> bit x (8 * m + 7)" if "m < 16" and "l < 8" for m l
    using that by (auto simp: bit_and_iff bit_LSB bit_drop_bit_eq add.commute [of 7])
  have hi: "bit (push_bit j ?hi) (8 * k + i) \<longleftrightarrow> i = j \<and> bit x (8 * k + 7)" if "j < 8" for j
    using k i that top by (subst bit_push_byte) auto
  have "bit (push_bit 1 (x AND (LSB * 0x7f))) (8 * k + i) \<longleftrightarrow> 1 \<le> i \<and> bit x (8 * k + (i - 1))"
    using k i by (subst bit_push_byte) (auto simp: bit_and_iff bit_LSB_7f)
  then have "bit (byte_at k (xtime x)) i \<longleftrightarrow>
      (1 \<le> i \<and> bit x (8 * k + (i - 1))) \<noteq> (i \<in> {0, 1, 3, 4} \<and> bit x (8 * k + 7))"
    using i hi [of 0] hi [of 1] hi [of 3] hi [of 4]
    by (simp add: bit_byte_at_iff xtime_def Let_def bit_xor_iff del: One_nat_def) auto
  also have "\<dots> \<longleftrightarrow> bit (xt (byte_at k x)) i"
    using i by (auto simp: bit_xt bit_byte_at_iff)
  finally show "bit (byte_at k (xtime x)) i = bit (xt (byte_at k x)) i" .
qed

lemma rot_columns_mask:
  "ucast (drop_bit 8 (- 1 :: u32)) * EVERY_COLUMN = 0x00ffffff00ffffff00ffffff00ffffff"
  "ucast (drop_bit 16 (- 1 :: u32)) * EVERY_COLUMN = 0x0000ffff0000ffff0000ffff0000ffff"
proof -
  have "drop_bit 8 (- 1 :: u32) = 0xffffff" "drop_bit 16 (- 1 :: u32) = 0xffff"
    by (simp_all add: mask_eq_exp_minus_1)
  then show
    "ucast (drop_bit 8 (- 1 :: u32)) * EVERY_COLUMN = 0x00ffffff00ffffff00ffffff00ffffff"
    "ucast (drop_bit 16 (- 1 :: u32)) * EVERY_COLUMN = 0x0000ffff0000ffff0000ffff0000ffff"
    by (simp_all only: EVERY_COLUMN_def) simp_all
qed

lemma byte_masks:
  assumes "k < 16"
  shows "byte_at k (0x00ffffff00ffffff00ffffff00ffffff :: u128) = (if k mod 4 = 3 then 0 else 0xff)"
    and "byte_at k (0x0000ffff0000ffff0000ffff0000ffff :: u128) = (if k mod 4 < 2 then 0xff else 0)"
  using less_16_cases [OF assms] by (auto simp: byte_at_def)

lemma byte_at_not: "k < 16 \<Longrightarrow> byte_at k (NOT x) = NOT (byte_at k (x :: u128))"
  by (auto intro!: bit_word_eqI simp: bit_byte_at_iff bit_not_iff)

text \<open>Byte \<open>j\<close> places further down in the column of byte \<open>k\<close>.\<close>

definition col :: "nat \<Rightarrow> nat \<Rightarrow> nat" where
  "col k j = 4 * (k div 4) + (k + j) mod 4"

lemma col_less: "k < 16 \<Longrightarrow> col k j < 16"
proof -
  assume "k < 16"
  then have "k div 4 \<le> 3" by simp
  moreover have "(k + j) mod 4 < 4" by simp
  ultimately show ?thesis unfolding col_def by linarith
qed

lemma col_col: "col (col k i) j = col k (i + j)"
  by (simp add: col_def mod_simps add.assoc)

lemma col_0: "col k 0 = k"
  by (simp add: col_def)

lemma quad_cases: "\<exists>q. k = 4 * q \<or> k = 4 * q + 1 \<or> k = 4 * q + 2 \<or> k = 4 * q + (3 :: nat)"
  using mod_4_cases [of k] by (metis add_0_right mult_div_mod_eq)

lemma quad_Suc:
  "Suc (4 * q) div 4 = q" "Suc (Suc (4 * q)) div 4 = q" "Suc (4 * q) mod 4 = 1"
  "Suc (Suc (4 * q)) mod 4 = 2"
  by presburger+

lemma col_1: "col k 1 = (if k mod 4 = 3 then k - 3 else k + 1)"
  using quad_cases [of k] by (auto simp: col_def quad_Suc)

lemma col_2: "col k 2 = (if k mod 4 < 2 then k + 2 else k - 2)"
  using quad_cases [of k] by (auto simp: col_def quad_Suc)

lemma rot_columns_eq:
  "rot_columns 1 s = (drop_bit (8 * 1) s AND 0x00ffffff00ffffff00ffffff00ffffff)
    OR (push_bit (8 * 3) s AND NOT 0x00ffffff00ffffff00ffffff00ffffff)"
  "rot_columns 2 s = (drop_bit (8 * 2) s AND 0x0000ffff0000ffff0000ffff0000ffff)
    OR (push_bit (8 * 2) s AND NOT 0x0000ffff0000ffff0000ffff0000ffff)"
proof -
  have n: "8 * (1::nat) = 8" "8 * (2::nat) = 16" "8 * (3::nat) = 24" "32 - (8::nat) = 24"
    "32 - (16::nat) = 16"
    by simp_all
  show "rot_columns 1 s = (drop_bit (8 * 1) s AND 0x00ffffff00ffffff00ffffff00ffffff)
      OR (push_bit (8 * 3) s AND NOT 0x00ffffff00ffffff00ffffff00ffffff)"
    "rot_columns 2 s = (drop_bit (8 * 2) s AND 0x0000ffff0000ffff0000ffff0000ffff)
      OR (push_bit (8 * 2) s AND NOT 0x0000ffff0000ffff0000ffff0000ffff)"
    by (simp_all only: rot_columns_def Let_def n rot_columns_mask)
qed

lemma byte_rot_columns:
  assumes k: "k < 16"
  shows "byte_at k (rot_columns 1 s) = byte_at (col k 1) s"
    and "byte_at k (rot_columns 2 s) = byte_at (col k 2) s"
proof -
  have "k mod 4 = 3 \<Longrightarrow> 3 \<le> k" and "\<not> k mod 4 < 2 \<Longrightarrow> 2 \<le> k"
    using mod_less_eq_dividend [of k 4] by linarith+
  then show "byte_at k (rot_columns 1 s) = byte_at (col k 1) s"
    "byte_at k (rot_columns 2 s) = byte_at (col k 2) s"
    using k
    by (auto simp only: rot_columns_eq byte_at_bits byte_at_not [OF k] byte_masks [OF k] col_1 col_2
        byte_at_drop_bit byte_at_push_bit split: if_splits) auto
qed

lemma gf_mul_2: "gf_mul 2 a = xt a"
proof -
  have "gf_mul (3 XOR 1) a = gf_mul 3 a XOR gf_mul 1 a"
    by (rule gf_mul_xor)
  then show ?thesis by (simp add: gf_mul_3 xor.assoc)
qed

lemma byte_mix_columns:
  assumes "k < 16"
  shows "byte_at k (mix_columns s) =
    gf_mul 2 (byte_at k s) XOR gf_mul 3 (byte_at (col k 1) s) XOR byte_at (col k 2) s
    XOR byte_at (col k 3) s"
proof -
  have "byte_at k (mix_columns s) =
      xt (byte_at k s XOR byte_at (col k 1) s) XOR byte_at (col k 1) s
      XOR (byte_at (col k 2) s XOR byte_at (col (col k 2) 1) s)"
    unfolding mix_columns_def Let_def
    by (simp only: byte_at_bits byte_xtime byte_rot_columns assms col_less)
  moreover have "2 + 1 = (3::nat)" by simp
  ultimately show ?thesis
    by (simp only: gf_mul_2 gf_mul_3 xt_xor col_col xor_ac)
qed

lemma byte_halves:
  "k < 8 \<Longrightarrow> byte_at k (ucast (x :: u128) :: u64) = byte_at k x"
  "byte_at k (drop_bit 64 (x :: u128)) = byte_at (k + 8) x"
  by (auto intro!: bit_word_eqI simp: bit_byte_at_iff bit_ucast_iff bit_drop_bit_eq algebra_simps)

lemma byte_join:
  assumes "k < 16"
  shows "byte_at k (ucast (a :: u64) OR push_bit 64 (ucast (b :: u64)) :: u128) =
    (if k < 8 then byte_at k a else byte_at (k - 8) b)"
proof (rule bit_word_eqI)
  fix n
  show "bit (byte_at k (ucast a OR push_bit 64 (ucast b) :: u128)) n =
      bit (if k < 8 then byte_at k a else byte_at (k - 8) b) n"
    using assms bit_imp_le_length [of a "8 * k + n"]
    by (auto simp: bit_byte_at_iff bit_ucast_iff bit_or_iff bit_push_bit_iff diff_mult_distrib2)
qed

lemma byte_sub_words:
  assumes "k < 8" and "w < length words" and "length words \<le> 4"
  shows "byte_at k (sub_words words invert ! w) =
    (if invert then inv_sub_byte else sub_byte) (byte_at k (words ! w))"
  using sub_words_byte [OF assms] by (simp add: byte_at_def)

lemma length_sub_layer [simp]: "length (sub_layer s invert) = length s"
  by (simp add: sub_layer_def Let_def)

text \<open>The S-box layer acts on every byte of every block alike.\<close>

lemma byte_sub_layer_1:
  assumes "k < 16"
  shows "byte_at k (sub_layer [x] invert ! 0) =
    (if invert then inv_sub_byte else sub_byte) (byte_at k x)"
  using assms
  by (auto simp: sub_layer_def Let_def byte_join byte_sub_words byte_halves upt_rec numeral_2_eq_2)

lemma byte_sub_layer_2:
  assumes "k < 16"
  shows "byte_at k (sub_layer [x, y] invert ! 0) =
      (if invert then inv_sub_byte else sub_byte) (byte_at k x)"
    and "byte_at k (sub_layer [x, y] invert ! 1) =
      (if invert then inv_sub_byte else sub_byte) (byte_at k y)"
  using assms
  by (auto simp: sub_layer_def Let_def byte_join byte_sub_words byte_halves upt_rec numeral_2_eq_2)

lemma sub_layer_map:
  assumes "length s \<le> 2"
  shows "sub_layer s invert = map (\<lambda>x. sub_layer [x] invert ! 0) s"
proof -
  have eq: "sub_layer [x, y] invert ! 0 = sub_layer [x] invert ! 0" for x y
    by (rule word_eq_bytes) (simp_all add: byte_sub_layer_1 byte_sub_layer_2)
  have eq1: "sub_layer [x, y] invert ! 1 = sub_layer [y] invert ! 0" for x y
    by (rule word_eq_bytes) (simp_all add: byte_sub_layer_1 byte_sub_layer_2 [unfolded One_nat_def])
  consider "s = []" | x where "s = [x]" | x y where "s = [x, y]"
    using assms by (cases s; cases "tl s") auto
  then show ?thesis
  proof cases
    case 1
    then show ?thesis by (simp add: sub_layer_def)
  next
    case 2
    then show ?thesis by (intro nth_equalityI) simp_all
  next
    case 3
    show ?thesis
    proof (rule nth_equalityI)
      fix i assume "i < length (sub_layer s invert)"
      then have "i = 0 \<or> i = 1" using 3 by auto
      then show "sub_layer s invert ! i = map (\<lambda>x. sub_layer [x] invert ! 0) s ! i"
        using eq eq1 by (elim disjE) (simp_all only: 3 nth_map nth_Cons_0 list.size, simp_all)
    qed simp
  qed
qed

section \<open>FIPS 197\<close>

text \<open>
  The cipher of the standard, on a state of 16 bytes in column order: byte \<open>4 c + r\<close> is row \<open>r\<close> of
  column \<open>c\<close>.
\<close>

definition SubBytes :: "bytes \<Rightarrow> bytes" where
  "SubBytes s = map sub_byte s"

definition ShiftRows :: "bytes \<Rightarrow> bytes" where
  "ShiftRows s = map (\<lambda>k. s ! ((k + 4 * (k mod 4)) mod 16)) [0..<16]"

definition MixColumns :: "bytes \<Rightarrow> bytes" where
  "MixColumns s = map (\<lambda>k. gf_mul 2 (s ! k) XOR gf_mul 3 (s ! col k 1) XOR s ! col k 2 XOR s ! col k 3)
     [0..<16]"

definition AddRoundKey :: "bytes \<Rightarrow> nat \<Rightarrow> bytes \<Rightarrow> bytes" where
  "AddRoundKey w round s = xor_bytes s (take 16 (drop (16 * round) w))"

definition Cipher :: "bytes \<Rightarrow> nat \<Rightarrow> bytes \<Rightarrow> bytes" where
  "Cipher w nr s =
    (let s = AddRoundKey w 0 s;
         s = fold (\<lambda>round s. AddRoundKey w round (MixColumns (ShiftRows (SubBytes s)))) [1..<nr] s
     in AddRoundKey w nr (ShiftRows (SubBytes s)))"

definition InvSubBytes :: "bytes \<Rightarrow> bytes" where
  "InvSubBytes s = map inv_sub_byte s"

definition InvShiftRows :: "bytes \<Rightarrow> bytes" where
  "InvShiftRows s = map (\<lambda>k. s ! ((k + (16 - 4 * (k mod 4))) mod 16)) [0..<16]"

definition InvMixColumns :: "bytes \<Rightarrow> bytes" where
  "InvMixColumns s =
    map (\<lambda>k. gf_mul 0xe (s ! k) XOR gf_mul 0xb (s ! col k 1) XOR gf_mul 0xd (s ! col k 2)
             XOR gf_mul 0x9 (s ! col k 3)) [0..<16]"

definition InvCipher :: "bytes \<Rightarrow> nat \<Rightarrow> bytes \<Rightarrow> bytes" where
  "InvCipher w nr s =
    (let s = AddRoundKey w nr s;
         s = fold (\<lambda>round s. InvMixColumns (AddRoundKey w round (InvSubBytes (InvShiftRows s))))
               (rev [1..<nr]) s
     in AddRoundKey w 0 (InvSubBytes (InvShiftRows s)))"

lemma sub_layer_spec:
  "to_le_bytes (sub_layer [x] invert ! 0) =
    (if invert then InvSubBytes else SubBytes) (to_le_bytes x)"
  by (simp add: to_le_bytes_byte_at byte_sub_layer_1 SubBytes_def InvSubBytes_def)

lemma mod_16_less: "n mod 16 < (16::nat)"
  by simp

lemma shift_rows_spec: "to_le_bytes (shift_rows x) = ShiftRows (to_le_bytes x)"
  "to_le_bytes (inv_shift_rows x) = InvShiftRows (to_le_bytes x)"
  by (simp_all add: to_le_bytes_byte_at byte_shift_rows byte_inv_shift_rows ShiftRows_def
      InvShiftRows_def nth_to_le_bytes)

lemma mix_columns_spec: "to_le_bytes (mix_columns x) = MixColumns (to_le_bytes x)"
  by (simp add: to_le_bytes_byte_at byte_mix_columns MixColumns_def col_less)

lemma gf_mul_consts:
  "gf_mul 0xe a = xt (xt (xt a)) XOR xt (xt a) XOR xt a"
  "gf_mul 0xb a = xt (xt (xt a)) XOR xt a XOR a"
  "gf_mul 0xd a = xt (xt (xt a)) XOR xt (xt a) XOR a"
  "gf_mul 0x9 a = xt (xt (xt a)) XOR a"
  unfolding gf_mul_commute [of _ a] by (simp_all add: gf_mul_acc numeral_eq_Suc xor_ac)

lemma col_mod: "col k (j + 4) = col k j"
  by (simp add: col_def flip: add.assoc)

lemma col_wrap: "col k 4 = k" "col k 5 = col k 1" "col k 6 = col k 2"
  using col_mod [of k 0] col_mod [of k 1] col_mod [of k 2] by (simp_all add: col_0)

lemma inv_mix_columns_spec: "to_le_bytes (inv_mix_columns x) = InvMixColumns (to_le_bytes x)"
proof -
  have "byte_at k (inv_mix_columns x) =
      gf_mul 0xe (byte_at k x) XOR gf_mul 0xb (byte_at (col k 1) x) XOR gf_mul 0xd (byte_at (col k 2) x)
      XOR gf_mul 0x9 (byte_at (col k 3) x)" if "k < 16" for k
    using that
    by (simp add: inv_mix_columns_def byte_mix_columns byte_at_bits byte_xtime byte_rot_columns
        col_less col_col col_wrap gf_mul_consts gf_mul_2 gf_mul_3 xt_xor xor_ac del: One_nat_def)
  then show ?thesis
    by (simp add: to_le_bytes_byte_at InvMixColumns_def col_less)
qed

lemma to_le_bytes_xor:
  "to_le_bytes (x XOR y) = xor_bytes (to_le_bytes x) (to_le_bytes (y :: 'w::len word))"
  by (simp add: to_le_bytes_byte_at byte_at_bits map2_map_map)

lemma round_key_spec:
  assumes "16 * (i + 1) \<le> length rk"
  shows "to_le_bytes (x XOR round_key rk i) = AddRoundKey rk i (to_le_bytes x)"
  using assms by (simp add: to_le_bytes_xor round_key_def AddRoundKey_def to_from_le_bytes)

section \<open>The code computes the cipher of the standard\<close>

lemma sub_layer_map_map:
  "length s \<le> 2 \<Longrightarrow> sub_layer (map g s) invert = map (\<lambda>x. sub_layer [g x] invert ! 0) s"
  using sub_layer_map [of "map g s" invert] by simp

lemma fold_blocks:
  assumes "length s \<le> 2"
  shows "fold (\<lambda>r s. map (f r) (sub_layer s invert)) rs (map g s) =
    map (\<lambda>x. fold (\<lambda>r x. f r (sub_layer [x] invert ! 0)) rs (g x)) s"
proof (induction rs arbitrary: g)
  case (Cons r rs)
  have "map (f r) (sub_layer (map g s) invert) = map (\<lambda>x. f r (sub_layer [g x] invert ! 0)) s"
    using assms by (simp add: sub_layer_map_map)
  then show ?case using Cons.IH [of "\<lambda>x. f r (sub_layer [g x] invert ! 0)"] by simp
qed simp

definition encrypt_1 :: "bytes \<Rightarrow> nat \<Rightarrow> u128 \<Rightarrow> u128" where
  "encrypt_1 rk nr x =
     shift_rows (sub_layer [fold (\<lambda>r x. mix_columns (shift_rows (sub_layer [x] False ! 0))
         XOR round_key rk r) [1..<nr] (x XOR round_key rk 0)] False ! 0) XOR round_key rk nr"

definition decrypt_1 :: "bytes \<Rightarrow> nat \<Rightarrow> u128 \<Rightarrow> u128" where
  "decrypt_1 rk nr x =
     inv_shift_rows (sub_layer [fold (\<lambda>r x. inv_mix_columns (inv_shift_rows (sub_layer [x] True ! 0)
         XOR round_key rk r)) (rev [1..<nr]) (x XOR round_key rk nr)] True ! 0) XOR round_key rk 0"

lemma encrypt_n_map: "length s \<le> 2 \<Longrightarrow> encrypt_n rk nr s = map (encrypt_1 rk nr) s"
  by (simp add: encrypt_n_def Let_def fold_blocks sub_layer_map_map encrypt_1_def [abs_def])

lemma decrypt_n_map: "length s \<le> 2 \<Longrightarrow> decrypt_n rk nr s = map (decrypt_1 rk nr) s"
  by (simp add: decrypt_n_def Let_def fold_blocks sub_layer_map_map decrypt_1_def [abs_def])

lemma fold_abs:
  assumes "\<And>r x. r \<in> set rs \<Longrightarrow> h (f r x) = g r (h x)"
  shows "h (fold f rs x) = fold g rs (h x)"
  using assms by (induction rs arbitrary: x) simp_all

lemma encrypt_1_spec:
  assumes "length rk = 16 * (nr + 1)"
  shows "to_le_bytes (encrypt_1 rk nr x) = Cipher rk nr (to_le_bytes x)"
proof -
  have "to_le_bytes (fold (\<lambda>r x. mix_columns (shift_rows (sub_layer [x] False ! 0)) XOR round_key rk r)
        [1..<nr] x) =
      fold (\<lambda>r s. AddRoundKey rk r (MixColumns (ShiftRows (SubBytes s)))) [1..<nr] (to_le_bytes x)" for x
    using assms
    by (intro fold_abs) (simp add: round_key_spec mix_columns_spec shift_rows_spec sub_layer_spec)
  then show ?thesis
    using assms
    by (simp add: encrypt_1_def Cipher_def round_key_spec shift_rows_spec sub_layer_spec)
qed

lemma InvShiftRows_InvSubBytes:
  "length s = 16 \<Longrightarrow> InvShiftRows (InvSubBytes s) = InvSubBytes (InvShiftRows s)"
  by (simp add: InvShiftRows_def InvSubBytes_def)

lemma decrypt_1_spec:
  assumes "length rk = 16 * (nr + 1)"
  shows "to_le_bytes (decrypt_1 rk nr x) = InvCipher rk nr (to_le_bytes x)"
proof -
  have inner: "to_le_bytes (inv_shift_rows (sub_layer [x] True ! 0)) =
      InvSubBytes (InvShiftRows (to_le_bytes x))" for x
    by (simp add: shift_rows_spec sub_layer_spec InvShiftRows_InvSubBytes)
  have "to_le_bytes (fold (\<lambda>r x. inv_mix_columns (inv_shift_rows (sub_layer [x] True ! 0)
        XOR round_key rk r)) (rev [1..<nr]) x) =
      fold (\<lambda>r s. InvMixColumns (AddRoundKey rk r (InvSubBytes (InvShiftRows s)))) (rev [1..<nr])
        (to_le_bytes x)" for x
    using assms
    by (intro fold_abs) (simp add: round_key_spec inv_mix_columns_spec inner)
  then show ?thesis
    using assms by (simp add: decrypt_1_def InvCipher_def round_key_spec inner)
qed

lemma encrypt_spec:
  assumes "length rk = 16 * (nr + 1)" and "length block = 16"
  shows "encrypt rk nr block = Cipher rk nr block"
  using assms by (simp add: encrypt_def encrypt_n_map encrypt_1_spec to_from_le_bytes)

lemma decrypt_spec:
  assumes "length rk = 16 * (nr + 1)" and "length block = 16"
  shows "decrypt rk nr block = InvCipher rk nr block"
  using assms by (simp add: decrypt_def decrypt_n_map decrypt_1_spec to_from_le_bytes)

section \<open>Decryption inverts encryption\<close>

lemma InvSubBytes_SubBytes [simp]: "InvSubBytes (SubBytes s) = s"
  by (simp add: InvSubBytes_def SubBytes_def comp_def)

lemma InvShiftRows_ShiftRows [simp]:
  assumes "length s = 16"
  shows "InvShiftRows (ShiftRows s) = s"
proof (rule nth_equalityI)
  fix k assume "k < length (InvShiftRows (ShiftRows s))"
  then have "k < 16" by (simp add: InvShiftRows_def)
  then show "InvShiftRows (ShiftRows s) ! k = s ! k"
    using less_16_cases [of k] by (auto simp: InvShiftRows_def ShiftRows_def)
qed (use assms in \<open>simp add: InvShiftRows_def\<close>)

lemma InvMixColumns_MixColumns [simp]:
  assumes "length s = 16"
  shows "InvMixColumns (MixColumns s) = s"
proof (rule nth_equalityI)
  fix k assume "k < length (InvMixColumns (MixColumns s))"
  then have "k < 16" by (simp add: InvMixColumns_def)
  then show "InvMixColumns (MixColumns s) ! k = s ! k"
    by (simp add: InvMixColumns_def MixColumns_def col_less col_col col_wrap gf_mul_consts gf_mul_2
        gf_mul_3 xt_xor xor_ac del: One_nat_def)
qed (use assms in \<open>simp add: InvMixColumns_def\<close>)

lemma length_rounds [simp]:
  "length (SubBytes s) = length s" "length (ShiftRows s) = 16" "length (MixColumns s) = 16"
  "length (InvSubBytes s) = length s" "length (InvShiftRows s) = 16" "length (InvMixColumns s) = 16"
  by (simp_all add: SubBytes_def ShiftRows_def MixColumns_def InvSubBytes_def InvShiftRows_def
      InvMixColumns_def)

lemma length_AddRoundKey:
  "16 * (r + 1) \<le> length w \<Longrightarrow> length s = 16 \<Longrightarrow> length (AddRoundKey w r s) = 16"
  by (simp add: AddRoundKey_def)

lemma AddRoundKey_cancel:
  "16 * (r + 1) \<le> length w \<Longrightarrow> length s = 16 \<Longrightarrow> AddRoundKey w r (AddRoundKey w r s) = s"
  by (simp add: AddRoundKey_def)

lemma length_fold_rounds:
  assumes "\<And>r. r \<in> set rs \<Longrightarrow> 16 * (r + 1) \<le> length w" and "length s = 16"
  shows "length (fold (\<lambda>r s. AddRoundKey w r (MixColumns (ShiftRows (SubBytes s)))) rs s) = 16"
  using assms by (induction rs arbitrary: s) (simp_all add: length_AddRoundKey)

lemma unwind_rounds:
  assumes "\<And>r. r \<in> set rs \<Longrightarrow> 16 * (r + 1) \<le> length w" and "length s = 16"
  shows "fold (\<lambda>r s. InvMixColumns (AddRoundKey w r (InvSubBytes (InvShiftRows s)))) (rev rs)
      (ShiftRows (SubBytes (fold (\<lambda>r s. AddRoundKey w r (MixColumns (ShiftRows (SubBytes s)))) rs s)))
    = ShiftRows (SubBytes s)"
  using assms
proof (induction rs rule: rev_induct)
  case (snoc r rs)
  have len: "length (fold (\<lambda>r s. AddRoundKey w r (MixColumns (ShiftRows (SubBytes s)))) rs s) = 16"
    using snoc.prems by (intro length_fold_rounds) auto
  show ?case
    using snoc len by (simp add: length_AddRoundKey AddRoundKey_cancel)
qed simp

lemma InvCipher_Cipher:
  assumes "length w = 16 * (nr + 1)" and "length s = 16"
  shows "InvCipher w nr (Cipher w nr s) = s"
proof -
  have "length (fold (\<lambda>r s. AddRoundKey w r (MixColumns (ShiftRows (SubBytes s)))) [1..<nr]
      (AddRoundKey w 0 s)) = 16"
    using assms by (intro length_fold_rounds length_AddRoundKey) auto
  moreover have "fold (\<lambda>r s. InvMixColumns (AddRoundKey w r (InvSubBytes (InvShiftRows s))))
      (rev [1..<nr]) (ShiftRows (SubBytes (fold (\<lambda>r s. AddRoundKey w r
        (MixColumns (ShiftRows (SubBytes s)))) [1..<nr] (AddRoundKey w 0 s))))
    = ShiftRows (SubBytes (AddRoundKey w 0 s))"
    using assms by (intro unwind_rounds length_AddRoundKey) auto
  ultimately show ?thesis
    using assms
    by (simp add: InvCipher_def Cipher_def AddRoundKey_cancel length_AddRoundKey del: One_nat_def)
qed

lemma length_encrypt [simp]: "length (encrypt rk nr block) = 16" "length (decrypt rk nr block) = 16"
  by (simp_all add: encrypt_def decrypt_def)

lemma decrypt_encrypt:
  assumes "length rk = 16 * (nr + 1)" and "length block = 16"
  shows "decrypt rk nr (encrypt rk nr block) = block"
  using assms InvCipher_Cipher [OF assms] length_encrypt(1) [of rk nr block]
  by (simp add: decrypt_spec) (simp add: encrypt_spec)

lemma finite_left_inverse:
  assumes "finite A" and "\<And>x. x \<in> A \<Longrightarrow> f x \<in> A" and "\<And>x. x \<in> A \<Longrightarrow> g (f x) = x" and "y \<in> A"
  shows "f (g y) = y"
proof -
  have "inj_on f A" using assms(3) by (metis inj_onI)
  then have "f ` A = A" using assms(1,2) by (intro endo_inj_surj) auto
  then obtain x where "x \<in> A" "y = f x" using assms(4) by blast
  then show ?thesis using assms(3) by simp
qed

lemma encrypt_decrypt:
  assumes "length rk = 16 * (nr + 1)" and "length block = 16"
  shows "encrypt rk nr (decrypt rk nr block) = block"
proof (rule finite_left_inverse [where A = "{b. length b = 16}" and f = "encrypt rk nr" and g = "decrypt rk nr"])
  show "finite {b :: bytes. length b = 16}"
    using finite_lists_length_eq [of "UNIV :: u8 set" 16] by simp
qed (use assms decrypt_encrypt in auto)

section \<open>The batch routine\<close>

lemma drop_whole_blocks:
  assumes "m \<le> length xs" and "n dvd m" and "0 < n"
  shows "drop (n * (length (drop m xs) div n)) (drop m xs) = drop (n * (length xs div n)) xs"
proof -
  obtain q where m: "m = n * q" using assms(2) by auto
  have "length xs div n = (length xs - m) div n + q"
    using assms m by (metis add.commute div_mult_self2 less_not_refl2 ordered_cancel_comm_monoid_diff_class.diff_add)
  then show ?thesis by (simp add: m algebra_simps)
qed

lemma crypt_blocks_soft_spec:
  "crypt_blocks_soft INV rk nr blocks =
    concat (map (if INV then decrypt rk nr else encrypt rk nr) (chunks_exact 16 blocks))
    @ drop (16 * (length blocks div 16)) blocks"
proof (induction "length blocks" arbitrary: blocks rule: less_induct)
  case less
  let ?c = "if INV then decrypt rk nr else encrypt rk nr"
  show ?case
  proof (cases "32 \<le> length blocks")
    case True
    have "crypt_blocks_soft INV rk nr (drop 32 blocks) =
        concat (map ?c (chunks_exact 16 (drop 32 blocks))) @ drop (16 * (length blocks div 16)) blocks"
      using less [of "drop 32 blocks"] True drop_whole_blocks [of 32 blocks 16] by simp
    moreover have "chunks_exact 16 blocks =
        take 16 blocks # take 16 (drop 16 blocks) # chunks_exact 16 (drop 32 blocks)"
      using True by (simp add: chunks_exact_step)
    ultimately show ?thesis
      using True
      by (simp add: crypt_blocks_soft.simps [of INV rk nr blocks] Let_def encrypt_n_map decrypt_n_map
          encrypt_def decrypt_def)
  next
    case False
    show ?thesis
    proof (cases "16 \<le> length blocks")
      case True
      then have "length blocks div 16 = 1" using False by simp
      then show ?thesis
        using True False
        by (simp add: crypt_blocks_soft.simps [of INV rk nr blocks] chunks_exact_step
            chunks_exact_short)
    next
      case short: False
      then show ?thesis
        by (simp add: crypt_blocks_soft.simps [of INV rk nr blocks] chunks_exact_short)
    qed
  qed
qed

end
