(* ===== verification/AesCipher.thy ===== *)
theory AesCipher
  imports Aes
begin

unbundle bit_operations_syntax

text \<open>
  Module \<open>cipher/aes/mod.rs\<close>, the public types \<open>Aes128\<close>, \<open>Aes192\<close> and \<open>Aes256\<close> with the software
  backend: construction from a key, the block operations and their length checks.  The key
  schedule is compared with the KeyExpansion of FIPS 197.
\<close>

section \<open>The cipher types\<close>

record aes_key =
  rk :: bytes
  rounds :: nat

definition Aes128_new :: "bytes \<Rightarrow> aes_key" where
  "Aes128_new key = \<lparr>rk = key_expansion key 4 10, rounds = 10\<rparr>"

definition Aes192_new :: "bytes \<Rightarrow> aes_key" where
  "Aes192_new key = \<lparr>rk = key_expansion key 6 12, rounds = 12\<rparr>"

definition Aes256_new :: "bytes \<Rightarrow> aes_key" where
  "Aes256_new key = \<lparr>rk = key_expansion key 8 14, rounds = 14\<rparr>"

definition aes_encrypt_block :: "aes_key \<Rightarrow> bytes \<Rightarrow> bytes" where
  "aes_encrypt_block c block = encrypt (rk c) (rounds c) block"

definition aes_decrypt_block :: "aes_key \<Rightarrow> bytes \<Rightarrow> bytes" where
  "aes_decrypt_block c block = decrypt (rk c) (rounds c) block"

text \<open>The asserted length makes the batch routines panic on a partial block.\<close>

definition aes_encrypt_blocks :: "aes_key \<Rightarrow> bytes \<Rightarrow> bytes option" where
  "aes_encrypt_blocks c blocks =
    (if length blocks mod 16 \<noteq> 0 then None else Some (crypt_blocks_soft False (rk c) (rounds c) blocks))"

definition aes_decrypt_blocks :: "aes_key \<Rightarrow> bytes \<Rightarrow> bytes option" where
  "aes_decrypt_blocks c blocks =
    (if length blocks mod 16 \<noteq> 0 then None else Some (crypt_blocks_soft True (rk c) (rounds c) blocks))"

definition aes_wf :: "aes_key \<Rightarrow> bool" where
  "aes_wf c \<longleftrightarrow> length (rk c) = 16 * (rounds c + 1)"

section \<open>The key expansion of FIPS 197\<close>

text \<open>On words of four bytes.\<close>

primrec Rcon :: "nat \<Rightarrow> u8" where
  "Rcon 0 = 1"
| "Rcon (Suc n) = gf_mul 2 (Rcon n)"

definition KeyWord :: "nat \<Rightarrow> nat \<Rightarrow> bytes list \<Rightarrow> bytes list" where
  "KeyWord nk i w =
    (let temp = w ! (i - 1);
         temp =
           (if i mod nk = 0 then xor_bytes (map sub_byte (rotate1 temp)) [Rcon (i div nk - 1), 0, 0, 0]
            else if nk > 6 \<and> i mod nk = 4 then map sub_byte temp
            else temp)
     in w @ [xor_bytes (w ! (i - nk)) temp])"

definition KeyExpansion :: "bytes \<Rightarrow> nat \<Rightarrow> nat \<Rightarrow> bytes list" where
  "KeyExpansion key nk nr = fold (KeyWord nk) [nk..<4 * (nr + 1)] (chunks_exact 4 key)"

section \<open>The schedule of the code\<close>

lemma bytes_32: "to_le_bytes (t :: u32) = [byte_at 0 t, byte_at 1 t, byte_at 2 t, byte_at 3 t]"
proof -
  have "[0..<4] = [0, 1, 2, 3 :: nat]" by code_simp
  then show ?thesis by (simp add: to_le_bytes_byte_at)
qed

lemma byte_ucast: "k < 4 \<Longrightarrow> byte_at k (ucast (x :: u128) :: u32) = byte_at k x"
  "k < 4 \<Longrightarrow> byte_at k (ucast (y :: u32) :: u128) = byte_at k y"
  by (auto intro!: bit_word_eqI simp: bit_byte_at_iff bit_ucast_iff dest: bit_imp_le_length)

lemma sub_word_spec: "length w = 4 \<Longrightarrow> sub_word w = map sub_byte w"
  by (intro nth_equalityI)
    (simp_all add: sub_word_def nth_to_le_bytes byte_ucast byte_sub_layer_1 byte_at_from_le_bytes)

lemma rot_word_spec: "to_le_bytes (word_rotr 8 (t :: u32)) = rotate1 (to_le_bytes t)"
proof -
  have "byte_at k (word_rotr 8 t) = byte_at ((k + 1) mod 4) t" if "k < 4" for k
  proof (rule bit_word_eqI)
    fix i assume "i < LENGTH(8)"
    then have i: "i < 8" by simp
    have "(8 * k + i + 8) mod 32 = 8 * ((k + 1) mod 4) + i"
      using i that by (cases "k = 3") (auto simp: mod_if)
    then show "bit (byte_at k (word_rotr 8 t)) i = bit (byte_at ((k + 1) mod 4) t) i"
      using i that by (simp add: bit_byte_at_iff bit_word_rotr_iff)
  qed
  from this [of 0] this [of 1] this [of 2] this [of 3] show ?thesis
    by (simp add: bytes_32 del: One_nat_def)
qed

lemma rcon_bytes: "to_le_bytes (ucast r :: u32) = [r :: u8, 0, 0, 0]"
proof -
  have "byte_at 0 (ucast r :: u32) = r"
    by (rule bit_word_eqI) (simp add: bit_byte_at_iff bit_ucast_iff)
  moreover have "byte_at k (ucast r :: u32) = 0" if "1 \<le> k" for k
    by (rule bit_word_eqI) (use that in \<open>auto simp: bit_byte_at_iff bit_ucast_iff dest!: bit_imp_le_length\<close>)
  ultimately show ?thesis by (simp add: bytes_32)
qed

lemma rcon_step: "push_bit 1 r XOR (if r AND 0x80 \<noteq> 0 then 0x1b else 0) = gf_mul 2 (r :: u8)"
proof -
  have "r AND 0x80 \<noteq> 0 \<longleftrightarrow> bit r 7"
  proof -
    have "(0x80 :: u8) = push_bit 7 1" by simp
    then show ?thesis
      by (metis (no_types) and_exp_eq_0_iff_not_bit push_bit_of_1)
  qed
  then show ?thesis by (simp only: gf_mul_2 xt_def)
qed

text \<open>
  The loop invariant: before word \<open>i\<close>, the first \<open>i\<close> entries of the array are the words of the
  standard, and \<open>rcon\<close> is the constant of the next multiple of \<open>nk\<close>.
\<close>

definition key_inv :: "nat \<Rightarrow> nat \<Rightarrow> bytes list \<Rightarrow> u32 list \<times> u8 \<Rightarrow> bool" where
  "key_inv nk i ws = (\<lambda>(w, rcon).
     length w = 60 \<and> length ws = i \<and> ws = map to_le_bytes (take i w) \<and> rcon = Rcon ((i - 1) div nk))"

lemma key_inv_step:
  assumes inv: "key_inv nk i ws st" and nk: "1 < nk" "nk \<le> i" and i: "i < 60"
  shows "key_inv nk (Suc i) (KeyWord nk i ws) (key_step nk i st)"
proof -
  obtain w rcon where st: "st = (w, rcon)" by (cases st)
  have len: "length w = 60" and ws: "ws = map to_le_bytes (take i w)"
    and rcon: "rcon = Rcon ((i - 1) div nk)"
    using inv by (auto simp: st key_inv_def)
  have idx: "ws ! j = to_le_bytes (w ! j)" if "j < i" for j
    using that i len by (simp add: ws)
  have mult: "(i - 1) div nk = i div nk - 1" "i div nk = Suc ((i - 1) div nk)" if "i mod nk = 0"
    using that nk by (metis One_nat_def Suc_pred div_Suc gr0I less_numeral_extra(1) not_less0 order_less_le_trans
        diff_Suc_1)+
  have nmult: "i div nk = (i - 1) div nk" if "i mod nk \<noteq> 0"
    using that nk by (cases i) (auto simp: div_Suc)
  let ?t = "if i mod nk = 0
      then from_le_bytes (sub_word (to_le_bytes (word_rotr 8 (w ! (i - 1))))) XOR ucast rcon
      else if nk > 6 \<and> i mod nk = 4 then from_le_bytes (sub_word (to_le_bytes (w ! (i - 1))))
      else w ! (i - 1)"
  let ?rcon = "if i mod nk = 0 then gf_mul 2 rcon else rcon"
  have step: "key_step nk i st = (w[i := w ! (i - nk) XOR ?t], ?rcon)"
    by (simp only: key_step_def st prod.case Let_def rcon_step) (simp split: if_splits)
  have "KeyWord nk i ws = ws @ [to_le_bytes (w ! (i - nk) XOR ?t)]"
    using nk idx [of "i - 1"] idx [of "i - nk"] mult(1)
    by (simp add: KeyWord_def Let_def to_le_bytes_xor sub_word_spec rot_word_spec rcon_bytes
        to_from_le_bytes rcon)
  then show ?thesis
    using len i mult nmult
    by (simp add: key_inv_def step ws take_Suc_conv_app_nth rcon)
qed

lemma key_inv_fold:
  assumes "key_inv nk nk ws st" and "1 < nk" and "nk \<le> m" and "m \<le> 60"
  shows "key_inv nk m (fold (KeyWord nk) [nk..<m] ws) (fold (key_step nk) [nk..<m] st)"
  using assms(3,4)
proof (induction m rule: dec_induct)
  case (step m)
  then show ?case
    using key_inv_step [of nk m] assms(2) by simp
qed (simp add: assms(1))

lemma key_expansion_spec:
  assumes key: "length key = 4 * nk" and nk: "1 < nk" "nk \<le> 4 * (nr + 1)" "4 * (nr + 1) \<le> 60"
  shows "key_expansion key nk nr = concat (KeyExpansion key nk nr)"
    and "length (KeyExpansion key nk nr) = 4 * (nr + 1)"
    and "w \<in> set (KeyExpansion key nk nr) \<Longrightarrow> length w = 4"
proof -
  let ?w = "map from_le_bytes (chunks_exact 4 key) :: u32 list"
  let ?st = "(?w @ replicate (60 - length ?w) 0, 1)"
  have "map to_le_bytes ?w = chunks_exact 4 key"
    by (auto intro!: map_idI simp: to_from_le_bytes length_in_chunks_exact)
  then have "key_inv nk nk (chunks_exact 4 key) ?st"
    using key nk by (simp add: key_inv_def)
  from key_inv_fold [OF this nk]
  have inv: "key_inv nk (4 * (nr + 1)) (KeyExpansion key nk nr) (fold (key_step nk) [nk..<4 * (nr + 1)] ?st)"
    by (simp add: KeyExpansion_def)
  then show "key_expansion key nk nr = concat (KeyExpansion key nk nr)"
    by (simp add: key_expansion_def key_inv_def Let_def split: prod.splits)
  show "length (KeyExpansion key nk nr) = 4 * (nr + 1)"
    using inv nk(3) by (auto simp: key_inv_def split: prod.splits)
  show "length w = 4" if "w \<in> set (KeyExpansion key nk nr)"
    using inv that by (auto simp: key_inv_def split: prod.splits)
qed

lemma length_concat_words: "(\<And>w. w \<in> set ws \<Longrightarrow> length w = n) \<Longrightarrow> length (concat ws) = n * length ws"
  by (induction ws) simp_all

lemma length_key_expansion:
  assumes "length key = 4 * nk" and "1 < nk" "nk \<le> 4 * (nr + 1)" "4 * (nr + 1) \<le> 60"
  shows "length (key_expansion key nk nr) = 16 * (nr + 1)"
  using key_expansion_spec [OF assms] length_concat_words [of "KeyExpansion key nk nr" 4] by simp

lemma aes_new_wf:
  "length key = 16 \<Longrightarrow> aes_wf (Aes128_new key)"
  "length key = 24 \<Longrightarrow> aes_wf (Aes192_new key)"
  "length key = 32 \<Longrightarrow> aes_wf (Aes256_new key)"
  by (simp_all add: aes_wf_def Aes128_new_def Aes192_new_def Aes256_new_def length_key_expansion)

lemma aes_length [simp]:
  "length (aes_encrypt_block c b) = 16" "length (aes_decrypt_block c b) = 16"
  by (simp_all add: aes_encrypt_block_def aes_decrypt_block_def)

lemma aes_inverse:
  assumes "aes_wf c" and "length b = 16"
  shows "aes_decrypt_block c (aes_encrypt_block c b) = b"
    and "aes_encrypt_block c (aes_decrypt_block c b) = b"
  using assms
  by (simp_all add: aes_wf_def aes_encrypt_block_def aes_decrypt_block_def decrypt_encrypt
      encrypt_decrypt)

lemma aes_blocks_eq:
  assumes "length blocks mod 16 = 0"
  shows "aes_encrypt_blocks c blocks =
      Some (concat (map (aes_encrypt_block c) (chunks_exact 16 blocks)))"
    and "aes_decrypt_blocks c blocks =
      Some (concat (map (aes_decrypt_block c) (chunks_exact 16 blocks)))"
proof -
  have "16 * (length blocks div 16) = length blocks" using assms by auto
  then show "aes_encrypt_blocks c blocks =
      Some (concat (map (aes_encrypt_block c) (chunks_exact 16 blocks)))"
    "aes_decrypt_blocks c blocks =
      Some (concat (map (aes_decrypt_block c) (chunks_exact 16 blocks)))"
    using assms
    by (simp_all add: aes_encrypt_blocks_def aes_decrypt_blocks_def crypt_blocks_soft_spec
        aes_encrypt_block_def [abs_def] aes_decrypt_block_def [abs_def])
qed

section \<open>Correctness of the AES types\<close>

text \<open>
  C2.  AES-128, AES-192 and AES-256 are the block ciphers of FIPS 197: on a key of the right length
  the constructor's schedule and the bitsliced rounds compute the standard's Cipher and InvCipher
  under the standard's KeyExpansion, for every 16-byte block.
\<close>

theorem aes_is_fips197:
  assumes "length block = 16"
    and "(new, nk, nr) \<in> {(Aes128_new, 4, 10), (Aes192_new, 6, 12), (Aes256_new, 8, 14)}"
    and "length key = 4 * nk"
  shows "aes_encrypt_block (new key) block = Cipher (concat (KeyExpansion key nk nr)) nr block \<and>
    aes_decrypt_block (new key) block = InvCipher (concat (KeyExpansion key nk nr)) nr block"
  using assms
  by (auto simp: aes_encrypt_block_def aes_decrypt_block_def Aes128_new_def Aes192_new_def
      Aes256_new_def encrypt_spec decrypt_spec length_key_expansion simp flip: key_expansion_spec(1))

theorem aes_is_fips197_witness:
  "aes_encrypt_block (Aes128_new (replicate 16 0)) (replicate 16 7) =
     Cipher (concat (KeyExpansion (replicate 16 0) 4 10)) 10 (replicate 16 7) \<and>
   aes_decrypt_block (Aes192_new (replicate 24 0)) (replicate 16 7) =
     InvCipher (concat (KeyExpansion (replicate 24 0) 6 12)) 12 (replicate 16 7) \<and>
   aes_encrypt_block (Aes256_new (replicate 32 0)) (replicate 16 7) =
     Cipher (concat (KeyExpansion (replicate 32 0) 8 14)) 14 (replicate 16 7)"
proof (intro conjI)
  show "aes_encrypt_block (Aes128_new (replicate 16 0)) (replicate 16 7) =
      Cipher (concat (KeyExpansion (replicate 16 0) 4 10)) 10 (replicate 16 7)"
    by (rule aes_is_fips197 [THEN conjunct1]) (simp_all only: length_replicate, simp_all)
  show "aes_decrypt_block (Aes192_new (replicate 24 0)) (replicate 16 7) =
      InvCipher (concat (KeyExpansion (replicate 24 0) 6 12)) 12 (replicate 16 7)"
    by (rule aes_is_fips197 [THEN conjunct2]) (simp_all only: length_replicate, simp_all)
  show "aes_encrypt_block (Aes256_new (replicate 32 0)) (replicate 16 7) =
      Cipher (concat (KeyExpansion (replicate 32 0) 8 14)) 14 (replicate 16 7)"
    by (rule aes_is_fips197 [THEN conjunct1]) (simp_all only: length_replicate, simp_all)
qed

text \<open>
  C4.  The batch routines are the block operations on every whole block, decryption inverts
  encryption on buffers of any number of blocks, and a buffer with a partial block is refused.
\<close>

theorem aes_blocks_correct:
  assumes "aes_wf c"
  shows "if length blocks mod 16 = 0 then
      \<exists>ct. aes_encrypt_blocks c blocks = Some ct \<and> length ct = length blocks
        \<and> chunks_exact 16 ct = map (aes_encrypt_block c) (chunks_exact 16 blocks)
        \<and> aes_decrypt_blocks c ct = Some blocks
    else aes_encrypt_blocks c blocks = None \<and> aes_decrypt_blocks c blocks = None"
proof (cases "length blocks mod 16 = 0")
  case True
  let ?ct = "concat (map (aes_encrypt_block c) (chunks_exact 16 blocks))"
  have len: "length ?ct = length blocks"
    using True by (subst length_concat_words [where n = 16]) auto
  have chunks: "chunks_exact 16 ?ct = map (aes_encrypt_block c) (chunks_exact 16 blocks)"
    by (rule chunks_exact_concat) auto
  have "map (aes_decrypt_block c) (chunks_exact 16 ?ct) = chunks_exact 16 blocks"
    unfolding chunks using assms
    by (auto intro!: map_idI simp: aes_inverse length_in_chunks_exact)
  then have "aes_decrypt_blocks c ?ct = Some blocks"
    using True len by (simp add: aes_blocks_eq concat_chunks_exact dvd_eq_mod_eq_0)
  then show ?thesis using True len chunks by (simp add: aes_blocks_eq)
qed (simp add: aes_encrypt_blocks_def aes_decrypt_blocks_def)

theorem aes_blocks_correct_witness:
  "\<exists>ct. aes_encrypt_blocks (Aes128_new (replicate 16 0)) (replicate 48 1) = Some ct
     \<and> aes_decrypt_blocks (Aes128_new (replicate 16 0)) ct = Some (replicate 48 1)"
  using aes_blocks_correct [OF aes_new_wf(1), of "replicate 16 0" "replicate 48 1"] by auto

end
