(* ===== verification/Spec2Isabelle.thy ===== *)
theory Spec2Isabelle
  imports ModPow Inverse AckCodec Replay Pem CryptoBuf AesCipher
begin

text \<open>
  A verification library for \<open>purecrypto\<close>, a pure-Rust cryptography and transport crate.  File names
  below are relative to \<open>src/src/\<close>.

  \<^bold>\<open>The program and the parts modelled.\<close>  The crate has a constant-time layer, fixed-width and
  heap-allocated big integers, symmetric and public-key algorithms built on them, encodings (DER,
  PEM, JOSE), and the transport protocols TLS, DTLS and QUIC.  The development models six groups of
  it and how they call each other:

  \<^item> \<^emph>\<open>Constant time\<close> (\<open>ct/\<close>): theory \<open>Ct\<close>.  \<open>Choice\<close> is a one-byte record, \<open>CtOption\<close> a record of a value and
    a flag; the operators, comparisons and selections are word functions at an arbitrary width.
    The traits are the locales \<open>ct_equality\<close>, \<open>ct_ordering\<close> and \<open>ct_selection\<close>, interpreted on
    integers, booleans, flags, arrays and, in \<open>Uint\<close>, on big integers.
  \<^item> \<^emph>\<open>Big integers\<close> (\<open>bignum/\<close>): \<open>Uint\<close> and \<open>UintBits\<close> (\<open>uint.rs\<close>, \<open>mul.rs\<close>), \<open>Mont\<close> and \<open>MontSqr\<close>
    (\<open>montgomery.rs\<close>), \<open>ModPow\<close> (\<open>modpow.rs\<close>), \<open>Inverse\<close> (\<open>inverse.rs\<close>, \<open>ct_inverse.rs\<close>).  A value is
    the list of its limbs and \<open>wval\<close> its number; \<open>MontModulus\<close> is the record \<open>mont_modulus\<close>.  The
    locale \<open>montgomery_domain\<close> says what exponentiation needs of a multiplication and is
    interpreted on \<open>mont_mul\<close>.
  \<^item> \<^emph>\<open>AES\<close> (\<open>cipher/aes/gf.rs\<close>, \<open>cipher/aes/mod.rs\<close>): \<open>AesGf\<close> has the field and the S-box circuit, \<open>AesSbox\<close>
    the bit planes, \<open>Aes\<close> the rounds, the key expansion and the batch routine of the software backend,
    \<open>AesCipher\<close> the types \<open>Aes128\<close>, \<open>Aes192\<close>, \<open>Aes256\<close>; \<open>Blocks\<close> has the block and byte lemmas.
    Multiplication in the field is interpreted as the library's \<open>comm_monoid_mult\<close>.
  \<^item> \<^emph>\<open>Encodings\<close>: \<open>Der\<close> (\<open>der/mod.rs\<close>, \<open>der/writer.rs\<close>), \<open>Oid\<close> (\<open>der/oid.rs\<close>), \<open>Base64\<close>
    (\<open>der/pem.rs\<close>, \<open>jose/base64url.rs\<close>), \<open>Pem\<close> (\<open>der/pem.rs\<close>).  A reader is the rest of its input,
    and a reading operation returns the reader it leaves also when it fails.  The locale
    \<open>canonical_codec\<close> is the contract of a reader and a writer, interpreted once per DER type, and
    \<open>codec_pair\<close> composes two of them; \<open>alphabet64\<close> is the contract of a base64 table, interpreted
    on both alphabets.
  \<^item> \<^emph>\<open>QUIC\<close> (\<open>quic/\<close>): \<open>TlsError\<close> (\<open>tls/error.rs\<close>), \<open>Varint\<close>, \<open>PacketNumber\<close> (\<open>pn.rs\<close>), \<open>Frame\<close> and
    \<open>AckCodec\<close> (\<open>frame.rs\<close>, \<open>ack.rs\<close> and the range reader in \<open>connection.rs\<close>), \<open>CryptoBuf\<close>
    (\<open>crypto_buf.rs\<close>) over \<open>BTree\<close>, which models \<open>BTreeMap<u64, V>\<close> as sorted association lists.
    \<open>Reassembly\<close> has the contract of a reassembly buffer, the locale \<open>reassembler\<close>, interpreted on
    the CRYPTO buffer.
  \<^item> \<^emph>\<open>DTLS\<close> (\<open>dtls/replay.rs\<close>, \<open>dtls/epoch13.rs\<close>): \<open>Replay\<close>.

  \<open>Prelude\<close> holds the integer types, byte orders, values of limb arrays and the facts on words that the
  components share.

  \<^bold>\<open>Conventions.\<close>  Machine integers are words of their width, so their arithmetic wraps as in a release
  build; \<open>usize\<close> has 64 bits, and lengths and indices bounded by a list are natural numbers.  An error
  is the left summand of a sum, \<open>Option\<close> is \<open>option\<close>, and a panic (a failed assertion, an index out of
  range) is \<open>None\<close>; debug assertions are compiled out.  A \<open>str\<close> is its byte sequence.  Methods that
  change \<open>self\<close> return the new record.

  \<^bold>\<open>What the lemmas show.\<close>

  \<^item> \<open>Ct\<close>: branch-free comparison, selection and \<open>CtOption\<close> are equality, order, \<open>if\<close> and \<open>option\<close>.
  \<^item> \<open>Uint\<close> to \<open>Inverse\<close>: every operation refines arithmetic on natural numbers; Montgomery
    multiplication, the separate squaring kernel, windowed and two-base exponentiation and the three
    inverses are modular arithmetic, for every modulus they accept, and they refuse the others.
  \<^item> AES: the 115-gate circuit on bit planes is field inversion and the affine map on every byte; rounds
    and key schedule on 128-bit words are Cipher, InvCipher and KeyExpansion of FIPS 197, stated on
    bytes; decryption inverts encryption and the two-blocks-at-a-time batches are the block cipher.
  \<^item> Encodings: readers accept exactly what writers produce (DER elements, integers, bit strings, object
    identifiers, both base64 alphabets), dotted identifiers are injective, PEM armour round trips and
    \<open>pem_decode\<close> accepts exactly the texts with one block of the label.
  \<^item> QUIC: varints, packet numbers and frames round trip; decoding arbitrary bytes is safe; iteration over
    a packet ends; acknowledged ranges survive their transmission, and those of a hostile peer stay
    ordered; the CRYPTO stream is delivered in order through loss, repetition and retransmission,
    within the buffer's limits.
  \<^item> DTLS: no sequence number is accepted twice, fresh ones in the window are, and the read epoch is
    chosen unambiguously.

  \<^bold>\<open>Bounds and fuel.\<close>  Loops are structural or have a measure, with two exceptions.  The client's loop over
  \<open>frame_iter_next\<close> has fuel \<open>Suc (length buf)\<close>, which is enough because every frame takes a byte
  (\<open>frame_iter_correct\<close>).  \<open>requeue_gather\<close> returns \<open>None\<close> for an iteration that would not advance, and
  \<open>requeue_gather_advances\<close> shows there is none.  \<open>base64_decode\<close> counts padding in a \<open>u32\<close>, so the exact
  characterisations assume fewer than \<open>2 ^ 32\<close> padding characters.

  \<^bold>\<open>Not modelled.\<close>

  \<^item> Hardware backends (AES-NI, wide x86 and ARM kernels, SIMD hashes, the AVX-512 Montgomery kernel):
    they are sequences of processor intrinsics.  The software arm of each AES dispatch is modelled;
    the AEGIS and AEZ helpers in the same file only dispatch to kernels.
  \<^item> The heap-allocated big integers and what is built on them (RSA, DSA, finite-field Diffie-Hellman):
    the algorithms are those of the fixed-width types over \<open>Vec\<close>, with blinding and random primes.
  \<^item> The other ciphers, modes, AEADs, hashes, MACs, key derivation, elliptic curves, pairings and
    post-quantum schemes: independent algorithms, each a development of its own.
  \<^item> The connection state machines of TLS, DTLS and QUIC, certificates and JOSE objects: they drive the
    algorithms above, timers and sockets.  Timing behaviour of the constant-time code has no
    counterpart in the model.
  \<^item> The bindings for C, the command line tool, entropy sources and zeroisation: effects on memory and the
    operating system.
\<close>

end
